(* ===== verification/Relay_Prelude.thy ===== *)
theory Relay_Prelude
  imports Main "HOL-Library.Word"
begin

text \<open>
  Shared ground of the GrantTap relay development: the JavaScript values a JSON frame can
  hold, the JavaScript string and number tests the sources use, the insertion-ordered
  \<open>Map\<close> of the language, and the generic list lemmas that the component theories rely on.

  Conventions. Times are integers (milliseconds, the result of \<open>Date.now()\<close>). A JavaScript
  string is represented by its UTF-8 encoding, a \<^typ>\<open>string\<close> whose characters are bytes:
  \<open>TextEncoder().encode(s).byteLength\<close> and \<open>Buffer.byteLength(s)\<close> are then \<^term>\<open>length s\<close>,
  and \<open>s.length\<close>, which counts UTF-16 units, is \<open>js_length\<close> below. The two agree on ASCII
  strings, which is what every regular expression of the sources accepts.
\<close>

section \<open>Automation\<close>

named_theorems relay_limits \<open>numeric limits of the sources, unfolded together\<close>
named_theorems relay_ops \<open>definitions of state-changing operations\<close>
named_theorems relay_inv \<open>an operation keeps its component's invariant\<close>

section \<open>JavaScript values\<close>

type_synonym time = int

text \<open>
  A value \<open>JSON.parse\<close> can return, and \<open>undefined\<close> for an absent field. \<open>JInt\<close> is a number
  with an integer value, \<open>JFrac\<close> any other number, kept as its decimal lexeme.
\<close>

datatype js =
    JUndefined
  | JNull
  | JBool bool
  | JInt int
  | JFrac string
  | JStr string
  | JArr "js list"
  | JObj "(string \<times> js) list"

text \<open>\<open>v.k\<close> (or \<open>v?.k\<close>) on a value read from JSON; every access of the sources on a value
  that may be null is optional or guarded.\<close>

fun field :: "string \<Rightarrow> js \<Rightarrow> js" where
  "field k (JObj kvs) = (case map_of kvs k of None \<Rightarrow> JUndefined | Some v \<Rightarrow> v)"
| "field k _ = JUndefined"

text \<open>\<open>Object.keys(v)\<close> of an object.\<close>

fun object_keys :: "js \<Rightarrow> string list" where
  "object_keys (JObj kvs) = map fst kvs"
| "object_keys _ = []"

text \<open>\<open>v == null\<close>.\<close>

fun nullish :: "js \<Rightarrow> bool" where
  "nullish JUndefined = True"
| "nullish JNull = True"
| "nullish _ = False"

text \<open>The value in a boolean context.\<close>

fun truthy :: "js \<Rightarrow> bool" where
  "truthy JUndefined = False"
| "truthy JNull = False"
| "truthy (JBool b) = b"
| "truthy (JInt i) = (i \<noteq> 0)"
| "truthy (JFrac _) = True"
| "truthy (JStr s) = (s \<noteq> [])"
| "truthy (JArr _) = True"
| "truthy (JObj _) = True"

fun is_string :: "js \<Rightarrow> bool" where
  "is_string (JStr _) = True"
| "is_string _ = False"

fun is_bool :: "js \<Rightarrow> bool" where
  "is_bool (JBool _) = True"
| "is_bool _ = False"

text \<open>\<open>typeof v === "object"\<close> for a value that is not null: objects and arrays.\<close>

fun is_object :: "js \<Rightarrow> bool" where
  "is_object (JObj _) = True"
| "is_object (JArr _) = True"
| "is_object _ = False"

fun is_array :: "js \<Rightarrow> bool" where
  "is_array (JArr _) = True"
| "is_array _ = False"

definition max_safe_integer :: int where
  "max_safe_integer = 9007199254740991"

text \<open>\<open>Number.isSafeInteger\<close>, and the number of a value that passed it.\<close>

fun isSafeInteger :: "js \<Rightarrow> bool" where
  "isSafeInteger (JInt i) = (\<bar>i\<bar> \<le> max_safe_integer)"
| "isSafeInteger _ = False"

fun num_of :: "js \<Rightarrow> int" where
  "num_of (JInt i) = i"
| "num_of _ = 0"

fun str_of :: "js \<Rightarrow> string" where
  "str_of (JStr s) = s"
| "str_of _ = []"

text \<open>\<open>a === b\<close> for values of different \<open>JSON.parse\<close> results: objects and arrays are never
  identical.\<close>

definition strict_eq :: "js \<Rightarrow> js \<Rightarrow> bool" where
  "strict_eq a b \<longleftrightarrow> a = b \<and> \<not> is_object a"

text \<open>An object without some fields (\<open>const { k, ...rest } = v\<close>).\<close>

fun without :: "string list \<Rightarrow> js \<Rightarrow> js" where
  "without ks (JObj kvs) = JObj (filter (\<lambda>e. fst e \<notin> set ks) kvs)"
| "without ks v = v"

text \<open>What a computation of the sources gives when it can throw, and when it can refuse its input
  with \<open>null\<close>.\<close>

datatype 'a outcome = Thrown | Refused | Value 'a

section \<open>Strings\<close>

text \<open>UTF-16 units that a byte of the UTF-8 encoding stands for: a continuation byte none, the
  first byte of a four-byte sequence two (a surrogate pair), every other first byte one.\<close>

definition utf16_units :: "char \<Rightarrow> nat" where
  "utf16_units c = (let b = (of_char c :: nat) in
     if 128 \<le> b \<and> b < 192 then 0 else if 240 \<le> b then 2 else 1)"

definition js_length :: "string \<Rightarrow> nat" where
  "js_length s = sum_list (map utf16_units s)"

definition char_between :: "char \<Rightarrow> char \<Rightarrow> char \<Rightarrow> bool" where
  "char_between lo hi c \<longleftrightarrow> (of_char lo :: nat) \<le> of_char c \<and> of_char c \<le> (of_char hi :: nat)"

definition ascii_string :: "string \<Rightarrow> bool" where
  "ascii_string s \<longleftrightarrow> list_all (\<lambda>c. (of_char c :: nat) < 128) s"

text \<open>The character class \<open>[a-f0-9]\<close> and the pattern \<open>/^[a-f0-9]{lo,hi}$/\<close>.\<close>

definition hex_char :: "char \<Rightarrow> bool" where
  "hex_char c \<longleftrightarrow> char_between CHR ''a'' CHR ''f'' c \<or> char_between CHR ''0'' CHR ''9'' c"

definition alnum_char :: "char \<Rightarrow> bool" where
  "alnum_char c \<longleftrightarrow> char_between CHR ''a'' CHR ''z'' c \<or> char_between CHR ''A'' CHR ''Z'' c
     \<or> char_between CHR ''0'' CHR ''9'' c"

definition class_repeat :: "(char \<Rightarrow> bool) \<Rightarrow> nat \<Rightarrow> nat \<Rightarrow> string \<Rightarrow> bool" where
  "class_repeat p lo hi s \<longleftrightarrow> lo \<le> length s \<and> length s \<le> hi \<and> list_all p s"

definition is_hex64 :: "string \<Rightarrow> bool" where
  "is_hex64 s \<longleftrightarrow> class_repeat hex_char 64 64 s"

definition starts_with :: "string \<Rightarrow> string \<Rightarrow> bool" where
  "starts_with p s \<longleftrightarrow> take (length p) s = p"

text \<open>
  \<open>/^[a-f0-9]{64}$/.test(v)\<close> on an arbitrary JSON value. \<open>RegExp.test\<close> converts its argument
  with \<open>String(v)\<close>: an array joins the conversions of its elements with commas, so only an
  array of one element can match; an object whose own \<open>toString\<close> field hides the inherited
  method has no primitive value and the conversion throws a \<open>TypeError\<close>. Numbers, booleans
  and other objects convert to strings that are never 64 hexadecimal digits. \<open>None\<close> is the
  exception.
\<close>

fun to_string_throws :: "js \<Rightarrow> bool" where
  "to_string_throws (JObj kvs) = (''toString'' \<in> set (map fst kvs))"
| "to_string_throws (JArr vs) = (\<exists>v \<in> set vs. to_string_throws v)"
| "to_string_throws _ = False"

fun hex64_coerced :: "js \<Rightarrow> bool" where
  "hex64_coerced (JStr s) = is_hex64 s"
| "hex64_coerced (JArr [v]) = hex64_coerced v"
| "hex64_coerced _ = False"

definition hex64_test :: "js \<Rightarrow> bool option" where
  "hex64_test v = (if to_string_throws v then None else Some (hex64_coerced v))"

text \<open>
  The UTF-16 units of a string (\<open>charCodeAt\<close> at every index), decoded from its UTF-8 bytes: a
  sequence of two or three bytes is one unit, a sequence of four bytes a surrogate pair.
\<close>

definition continuation :: "char \<Rightarrow> nat" where
  "continuation c = of_char c mod 64"

fun utf16_codes :: "string \<Rightarrow> nat list" where
  "utf16_codes [] = []"
| "utf16_codes (c # s) = (let b = (of_char c :: nat) in
     if b < 128 then b # utf16_codes s
     else if b < 224 then (case s of
         d # r \<Rightarrow> ((b mod 32) * 64 + continuation d) # utf16_codes r | [] \<Rightarrow> [])
     else if b < 240 then (case s of
         d # e # r \<Rightarrow> ((b mod 16) * 4096 + continuation d * 64 + continuation e) # utf16_codes r
       | _ \<Rightarrow> [])
     else (case s of
         d # e # f # r \<Rightarrow>
           (let p = (b mod 8) * 262144 + continuation d * 4096 + continuation e * 64 + continuation f
                    - 65536
            in (55296 + p div 1024) # (56320 + p mod 1024) # utf16_codes r)
       | _ \<Rightarrow> []))"

text \<open>\<open>n.toString(16)\<close> of a natural number, and \<open>s.padStart(n, "0")\<close>.\<close>

definition hex_digit :: "nat \<Rightarrow> char" where
  "hex_digit d = (if d < 10 then char_of (d + 48) else char_of (d + 87))"

fun to_hex :: "nat \<Rightarrow> string" where
  "to_hex n = (if n < 16 then [hex_digit n] else to_hex (n div 16) @ [hex_digit (n mod 16)])"

declare to_hex.simps [simp del]

definition pad_start :: "nat \<Rightarrow> string \<Rightarrow> string" where
  "pad_start n s = replicate (n - length s) CHR ''0'' @ s"

lemma field_without:
  "field k (without ks v) = (if k \<in> set ks then JUndefined else field k v)" if "is_object v"
proof (cases v)
  case (JObj kvs)
  then show ?thesis
    by (induction kvs arbitrary: v) (auto split: if_splits)
qed (use that in simp_all)

lemma list_all_replicate [simp]: "list_all p (replicate n x) \<longleftrightarrow> n = 0 \<or> p x"
  by (induction n) auto

lemma js_length_Nil [simp]: "js_length [] = 0"
  by (simp add: js_length_def)

lemma js_length_Cons [simp]: "js_length (c # s) = utf16_units c + js_length s"
  by (simp add: js_length_def)

lemma js_length_append [simp]: "js_length (s @ t) = js_length s + js_length t"
  by (simp add: js_length_def)

lemma js_length_replicate [simp]: "js_length (replicate n c) = n * utf16_units c"
  by (induction n) auto

lemma js_length_ascii: "ascii_string s \<Longrightarrow> js_length s = length s"
  by (induction s) (auto simp: ascii_string_def utf16_units_def Let_def)

lemma class_repeat_replicate [simp]:
  "class_repeat p lo hi (replicate n c) \<longleftrightarrow> lo \<le> n \<and> n \<le> hi \<and> (n = 0 \<or> p c)"
  by (auto simp: class_repeat_def)

lemma hex64_test_string [simp]: "hex64_test (JStr s) = Some (is_hex64 s)"
  by (simp add: hex64_test_def)

lemma hex64_test_undefined [simp]: "hex64_test JUndefined = Some False" "hex64_test JNull = Some False"
  by (simp_all add: hex64_test_def)

lemma starts_with_append [simp]: "starts_with p (p @ s)"
  by (simp add: starts_with_def)

lemma utf16_codes_ascii: "ascii_string s \<Longrightarrow> utf16_codes s = map of_char s"
  by (induction s) (auto simp: ascii_string_def Let_def)

lemma ascii_codes_inject:
  assumes "ascii_string s" "ascii_string t"
  shows "utf16_codes s = utf16_codes t \<longleftrightarrow> s = t"
proof -
  have "inj (of_char :: char \<Rightarrow> nat)" by (rule injI) simp
  then show ?thesis using assms by (simp add: utf16_codes_ascii inj_map_eq_map)
qed

lemma hex_char_digit [simp]: "d < 16 \<Longrightarrow> hex_char (hex_digit d)"
  by (auto simp: hex_digit_def hex_char_def char_between_def)

lemma hex_char_to_hex: "list_all hex_char (to_hex n)"
  by (induction n rule: to_hex.induct) (subst to_hex.simps, auto)

lemma length_to_hex: "0 < k \<Longrightarrow> n < 16 ^ k \<Longrightarrow> length (to_hex n) \<le> k"
proof (induction n arbitrary: k rule: to_hex.induct)
  case (1 n)
  show ?case
  proof (cases "n < 16")
    case True
    with 1 show ?thesis by (subst to_hex.simps) simp
  next
    case False
    with 1(3) obtain j where j: "k = Suc j" "0 < j" by (cases k; cases "k - 1") auto
    with 1(3) have "n div 16 < 16 ^ j" by (simp add: less_mult_imp_div_less mult.commute)
    from 1(1) [OF False j(2) this] False j show ?thesis by (subst to_hex.simps) simp
  qed
qed

lemma hex_padded: "0 < k \<Longrightarrow> n < 16 ^ k \<Longrightarrow> class_repeat hex_char k k (pad_start k (to_hex n))"
  using length_to_hex [of k n] hex_char_to_hex [of n]
  by (auto simp: class_repeat_def pad_start_def hex_char_def char_between_def)

section \<open>Lists\<close>

text \<open>\<open>rows.findIndex(p)\<close>, with \<open>None\<close> for -1.\<close>

fun find_index :: "('a \<Rightarrow> bool) \<Rightarrow> 'a list \<Rightarrow> nat option" where
  "find_index p [] = None"
| "find_index p (x # xs) = (if p x then Some 0 else map_option Suc (find_index p xs))"

text \<open>\<open>rows.splice(i, 1)\<close>.\<close>

definition remove_at :: "nat \<Rightarrow> 'a list \<Rightarrow> 'a list" where
  "remove_at i xs = take i xs @ drop (Suc i) xs"

text \<open>\<open>rows.slice(-n)\<close> for a positive \<open>n\<close>.\<close>

definition slice_last :: "nat \<Rightarrow> 'a list \<Rightarrow> 'a list" where
  "slice_last n xs = drop (length xs - n) xs"

lemma find_index_None_iff: "find_index p xs = None \<longleftrightarrow> list_all (\<lambda>x. \<not> p x) xs"
  by (induction xs) auto

lemma find_index_Some_split:
  "find_index p xs = Some i \<Longrightarrow>
     \<exists>ys x zs. xs = ys @ x # zs \<and> length ys = i \<and> p x \<and> list_all (\<lambda>y. \<not> p y) ys"
proof (induction xs arbitrary: i)
  case Nil
  then show ?case by simp
next
  case (Cons x xs)
  show ?case
  proof (cases "p x")
    case True
    with Cons.prems have "x # xs = [] @ x # xs \<and> length [] = i \<and> p x \<and> list_all (\<lambda>y. \<not> p y) []"
      by simp
    then show ?thesis by blast
  next
    case False
    with Cons.prems obtain j where j: "find_index p xs = Some j" "i = Suc j" by auto
    from Cons.IH [OF j(1)] obtain ys y zs
      where "xs = ys @ y # zs" "length ys = j" "p y" "list_all (\<lambda>y. \<not> p y) ys" by blast
    with False j(2) have "x # xs = (x # ys) @ y # zs \<and> length (x # ys) = i \<and> p y
        \<and> list_all (\<lambda>y. \<not> p y) (x # ys)" by simp
    then show ?thesis by blast
  qed
qed

lemma find_index_less: "find_index p xs = Some i \<Longrightarrow> i < length xs"
  by (auto dest!: find_index_Some_split)

lemma length_remove_at: "i < length xs \<Longrightarrow> length (remove_at i xs) = length xs - 1"
  by (simp add: remove_at_def)

lemma remove_at_middle [simp]: "remove_at (length ys) (ys @ x # zs) = ys @ zs"
  by (simp add: remove_at_def)

lemma length_slice_last [simp]: "length (slice_last n xs) = min n (length xs)"
  by (simp add: slice_last_def)

lemma slice_last_distinct: "distinct (map f xs) \<Longrightarrow> distinct (map f (slice_last n xs))"
  by (simp add: slice_last_def drop_map [symmetric] distinct_drop)

lemma set_slice_last: "set (slice_last n xs) \<subseteq> set xs"
  by (simp add: slice_last_def set_drop_subset)

lemma sum_list_filter_le:
  fixes f :: "'a \<Rightarrow> nat"
  shows "sum_list (map f (filter p xs)) \<le> sum_list (map f xs)"
  by (induction xs) auto

lemma filter_eq_length: "length (filter p xs) = length xs \<Longrightarrow> filter p xs = xs"
  by (metis filter_id_conv length_filter_less less_irrefl)

section \<open>The insertion-ordered \<open>Map\<close>\<close>

text \<open>
  A JavaScript \<open>Map\<close> is an association list in insertion order: \<open>set\<close> on a present key keeps
  its place, \<open>set\<close> on an absent key appends, \<open>delete\<close> drops the entry.
\<close>

type_synonym ('k, 'v) jmap = "('k \<times> 'v) list"

definition jm_get :: "('k, 'v) jmap \<Rightarrow> 'k \<Rightarrow> 'v option" where
  "jm_get m k = map_of m k"

fun jm_set :: "('k, 'v) jmap \<Rightarrow> 'k \<Rightarrow> 'v \<Rightarrow> ('k, 'v) jmap" where
  "jm_set [] k v = [(k, v)]"
| "jm_set ((k', v') # m) k v = (if k' = k then (k, v) # m else (k', v') # jm_set m k v)"

definition jm_delete :: "('k, 'v) jmap \<Rightarrow> 'k \<Rightarrow> ('k, 'v) jmap" where
  "jm_delete m k = filter (\<lambda>e. fst e \<noteq> k) m"

definition jm_wf :: "('k, 'v) jmap \<Rightarrow> bool" where
  "jm_wf m \<longleftrightarrow> distinct (map fst m)"

lemma jm_get_Nil [simp]: "jm_get [] k = None"
  by (simp add: jm_get_def)

lemma jm_get_set [simp]: "jm_get (jm_set m k v) k' = (if k' = k then Some v else jm_get m k')"
  by (induction m) (auto simp: jm_get_def)

lemma jm_get_delete [simp]: "jm_get (jm_delete m k) k' = (if k' = k then None else jm_get m k')"
  by (induction m) (auto simp: jm_get_def jm_delete_def)

lemma jm_keys_set:
  "map fst (jm_set m k v) = (if k \<in> set (map fst m) then map fst m else map fst m @ [k])"
  by (induction m) (auto simp: rev_image_eqI)

lemma jm_wf_Nil [simp]: "jm_wf []"
  by (simp add: jm_wf_def)

lemma jm_wf_set [simp]: "jm_wf m \<Longrightarrow> jm_wf (jm_set m k v)"
  by (simp add: jm_wf_def jm_keys_set)

lemma jm_wf_delete [simp]: "jm_wf m \<Longrightarrow> jm_wf (jm_delete m k)"
  by (simp add: jm_wf_def jm_delete_def distinct_map_filter)

lemma jm_length_set: "length (jm_set m k v) = (if jm_get m k = None then Suc (length m) else length m)"
  by (induction m) (auto simp: jm_get_def)

lemma jm_length_delete_le: "length (jm_delete m k) \<le> length m"
  by (simp add: jm_delete_def)

lemma jm_delete_absent: "jm_get m k = None \<Longrightarrow> jm_delete m k = m"
  by (auto simp: jm_get_def jm_delete_def map_of_eq_None_iff intro!: filter_True)

lemma jm_length_delete_present:
  "jm_wf m \<Longrightarrow> jm_get m k \<noteq> None \<Longrightarrow> Suc (length (jm_delete m k)) = length m"
proof (induction m)
  case Nil
  then show ?case by simp
next
  case (Cons e m)
  obtain k' v where e: "e = (k', v)" by (cases e)
  show ?case
  proof (cases "k' = k")
    case True
    with Cons.prems e have "jm_get m k = None"
      by (auto simp: jm_get_def jm_wf_def map_of_eq_None_iff)
    then have "jm_delete m k = m" by (rule jm_delete_absent)
    with True e show ?thesis by (simp add: jm_delete_def)
  next
    case False
    with Cons e show ?thesis by (auto simp: jm_get_def jm_delete_def jm_wf_def)
  qed
qed

lemma jm_get_mem: "jm_wf m \<Longrightarrow> (k, v) \<in> set m \<Longrightarrow> jm_get m k = Some v"
  by (simp add: jm_wf_def jm_get_def)

lemma jm_set_absent: "jm_get m k = None \<Longrightarrow> jm_set m k v = m @ [(k, v)]"
  by (induction m) (auto simp: jm_get_def split: if_splits)

section \<open>Values as text\<close>

text \<open>\<open>String(v)\<close> where the text decides: strings, and arrays of one such value. The text of every
  other value that does not throw fails the tests the sources apply to it, and is empty here.\<close>

fun proof_text :: "js \<Rightarrow> string" where
  "proof_text (JStr s) = s"
| "proof_text (JArr [v]) = proof_text v"
| "proof_text _ = []"

definition to_lower :: "char \<Rightarrow> char" where
  "to_lower c = (if char_between (CHR ''A'') (CHR ''Z'') c then char_of ((of_char c :: nat) + 32) else c)"

section \<open>Texts in pieces\<close>

text \<open>\<open>Math.ceil(a / b)\<close>.\<close>

definition ceil_div :: "nat \<Rightarrow> nat \<Rightarrow> nat" where
  "ceil_div a b = (a + b - 1) div b"

lemma ceil_div_covers: "0 < b \<Longrightarrow> a \<le> ceil_div a b * b"
proof -
  assume b: "0 < b"
  have "a + b - 1 < b * ((a + b - 1) div b) + b"
    using dividend_less_times_div [OF b, of "a + b - 1"] by linarith
  then show ?thesis using b by (simp add: ceil_div_def mult.commute)
qed

lemma pieces_append: "concat (map (\<lambda>i. take k (drop (i * k) s)) [0..<n]) = take (n * k) s"
proof (induction n)
  case (Suc n)
  then show ?case by (simp add: take_add [symmetric] add.commute)
qed simp

lemma pieces_whole: "0 < k \<Longrightarrow> concat (map (\<lambda>i. take k (drop (i * k) s)) [0..<ceil_div (length s) k]) = s"
  using ceil_div_covers [of k "length s"] by (simp add: pieces_append)

end
