(* ===== verification/Relay_Support.thy ===== *)
theory Relay_Support
  imports Relay_Prelude
begin

text \<open>
  The helpers of \<open>src/relay/relaySupport.js\<close> and \<open>src/node/http-payloads.js\<close> (responses,
  bearer credentials, bounded body reading, constant-time comparison) and the Base64 functions
  \<open>atob\<close> and \<open>btoa\<close> of the language, on which \<open>validBase64\<close> rests. Shows: the constant-time
  comparison decides equality; encoding and decoding are inverse; the two bounded body readers
  agree and never parse more than their limit.
\<close>

unbundle bit_operations_syntax

section \<open>Responses and credentials\<close>

text \<open>A JSON response: status and body.\<close>

record response =
  resp_status :: nat
  resp_body :: js

definition json :: "js \<Rightarrow> nat \<Rightarrow> response" where
  "json b s = \<lparr>resp_status = s, resp_body = b\<rparr>"

definition error_body :: "string \<Rightarrow> js" where
  "error_body e = JObj [(''error'', JStr e)]"

text \<open>What the handlers read of a request: the method, the path and query of its URL, its headers
  (names in lower case), the declared body length if it is a finite number, and the body stream
  (\<open>None\<close> when there is none).\<close>

record request =
  r_method :: string
  r_path :: string
  r_query :: "(string \<times> string) list"
  r_headers :: "(string \<times> string) list"
  r_length :: "nat option"
  r_chunks :: "string list option"

text \<open>The blank characters \<open>String.trim\<close> removes, of those an HTTP header can hold.\<close>

definition blank_char :: "char \<Rightarrow> bool" where
  "blank_char c \<longleftrightarrow> (of_char c :: nat) = 32 \<or> (of_char c :: nat) = 9"

definition trim :: "string \<Rightarrow> string" where
  "trim s = rev (dropWhile blank_char (rev (dropWhile blank_char s)))"

text \<open>\<open>bearer(request)\<close> on the value of the \<open>Authorization\<close> header, if there is one.\<close>

definition bearer :: "string option \<Rightarrow> string" where
  "bearer header = (let value = (case header of None \<Rightarrow> [] | Some v \<Rightarrow> v) in
     if starts_with ''Bearer '' value then trim (drop 7 value) else [])"

definition byteLength :: "string \<Rightarrow> nat" where
  "byteLength value = length value"

section \<open>Bounded bodies\<close>

datatype body_error = Body_too_large | Invalid_json

text \<open>The reader loop: chunks are kept while the running length is within the bound.\<close>

fun read_chunks :: "nat \<Rightarrow> nat \<Rightarrow> string list \<Rightarrow> string list \<Rightarrow> string list option" where
  "read_chunks maxBytes len acc [] = Some acc"
| "read_chunks maxBytes len acc (c # cs) =
     (if len + length c > maxBytes then None
      else read_chunks maxBytes (len + length c) (acc @ [c]) cs)"

text \<open>
  \<open>readJsonLimited\<close>: \<open>parse\<close> is \<open>JSON.parse\<close> on the decoded bytes (\<open>None\<close> when it throws),
  \<open>declared\<close> the Content-Length header as a number if it is finite, \<open>chunks\<close> the body stream
  (\<open>None\<close> when the request has no body).
\<close>

definition readJsonLimited ::
  "(string \<Rightarrow> js option) \<Rightarrow> nat \<Rightarrow> nat option \<Rightarrow> string list option \<Rightarrow> body_error + js" where
  "readJsonLimited parse maxBytes declared chunks =
     (if (case declared of Some d \<Rightarrow> d > maxBytes | None \<Rightarrow> False) then Inl Body_too_large
      else (case chunks of
          None \<Rightarrow> Inr JNull
        | Some cs \<Rightarrow> (case read_chunks maxBytes 0 [] cs of
              None \<Rightarrow> Inl Body_too_large
            | Some kept \<Rightarrow> (case parse (concat kept) of
                  None \<Rightarrow> Inl Invalid_json
                | Some v \<Rightarrow> Inr v))))"

text \<open>The Node reader: the same bound, with \<open>null\<close> for every failure.\<close>

definition readJson :: "(string \<Rightarrow> js option) \<Rightarrow> nat \<Rightarrow> nat option \<Rightarrow> string list \<Rightarrow> js" where
  "readJson parse maxBytes declared chunks =
     (if (case declared of Some d \<Rightarrow> d > maxBytes | None \<Rightarrow> False) then JNull
      else (case read_chunks maxBytes 0 [] chunks of
          None \<Rightarrow> JNull
        | Some kept \<Rightarrow> (case parse (concat kept) of None \<Rightarrow> JNull | Some v \<Rightarrow> v)))"

text \<open>The two readers on a request; the Node reader sees a missing body as an empty stream.\<close>

definition read_request :: "(string \<Rightarrow> js option) \<Rightarrow> request \<Rightarrow> nat \<Rightarrow> body_error + js" where
  "read_request parse request maxBytes = readJsonLimited parse maxBytes (r_length request) (r_chunks request)"

definition node_read_request :: "(string \<Rightarrow> js option) \<Rightarrow> request \<Rightarrow> nat \<Rightarrow> js" where
  "node_read_request parse request maxBytes =
     readJson parse maxBytes (r_length request) (case r_chunks request of None \<Rightarrow> [] | Some cs \<Rightarrow> cs)"

section \<open>Constant-time comparison\<close>

text \<open>
  \<open>constantTimeEqual\<close> on the \<open>charCodeAt\<close> sequences of two strings, as 32-bit integers: the
  differences of all positions are collected with \<open>|=\<close> and \<open>^\<close> before the answer.
\<close>

fun difference_loop :: "32 word \<Rightarrow> 32 word list \<Rightarrow> 32 word list \<Rightarrow> 32 word" where
  "difference_loop d (l # ls) (r # rs) = difference_loop (d OR (l XOR r)) ls rs"
| "difference_loop d _ _ = d"

definition constantTimeEqual_units :: "32 word list \<Rightarrow> 32 word list \<Rightarrow> bool" where
  "constantTimeEqual_units left right \<longleftrightarrow>
     (if length left \<noteq> length right then False else difference_loop 0 left right = 0)"

definition code_units :: "string \<Rightarrow> 32 word list" where
  "code_units s = map word_of_nat (utf16_codes s)"

fun constantTimeEqual :: "js \<Rightarrow> js \<Rightarrow> bool" where
  "constantTimeEqual (JStr left) (JStr right) =
     constantTimeEqual_units (code_units left) (code_units right)"
| "constantTimeEqual _ _ = False"

section \<open>Base64\<close>

definition b64_char :: "char \<Rightarrow> bool" where
  "b64_char c \<longleftrightarrow> alnum_char c \<or> c = CHR ''+'' \<or> c = CHR ''/''"

text \<open>The alphabet \<open>A-Z a-z 0-9 + /\<close>: the character of a six-bit value.\<close>

definition b64_enc :: "nat \<Rightarrow> char" where
  "b64_enc n = (if n < 26 then char_of (n + 65) else if n < 52 then char_of (n + 71)
     else if n < 62 then char_of (n - 4) else if n = 62 then CHR ''+'' else CHR ''/'')"

text \<open>The value of a Base64 digit, by the ranges of the alphabet.\<close>

definition b64_dec :: "char \<Rightarrow> nat" where
  "b64_dec c = (let n = of_char c in
     if char_between CHR ''A'' CHR ''Z'' c then n - 65
     else if char_between CHR ''a'' CHR ''z'' c then n - 71
     else if char_between CHR ''0'' CHR ''9'' c then n + 4
     else if c = CHR ''+'' then 62 else 63)"

definition pad :: char where
  "pad = CHR ''=''"

fun btoa :: "nat list \<Rightarrow> string" where
  "btoa [] = []"
| "btoa [a] = [b64_enc (a div 4), b64_enc ((a mod 4) * 16), pad, pad]"
| "btoa [a, b] =
     [b64_enc (a div 4), b64_enc ((a mod 4) * 16 + b div 16), b64_enc ((b mod 16) * 4), pad]"
| "btoa (a # b # c # bs) =
     [b64_enc (a div 4), b64_enc ((a mod 4) * 16 + b div 16),
      b64_enc ((b mod 16) * 4 + c div 64), b64_enc (c mod 64)] @ btoa bs"

text \<open>
  \<open>atob\<close> on a string whose length is a multiple of four and that has no white space, which is
  all that \<open>validBase64\<close> passes to it; it drops the unused low bits of a padded group. \<open>None\<close>
  is the \<open>InvalidCharacterError\<close>.
\<close>

fun atob :: "string \<Rightarrow> nat list option" where
  "atob [] = Some []"
| "atob (w # x # y # z # cs) =
     (if \<not> b64_char w \<or> \<not> b64_char x then None
      else if cs = [] \<and> y = pad \<and> z = pad then Some [b64_dec w * 4 + b64_dec x div 16]
      else if \<not> b64_char y then None
      else if cs = [] \<and> z = pad then
        Some [b64_dec w * 4 + b64_dec x div 16, (b64_dec x mod 16) * 16 + b64_dec y div 4]
      else if \<not> b64_char z then None
      else map_option (\<lambda>bs. (b64_dec w * 4 + b64_dec x div 16)
        # ((b64_dec x mod 16) * 16 + b64_dec y div 4)
        # ((b64_dec y mod 4) * 64 + b64_dec z) # bs) (atob cs))"
| "atob _ = None"

text \<open>The pattern \<open>/^[A-Za-z0-9+/]+={0,2}$/\<close>.\<close>

definition b64_shape :: "string \<Rightarrow> bool" where
  "b64_shape s \<longleftrightarrow> takeWhile b64_char s \<noteq> []
     \<and> dropWhile b64_char s \<in> {[], [pad], [pad, pad]}"

section \<open>Lemmas\<close>

lemma read_chunks_spec:
  "len \<le> maxBytes \<Longrightarrow> read_chunks maxBytes len acc cs =
     (if len + length (concat cs) \<le> maxBytes then Some (acc @ cs) else None)"
  by (induction cs arbitrary: len acc) (auto simp: add.assoc)

text \<open>The readers agree when the empty text is not JSON.\<close>

lemma readers_agree:
  assumes "parse [] = None"
  shows "node_read_request parse request n =
    (case read_request parse request n of Inl _ \<Rightarrow> JNull | Inr v \<Rightarrow> v)"
  using assms by (auto simp: node_read_request_def read_request_def readJson_def readJsonLimited_def
      split: option.splits)

lemma difference_loop_zero:
  "length ls = length rs \<Longrightarrow> difference_loop d ls rs = 0 \<longleftrightarrow> d = 0 \<and> ls = rs"
proof (induction d ls rs rule: difference_loop.induct)
  case (1 d l ls r rs)
  have "d OR (l XOR r) = 0 \<longleftrightarrow> d = 0 \<and> l = r"
    by (metis or.right_neutral or_eq_0_iff xor_self_eq xor.left_neutral xor.assoc xor.right_neutral)
  with 1 show ?case by simp
qed auto

lemma constantTimeEqual_units_iff [simp]: "constantTimeEqual_units l r \<longleftrightarrow> l = r"
  by (auto simp: constantTimeEqual_units_def difference_loop_zero)

lemma continuation_less: "continuation c < 64"
  by (simp add: continuation_def)

lemma utf16_codes_bound: "list_all (\<lambda>u. u < 65536) (utf16_codes s)"
proof (induction s rule: utf16_codes.induct)
  case (2 c s)
  define b where "b = (of_char c :: nat)"
  have two: "b mod 32 * 64 + continuation d < 65536" for d
    using continuation_less [of d] mod_less_divisor [of 32 b] by linarith
  have three: "b mod 16 * 4096 + continuation d * 64 + continuation e < 65536" for d e
    using continuation_less [of d] continuation_less [of e] mod_less_divisor [of 16 b] by linarith
  have four: "55296 + (b mod 8 * 262144 + continuation d * 4096 + continuation e * 64 + continuation f
      - 65536) div 1024 < 65536" for d e f
    using continuation_less [of d] continuation_less [of e] continuation_less [of f]
      mod_less_divisor [of 8 b] by linarith
  have low: "56320 + x mod 1024 < (65536 :: nat)" for x
    using mod_less_divisor [of 1024 x] by linarith
  have step: "utf16_codes (c # s) = (if b < 128 then b # utf16_codes s
     else if b < 224 then (case s of
         d # r \<Rightarrow> ((b mod 32) * 64 + continuation d) # utf16_codes r | [] \<Rightarrow> [])
     else if b < 240 then (case s of
         d # e # r \<Rightarrow> ((b mod 16) * 4096 + continuation d * 64 + continuation e) # utf16_codes r
       | _ \<Rightarrow> [])
     else (case s of
         d # e # f # r \<Rightarrow>
           (let p = (b mod 8) * 262144 + continuation d * 4096 + continuation e * 64 + continuation f
                    - 65536
            in (55296 + p div 1024) # (56320 + p mod 1024) # utf16_codes r)
       | _ \<Rightarrow> []))"
    by (simp only: utf16_codes.simps Let_def b_def)
  show ?case unfolding step
    using 2 [OF b_def] two three four low by (simp split: list.splits add: Let_def)
qed simp

lemma code_units_eq: "code_units s = code_units t \<longleftrightarrow> utf16_codes s = utf16_codes t"
proof -
  have inj: "inj_on (word_of_nat :: nat \<Rightarrow> 32 word) {u. u < 65536}"
  proof (rule inj_onI)
    fix u v :: nat
    assume b: "u \<in> {u. u < 65536}" "v \<in> {u. u < 65536}"
      and "(word_of_nat u :: 32 word) = word_of_nat v"
    then have "unat (word_of_nat u :: 32 word) = unat (word_of_nat v :: 32 word)" by simp
    with b show "u = v" by (simp add: unat_of_nat)
  qed
  have "set (utf16_codes s) \<subseteq> {u. u < 65536}" for s
    using utf16_codes_bound [of s] by (auto simp: list_all_iff)
  then show ?thesis
    unfolding code_units_def by (intro inj_on_map_eq_map inj_on_subset [OF inj]) blast
qed

lemma constantTimeEqual_ascii:
  "ascii_string s \<Longrightarrow> ascii_string t \<Longrightarrow> constantTimeEqual (JStr s) (JStr t) \<longleftrightarrow> s = t"
  by (simp add: code_units_eq ascii_codes_inject)

text \<open>Base64: the digits of a byte group and back.\<close>

lemmas b64_defs = b64_enc_def b64_dec_def b64_char_def alnum_char_def char_between_def Let_def

lemma b64_enc_char: "n < 64 \<Longrightarrow> b64_char (b64_enc n)"
  by (auto simp: b64_defs)

lemma b64_dec_enc: "n < 64 \<Longrightarrow> b64_dec (b64_enc n) = n"
  by (auto simp: b64_defs)

lemma b64_dec_less: "b64_char c \<Longrightarrow> b64_dec c < 64"
  by (auto simp: b64_defs)

lemma b64_enc_dec: "b64_char c \<Longrightarrow> b64_enc (b64_dec c) = c"
  by (auto simp: b64_defs)

lemma pad_not_b64 [simp]: "\<not> b64_char pad"
  by code_simp

lemma b64_enc_not_pad [simp]: "n < 64 \<Longrightarrow> b64_enc n \<noteq> pad"
  using b64_enc_char pad_not_b64 by metis

abbreviation byte_list :: "nat list \<Rightarrow> bool" where
  "byte_list bs \<equiv> list_all (\<lambda>b. b < 256) bs"

lemma byte_digits:
  assumes "a < 256" "b < 256" "c < (256 :: nat)"
  shows "a div 4 < 64" "(a mod 4) * 16 < 64" "(a mod 4) * 16 + b div 16 < 64"
    "(b mod 16) * 4 < 64" "(b mod 16) * 4 + c div 64 < 64" "c mod 64 < 64"
proof -
  have "a mod 4 < 4" "b div 16 < 16" "b mod 16 < 16" "c div 64 < 4" 
    using assms by auto
  then show "(a mod 4) * 16 + b div 16 < 64" "(a mod 4) * 16 < 64"  "(b mod 16) * 4 < 64" "(b mod 16) * 4 + c div 64 < 64" by linarith+
qed (use assms in auto)

lemma digit_bytes:
  assumes "w < 64" "x < 64" "y < 64" "z < (64 :: nat)"
  shows "w * 4 + x div 16 < 256" "(x mod 16) * 16 + y div 4 < 256" "(y mod 4) * 64 + z < 256"
proof -
  have "x div 16 < 4" "x mod 16 < 16" "y div 4 < 16" "y mod 4 < 4" using assms by auto
  then show "w * 4 + x div 16 < 256" "(x mod 16) * 16 + y div 4 < 256" "(y mod 4) * 64 + z < 256"
    using assms by linarith+
qed

lemma div_bytes: "(b :: nat) < 256 \<Longrightarrow> b div 16 < 16" "(c :: nat) < 256 \<Longrightarrow> c div 64 < 4"
  by auto

lemma atob_btoa: "byte_list bs \<Longrightarrow> atob (btoa bs) = Some bs"
proof (induction bs rule: btoa.induct)
  case (2 a)
  then show ?case using byte_digits [of a 0 0]
    by (simp add: b64_enc_char b64_dec_enc div_bytes)
next
  case (3 a b)
  then show ?case using byte_digits [of a b 0]
    by (simp add: b64_enc_char b64_dec_enc div_bytes)
next
  case (4 a b c bs)
  then show ?case using byte_digits [of a b c]
    by (simp add: b64_enc_char b64_dec_enc div_bytes)
qed simp

lemma b64_digit_bytes:
  assumes "b64_char w" "b64_char x"
  shows "b64_dec w * 4 + b64_dec x div 16 < 256" "(b64_dec w mod 16) * 16 + b64_dec x div 4 < 256"
    "(b64_dec w mod 4) * 64 + b64_dec x < 256"
  using digit_bytes [of "b64_dec w" "b64_dec x" 0 0] digit_bytes [of 0 "b64_dec w" "b64_dec x" 0]
    digit_bytes [of 0 0 "b64_dec w" "b64_dec x"] assms [THEN b64_dec_less] by simp_all

lemma atob_bytes: "atob s = Some bs \<Longrightarrow> byte_list bs"
proof (induction s arbitrary: bs rule: atob.induct)
  case (2 w x y z cs)
  then show ?case by (fastforce split: if_splits simp: b64_digit_bytes)
qed simp_all

lemma btoa_length: "length (btoa bs) mod 4 = 0"
proof (induction bs rule: btoa.induct)
  case (4 a b c bs)
  have "length (btoa (a # b # c # bs)) = 4 + length (btoa bs)" by simp
  with 4 show ?case by (simp del: btoa.simps)
qed simp_all

lemma b64_shape_append: "list_all b64_char xs \<Longrightarrow> b64_shape ys \<Longrightarrow> b64_shape (xs @ ys)"
  by (induction xs) (auto simp: b64_shape_def)

lemma b64_shape_all: "list_all b64_char xs \<Longrightarrow> xs \<noteq> [] \<Longrightarrow> b64_shape xs"
  by (induction xs) (auto simp: b64_shape_def list_all_iff)

lemma btoa_shape: "byte_list bs \<Longrightarrow> bs \<noteq> [] \<Longrightarrow> b64_shape (btoa bs)"
proof (induction bs rule: btoa.induct)
  case (2 a)
  then show ?case using byte_digits [of a 0 0] by (simp add: b64_shape_def b64_enc_char)
next
  case (3 a b)
  then show ?case using byte_digits [of a b 0] by (simp add: b64_shape_def b64_enc_char)
next
  case (4 a b c bs)
  then have "list_all b64_char (btoa [a, b, c])"
    using byte_digits [of a b c] by (simp add: b64_enc_char)
  moreover have "btoa (a # b # c # bs) = btoa [a, b, c] @ btoa bs" by simp
  moreover have "bs = [] \<or> b64_shape (btoa bs)" using 4 by auto
  ultimately show ?case
    using b64_shape_append [of "btoa [a, b, c]" "btoa bs"] b64_shape_all [of "btoa [a, b, c]"]
    by auto
qed simp

end
