(* ===== verification/Relay_Validation.thy ===== *)
theory Relay_Validation
  imports Relay_Support
begin

text \<open>
  Validation of what clients send: \<open>src/relay/relayValidation.js\<close>, the envelope part of
  \<open>src/retainedState/policy.js\<close> and \<open>src/relay/recipientRouting.js\<close>. An envelope is an
  arbitrary JSON value; \<open>envelopeProblem\<close> classifies it. Shows: a deliverable envelope can
  only become expired, never invalid, as time passes; its lifetime is bounded; only
  machine-to-phone envelopes addressed to one recipient carry retained state; validation
  throws only on values with a \<open>toString\<close> field, and does so on them; \<open>validBase64\<close>
  accepts exactly the canonical encodings.
\<close>

section \<open>Constants\<close>

definition STATE_TTL_MS :: int where "STATE_TTL_MS = 604800000"
definition MAX_ENVELOPE_TTL_MS :: int where "MAX_ENVELOPE_TTL_MS = 90000000"
definition MAX_SUBMISSION_TTL_MS :: int where "MAX_SUBMISSION_TTL_MS = 2678400000"

lemmas [relay_limits] = STATE_TTL_MS_def MAX_ENVELOPE_TTL_MS_def MAX_SUBMISSION_TTL_MS_def

section \<open>Identifiers and tokens\<close>

fun validRoom :: "js \<Rightarrow> bool" where
  "validRoom (JStr room) = class_repeat hex_char 16 64 room"
| "validRoom _ = False"

definition acceptsWebSocketPath :: "string \<Rightarrow> bool" where
  "acceptsWebSocketPath pathname \<longleftrightarrow> pathname = ''/'' \<or> pathname = ''/ws''"

fun validRoomCredential :: "js \<Rightarrow> bool" where
  "validRoomCredential (JStr value) = is_hex64 value"
| "validRoomCredential _ = False"

fun validIdentifier :: "js \<Rightarrow> nat \<Rightarrow> bool" where
  "validIdentifier (JStr value) maxLen = (1 \<le> js_length value \<and> js_length value \<le> maxLen)"
| "validIdentifier _ maxLen = False"

definition validDeviceToken :: "string \<Rightarrow> bool" where
  "validDeviceToken token \<longleftrightarrow> class_repeat hex_char 32 256 token \<and> length token mod 2 = 0"

fun validBase64 :: "js \<Rightarrow> nat \<Rightarrow> nat \<Rightarrow> bool" where
  "validBase64 (JStr value) minLength maxLength =
     (if js_length value < minLength \<or> js_length value > maxLength
         \<or> js_length value mod 4 \<noteq> 0 \<or> \<not> b64_shape value then False
      else map_option btoa (atob value) = Some value)"
| "validBase64 _ minLength maxLength = False"

fun validRecipientKeyId :: "js \<Rightarrow> bool" where
  "validRecipientKeyId (JStr value) = is_hex64 value"
| "validRecipientKeyId _ = False"

section \<open>Retained-state fields of an envelope\<close>

text \<open>\<open>a && b\<close> where either side may throw (\<open>None\<close>).\<close>

definition js_and :: "bool option \<Rightarrow> bool option \<Rightarrow> bool option" where
  "js_and a b = (case a of None \<Rightarrow> None | Some False \<Rightarrow> Some False | Some True \<Rightarrow> b)"

text \<open>\<open>v ?? ''\<close>.\<close>

definition or_empty :: "js \<Rightarrow> js" where
  "or_empty v = (if nullish v then JStr [] else v)"

definition retained_numbers_ok :: "js \<Rightarrow> time \<Rightarrow> bool" where
  "retained_numbers_ok envelope now \<longleftrightarrow>
     isSafeInteger (field ''stateRevision'' envelope)
     \<and> num_of (field ''stateRevision'' envelope) \<ge> 0
     \<and> num_of (field ''stateRevision'' envelope) \<le> now + 300000
     \<and> field ''statePriority'' envelope \<in> {JInt 0, JInt 1, JInt 2, JInt 3}
     \<and> isSafeInteger (field ''expiresAt'' envelope)
     \<and> num_of (field ''expiresAt'' envelope) \<le> now + STATE_TTL_MS"

definition no_retained_fields :: "js \<Rightarrow> bool" where
  "no_retained_fields envelope \<longleftrightarrow>
     nullish (field ''stateKey'' envelope) \<and> nullish (field ''stateRevision'' envelope)
     \<and> nullish (field ''statePriority'' envelope) \<and> nullish (field ''stateGroup'' envelope)"

definition validRetainedState :: "js \<Rightarrow> time \<Rightarrow> bool option" where
  "validRetainedState envelope now =
     (if no_retained_fields envelope then Some True
      else js_and (Some (field ''from'' envelope = JStr ''machine''
                         \<and> field ''to'' envelope = JStr ''phone''))
        (js_and (hex64_test (or_empty (field ''recipientKeyId'' envelope)))
        (js_and (hex64_test (or_empty (field ''stateKey'' envelope)))
        (js_and (if nullish (field ''stateGroup'' envelope) then Some True
                 else hex64_test (field ''stateGroup'' envelope))
          (Some (retained_numbers_ok envelope now))))))"

section \<open>Envelopes\<close>

definition ENVELOPE_FIELDS :: "string list" where
  "ENVELOPE_FIELDS = [''v'', ''room'', ''from'', ''to'', ''senderId'', ''deliveryId'', ''wake'',
     ''expiresAt'', ''nonce'', ''box'', ''recipientKeyId'', ''stateKey'', ''stateRevision'',
     ''statePriority'', ''stateGroup'']"

text \<open>The result of \<open>envelopeProblem\<close>: \<open>null\<close>, \<open>"expired"\<close>, \<open>"invalid"\<close>, or the exception
  of a conversion to a string.\<close>

datatype verdict = Deliverable | Expired | Invalid | Throws

text \<open>\<open>prefix\<close> followed by at least one more unit.\<close>

definition has_suffix_after :: "string \<Rightarrow> string \<Rightarrow> bool" where
  "has_suffix_after prefix s \<longleftrightarrow> starts_with prefix s \<and> js_length s > js_length prefix"

definition extended_submission :: "js \<Rightarrow> bool" where
  "extended_submission envelope \<longleftrightarrow>
     field ''from'' envelope = JStr ''phone'' \<and> field ''to'' envelope = JStr ''machine''
     \<and> is_string (field ''deliveryId'' envelope)
     \<and> (\<exists>p \<in> set [''user-message-'', ''attachment-''].
          has_suffix_after p (str_of (field ''deliveryId'' envelope)))"

definition ttl_limit :: "js \<Rightarrow> int option \<Rightarrow> int" where
  "ttl_limit envelope maximumTtlMs = (case maximumTtlMs of Some m \<Rightarrow> m
     | None \<Rightarrow> if truthy (field ''stateKey'' envelope) then STATE_TTL_MS
       else if extended_submission envelope then MAX_SUBMISSION_TTL_MS
       else MAX_ENVELOPE_TTL_MS)"

definition valid_nonce_box :: "js \<Rightarrow> bool" where
  "valid_nonce_box envelope \<longleftrightarrow>
     is_string (field ''nonce'' envelope)
     \<and> class_repeat b64_char 32 32 (str_of (field ''nonce'' envelope))
     \<and> is_string (field ''box'' envelope)
     \<and> \<not> js_length (str_of (field ''box'' envelope)) < 24
     \<and> b64_shape (str_of (field ''box'' envelope))"

text \<open>The checks of \<open>envelopeProblem\<close> before any conversion to a string.\<close>

definition envelope_header_ok :: "js \<Rightarrow> string \<Rightarrow> bool" where
  "envelope_header_ok envelope room \<longleftrightarrow>
     is_object envelope \<and> field ''v'' envelope = JInt 1 \<and> field ''room'' envelope = JStr room
     \<and> list_all (\<lambda>k. k \<in> set ENVELOPE_FIELDS) (object_keys envelope)
     \<and> field ''from'' envelope \<in> {JStr ''machine'', JStr ''phone''}
     \<and> field ''to'' envelope \<in> {JStr ''machine'', JStr ''phone'', JStr ''all''}
     \<and> validIdentifier (field ''senderId'' envelope) 180
     \<and> (nullish (field ''deliveryId'' envelope)
         \<or> validIdentifier (field ''deliveryId'' envelope) 180)"

text \<open>One test of a validation: an exception or a refusal ends it, else it goes on.\<close>

definition checked :: "bool option \<Rightarrow> verdict \<Rightarrow> verdict" where
  "checked test v = (case test of None \<Rightarrow> Throws | Some ok \<Rightarrow> if ok then v else Invalid)"

definition envelopeProblem :: "js \<Rightarrow> string \<Rightarrow> time \<Rightarrow> int option \<Rightarrow> verdict" where
  "envelopeProblem envelope room now maximumTtlMs =
     checked (Some (envelope_header_ok envelope room))
     (checked (if nullish (field ''recipientKeyId'' envelope) then Some True
               else hex64_test (field ''recipientKeyId'' envelope))
     (checked (Some (nullish (field ''wake'' envelope) \<or> is_bool (field ''wake'' envelope)))
     (checked (validRetainedState envelope now)
     (checked (Some (\<not> (\<not> nullish (field ''expiresAt'' envelope)
          \<and> (\<not> isSafeInteger (field ''expiresAt'' envelope)
             \<or> num_of (field ''expiresAt'' envelope) > now + ttl_limit envelope maximumTtlMs))))
     (checked (Some (valid_nonce_box envelope))
       (if \<not> nullish (field ''expiresAt'' envelope)
           \<and> num_of (field ''expiresAt'' envelope) \<le> now then Expired else Deliverable))))))"

definition validEnvelope :: "js \<Rightarrow> string \<Rightarrow> time \<Rightarrow> int option \<Rightarrow> bool option" where
  "validEnvelope envelope room now maximumTtlMs =
     (case envelopeProblem envelope room now maximumTtlMs of
        Throws \<Rightarrow> None | v \<Rightarrow> Some (v = Deliverable))"

section \<open>Recipient routing\<close>

text \<open>\<open>matchesRecipient\<close>: the socket's key digest (\<open>undefined\<close> or a validated string) against
  the envelope's.\<close>

definition matchesRecipient :: "js \<Rightarrow> string option \<Rightarrow> bool" where
  "matchesRecipient envelope recipientKeyId \<longleftrightarrow>
     recipientKeyId = None \<or> \<not> truthy (field ''recipientKeyId'' envelope)
     \<or> field ''recipientKeyId'' envelope = JStr (the recipientKeyId)"

definition matchesQueuedRecipient ::
  "(string \<Rightarrow> js option) \<Rightarrow> string \<Rightarrow> string option \<Rightarrow> bool" where
  "matchesQueuedRecipient parse raw recipientKeyId =
     (if recipientKeyId = None then True
      else case parse raw of None \<Rightarrow> False | Some v \<Rightarrow> matchesRecipient v recipientKeyId)"

section \<open>Lemmas\<close>

lemma js_and_True [simp]: "js_and a b = Some True \<longleftrightarrow> a = Some True \<and> b = Some True"
  by (auto simp: js_and_def split: option.splits bool.splits)

lemma js_and_None: "js_and a b = None \<longleftrightarrow> a = None \<or> a = Some True \<and> b = None"
  by (auto simp: js_and_def split: option.splits bool.splits)

lemma hex64_test_None [simp]: "hex64_test v = None \<longleftrightarrow> to_string_throws v"
  by (simp add: hex64_test_def)

lemma hex64_test_True [simp]: "hex64_test v = Some b \<longleftrightarrow> \<not> to_string_throws v \<and> hex64_coerced v = b"
  by (auto simp: hex64_test_def)

lemma or_empty_throws [simp]: "to_string_throws (or_empty v) \<longleftrightarrow> to_string_throws v"
  by (cases v) (auto simp: or_empty_def)

lemma or_empty_hex64 [simp]: "hex64_coerced (or_empty v) \<longleftrightarrow> hex64_coerced v"
  by (cases v) (auto simp: or_empty_def is_hex64_def class_repeat_def)

lemma hex64_coerced_truthy: "hex64_coerced v \<Longrightarrow> truthy v"
  by (induction v rule: hex64_coerced.induct) (auto simp: is_hex64_def class_repeat_def)

lemma truthy_not_nullish: "truthy v \<Longrightarrow> \<not> nullish v"
  by (cases v) auto

lemma validRetainedState_mono:
  "validRetainedState e now = Some True \<Longrightarrow> now \<le> now' \<Longrightarrow> validRetainedState e now' = Some True"
  by (auto simp: validRetainedState_def retained_numbers_ok_def split: if_splits)

text \<open>What a verdict of \<open>envelopeProblem\<close> other than invalid rests on.\<close>

lemma checked_live: "checked t v \<in> {Deliverable, Expired} \<longleftrightarrow> t = Some True \<and> v \<in> {Deliverable, Expired}"
  by (auto simp: checked_def split: option.splits)

lemma checked_Deliverable: "checked t v = Deliverable \<longleftrightarrow> t = Some True \<and> v = Deliverable"
  by (auto simp: checked_def split: option.splits)

lemma checked_Throws: "checked t v = Throws \<longleftrightarrow> t = None \<or> t = Some True \<and> v = Throws"
  by (auto simp: checked_def split: option.splits)

definition recipient_ok :: "js \<Rightarrow> bool" where
  "recipient_ok e \<longleftrightarrow> (if nullish (field ''recipientKeyId'' e) then Some True
     else hex64_test (field ''recipientKeyId'' e)) = Some True"

lemma envelopeProblem_live:
  "envelopeProblem e room now ttl \<in> {Deliverable, Expired} \<longleftrightarrow>
     envelope_header_ok e room \<and> recipient_ok e
     \<and> (nullish (field ''wake'' e) \<or> is_bool (field ''wake'' e))
     \<and> validRetainedState e now = Some True
     \<and> (nullish (field ''expiresAt'' e) \<or> isSafeInteger (field ''expiresAt'' e)
          \<and> num_of (field ''expiresAt'' e) \<le> now + ttl_limit e ttl)
     \<and> valid_nonce_box e"
  unfolding envelopeProblem_def checked_live recipient_ok_def by auto

lemma envelopeProblem_Deliverable:
  "envelopeProblem e room now ttl = Deliverable \<longleftrightarrow>
     envelopeProblem e room now ttl \<in> {Deliverable, Expired}
     \<and> (nullish (field ''expiresAt'' e) \<or> now < num_of (field ''expiresAt'' e))"
  unfolding envelopeProblem_def checked_live checked_Deliverable by auto

lemma deliverable_live:
  "envelopeProblem e room now ttl = Deliverable \<Longrightarrow> envelopeProblem e room now ttl \<in> {Deliverable, Expired}"
  by simp

lemmas deliverable_facts = deliverable_live [THEN envelopeProblem_live [THEN iffD1]]

lemma deliverable_header:
  "envelopeProblem e room now ttl = Deliverable \<Longrightarrow> envelope_header_ok e room"
  by (drule deliverable_facts) (elim conjE)

lemma deliverable_retained:
  "envelopeProblem e room now ttl = Deliverable \<Longrightarrow> validRetainedState e now = Some True"
  by (drule deliverable_facts) (elim conjE)

lemma deliverable_expiry:
  assumes "envelopeProblem e room now ttl = Deliverable" and "\<not> nullish (field ''expiresAt'' e)"
  shows "isSafeInteger (field ''expiresAt'' e)" "now < num_of (field ''expiresAt'' e)"
    "num_of (field ''expiresAt'' e) \<le> now + ttl_limit e ttl"
  using deliverable_facts [OF assms(1)] envelopeProblem_Deliverable [THEN iffD1, OF assms(1)] assms(2)
  by blast+

lemma ttl_limit_bound: "ttl_limit e None \<le> MAX_SUBMISSION_TTL_MS"
  by (simp add: ttl_limit_def relay_limits)

text \<open>The fields whose conversion to a string validation relies on.\<close>

definition conversion_fields :: "string list" where
  "conversion_fields = [''recipientKeyId'', ''stateKey'', ''stateGroup'']"

lemma js_and_returns: "a \<noteq> None \<Longrightarrow> b \<noteq> None \<Longrightarrow> js_and a b \<noteq> None"
  by (auto simp: js_and_None)

lemma checked_returns: "t \<noteq> None \<Longrightarrow> v \<noteq> Throws \<Longrightarrow> checked t v \<noteq> Throws"
  by (auto simp: checked_Throws)

lemma hex64_test_returns: "\<not> to_string_throws v \<Longrightarrow> hex64_test v \<noteq> None"
  by simp

lemma if_returns: "(c \<Longrightarrow> x \<noteq> y) \<Longrightarrow> (\<not> c \<Longrightarrow> z \<noteq> y) \<Longrightarrow> (if c then x else z) \<noteq> y"
  by simp

lemma validRetainedState_returns:
  assumes "\<not> to_string_throws (field ''recipientKeyId'' e)" "\<not> to_string_throws (field ''stateKey'' e)"
    "\<not> to_string_throws (field ''stateGroup'' e)"
  shows "validRetainedState e now \<noteq> None"
  unfolding validRetainedState_def
  by (intro if_returns js_and_returns hex64_test_returns option.simps(3))
    (simp_all only: or_empty_throws assms not_False_eq_True)

lemma envelopeProblem_returns:
  assumes "\<not> to_string_throws (field ''recipientKeyId'' e)" "\<not> to_string_throws (field ''stateKey'' e)"
    "\<not> to_string_throws (field ''stateGroup'' e)"
  shows "envelopeProblem e room now ttl \<noteq> Throws"
  unfolding envelopeProblem_def
  by (intro checked_returns if_returns hex64_test_returns option.simps(3) assms
      validRetainedState_returns verdict.distinct)

lemma envelopeProblem_throws:
  "envelopeProblem e room now ttl = Throws \<Longrightarrow>
     \<exists>k \<in> set conversion_fields. to_string_throws (field k e)"
  using envelopeProblem_returns [of e room now ttl] unfolding conversion_fields_def list.set by blast

lemma b64_char_ascii: "b64_char c \<Longrightarrow> (of_char c :: nat) < 128"
  by (auto simp: b64_defs)

lemma b64_shape_ascii: "b64_shape s \<Longrightarrow> ascii_string s"
proof -
  assume *: "b64_shape s"
  have "list_all (\<lambda>c. (of_char c :: nat) < 128) (takeWhile b64_char s)"
    by (auto simp: list_all_iff b64_char_ascii dest: set_takeWhileD)
  moreover have "list_all (\<lambda>c. (of_char c :: nat) < 128) (dropWhile b64_char s)"
    using * unfolding b64_shape_def pad_def
    by (elim conjE insertE) (simp_all del: dropWhile_eq_Nil_conv)
  ultimately have "list_all (\<lambda>c. (of_char c :: nat) < 128)
      (takeWhile b64_char s @ dropWhile b64_char s)"
    by (simp only: list_all_append)
  then show ?thesis by (simp add: ascii_string_def)
qed

lemma validBase64_canonical_iff:
  "validBase64 (JStr s) lo hi \<longleftrightarrow>
     lo \<le> length s \<and> length s \<le> hi \<and> (\<exists>bs. byte_list bs \<and> bs \<noteq> [] \<and> s = btoa bs)"
  (is "?L \<longleftrightarrow> ?R")
proof
  assume ?L
  then have shape: "b64_shape s" and eq: "map_option btoa (atob s) = Some s"
    and len: "lo \<le> js_length s" "js_length s \<le> hi"
    by (auto split: if_splits)
  from shape have "js_length s = length s" by (simp add: js_length_ascii b64_shape_ascii)
  moreover from eq obtain bs where bs: "atob s = Some bs" "btoa bs = s" by auto
  moreover from shape have "s \<noteq> []" by (auto simp: b64_shape_def)
  ultimately show ?R using len atob_bytes [OF bs(1)] by fastforce
next
  assume ?R
  then obtain bs where bs: "byte_list bs" "bs \<noteq> []" "s = btoa bs"
    and len: "lo \<le> length s" "length s \<le> hi" by blast
  from bs have shape: "b64_shape s" by (simp add: btoa_shape)
  then have "js_length s = length s" by (simp add: js_length_ascii b64_shape_ascii)
  with bs len shape show ?L by (simp add: atob_btoa btoa_length)
qed

section \<open>Example frames\<close>

text \<open>A well-formed envelope with further fields, used to evaluate the properties.\<close>

definition sample_envelope :: "string \<Rightarrow> string \<Rightarrow> string \<Rightarrow> (string \<times> js) list \<Rightarrow> js" where
  "sample_envelope room sender receiver extra = JObj ([(''v'', JInt 1), (''room'', JStr room),
     (''from'', JStr sender), (''to'', JStr receiver), (''senderId'', JStr ''device-1''),
     (''nonce'', JStr (replicate 32 CHR ''A'')), (''box'', JStr (replicate 24 CHR ''A''))] @ extra)"

lemma b64_char_A [simp]: "b64_char CHR ''A''" "b64_shape (replicate 24 CHR ''A'')"
  by (simp_all add: b64_shape_all b64_defs)

lemma utf16_units_ascii: "(of_char c :: nat) < 128 \<Longrightarrow> utf16_units c = 1"
  by (simp add: utf16_units_def)

lemmas sample_eval = sample_envelope_def envelopeProblem_def envelope_header_ok_def checked_def
  ENVELOPE_FIELDS_def valid_nonce_box_def ttl_limit_def validRetainedState_def no_retained_fields_def
  utf16_units_ascii

section \<open>Properties\<close>

text \<open>an envelope that is deliverable stays well-formed: at any later time the relay finds
  it deliverable, or expired when its expiry has passed, and never invalid. A stored envelope
  therefore leaves a queue by expiry or acknowledgement only, not by a change of verdict.\<close>

theorem deliverable_only_expires:
  assumes "envelopeProblem e room now ttl = Deliverable" and "now \<le> later"
  shows "envelopeProblem e room later ttl =
    (if \<not> nullish (field ''expiresAt'' e) \<and> num_of (field ''expiresAt'' e) \<le> later
     then Expired else Deliverable)"
proof -
  from deliverable_facts [OF assms(1)] assms(2) validRetainedState_mono [of e now later]
  have "envelope_header_ok e room" "validRetainedState e later = Some True"
    "recipient_ok e" "valid_nonce_box e"
    "nullish (field ''wake'' e) \<or> is_bool (field ''wake'' e)"
    "\<not> (\<not> nullish (field ''expiresAt'' e) \<and> (\<not> isSafeInteger (field ''expiresAt'' e)
       \<or> num_of (field ''expiresAt'' e) > later + ttl_limit e ttl))"
    by auto
  then show ?thesis
    unfolding envelopeProblem_def recipient_ok_def by (simp only: checked_def option.case if_True not_False_eq_True)
qed

theorem deliverable_only_expires_witness:
  "envelopeProblem (sample_envelope ''00112233445566aa'' ''phone'' ''machine''
     [(''expiresAt'', JInt 5000)]) ''00112233445566aa'' 9000 None = Expired"
proof -
  let ?e = "sample_envelope ''00112233445566aa'' ''phone'' ''machine'' [(''expiresAt'', JInt 5000)]"
  have "envelopeProblem ?e ''00112233445566aa'' 1000 None = Deliverable"
    by (simp add: sample_eval extended_submission_def relay_limits max_safe_integer_def)
  from deliverable_only_expires [OF this, of 9000] show ?thesis
    by (simp add: sample_envelope_def)
qed

text \<open>The expiry of an accepted envelope lies in the future and within the bound of its
  kind: 31 days for a phone's user message or attachment to a machine, at most 7 days for
  everything else.\<close>

theorem deliverable_lifetime:
  assumes "envelopeProblem e room now None = Deliverable" and "\<not> nullish (field ''expiresAt'' e)"
  shows "now < num_of (field ''expiresAt'' e)
    \<and> num_of (field ''expiresAt'' e) \<le> now + MAX_SUBMISSION_TTL_MS
    \<and> (\<not> extended_submission e \<longrightarrow> num_of (field ''expiresAt'' e) \<le> now + STATE_TTL_MS)"
proof -
  note exp = deliverable_expiry [OF assms]
  have "ttl_limit e None \<le> MAX_SUBMISSION_TTL_MS"
    "\<not> extended_submission e \<longrightarrow> ttl_limit e None \<le> STATE_TTL_MS"
    by (simp_all add: ttl_limit_def relay_limits)
  with exp(2,3) show ?thesis by linarith
qed

theorem deliverable_lifetime_witness:
  "(1000 :: int) < 5000 \<and> (5000 :: int) \<le> 1000 + MAX_SUBMISSION_TTL_MS"
proof -
  let ?e = "sample_envelope ''00112233445566aa'' ''phone'' ''machine'' [(''expiresAt'', JInt 5000)]"
  have d: "envelopeProblem ?e ''00112233445566aa'' 1000 None = Deliverable"
    by (simp add: sample_eval extended_submission_def relay_limits max_safe_integer_def)
  have "\<not> nullish (field ''expiresAt'' ?e)" by (simp add: sample_envelope_def)
  from deliverable_lifetime [OF d this] show ?thesis by (simp add: sample_envelope_def)
qed

text \<open>An accepted envelope that carries any retained-state field goes from the machine to the
  phone, names its recipient and its slot by 64-digit digests, and expires within seven days.\<close>

theorem retained_envelope_addressing:
  assumes "envelopeProblem e room now ttl = Deliverable" and "\<not> no_retained_fields e"
  shows "field ''from'' e = JStr ''machine'' \<and> field ''to'' e = JStr ''phone''
    \<and> hex64_coerced (field ''recipientKeyId'' e) \<and> hex64_coerced (field ''stateKey'' e)
    \<and> now < num_of (field ''expiresAt'' e)
    \<and> num_of (field ''expiresAt'' e) \<le> now + STATE_TTL_MS"
proof -
  have r: "field ''from'' e = JStr ''machine''" "field ''to'' e = JStr ''phone''"
    "hex64_coerced (field ''recipientKeyId'' e)" "hex64_coerced (field ''stateKey'' e)"
    "retained_numbers_ok e now"
    using deliverable_retained [OF assms(1)] assms(2) by (simp_all add: validRetainedState_def)
  then have i: "isSafeInteger (field ''expiresAt'' e)"
    "num_of (field ''expiresAt'' e) \<le> now + STATE_TTL_MS"
    by (simp_all add: retained_numbers_ok_def)
  then have "\<not> nullish (field ''expiresAt'' e)" by (cases "field ''expiresAt'' e") simp_all
  with deliverable_expiry(2) [OF assms(1)] r i show ?thesis by blast
qed

definition sample_state_envelope :: js where
  "sample_state_envelope = sample_envelope ''00112233445566aa'' ''machine'' ''phone''
     [(''expiresAt'', JInt 5000), (''recipientKeyId'', JStr (replicate 64 CHR ''a'')),
      (''stateKey'', JStr (replicate 64 CHR ''b'')), (''stateRevision'', JInt 7),
      (''statePriority'', JInt 1)]"

lemma hex_char_ab [simp]: "hex_char CHR ''a''" "hex_char CHR ''b''"
  by (simp_all add: hex_char_def char_between_def)

lemma sample_state_deliverable:
  "envelopeProblem sample_state_envelope ''00112233445566aa'' 1000 None = Deliverable"
  by (simp add: sample_state_envelope_def sample_eval is_hex64_def retained_numbers_ok_def
      or_empty_def js_and_def extended_submission_def relay_limits max_safe_integer_def)

theorem retained_envelope_addressing_witness:
  "field ''from'' sample_state_envelope = JStr ''machine''
    \<and> num_of (field ''expiresAt'' sample_state_envelope) \<le> 1000 + STATE_TTL_MS"
proof -
  have "\<not> no_retained_fields sample_state_envelope"
    by (simp add: no_retained_fields_def sample_state_envelope_def sample_envelope_def)
  from retained_envelope_addressing [OF sample_state_deliverable this] show ?thesis by blast
qed

text \<open>Validation raises an exception, instead of answering, on every envelope whose header
  is well-formed and whose \<open>recipientKeyId\<close> is an object with a field \<open>toString\<close>: the regular
  expression test converts the object to a string. Any client of the room can send such a
  frame.\<close>

theorem envelope_toString_throws:
  assumes "envelope_header_ok e room" and "field ''recipientKeyId'' e = JObj kvs"
    and "''toString'' \<in> set (map fst kvs)"
  shows "envelopeProblem e room now ttl = Throws"
  using assms by (simp add: envelopeProblem_def checked_def hex64_test_def)

theorem envelope_toString_throws_witness:
  "envelopeProblem (sample_envelope ''00112233445566aa'' ''phone'' ''machine''
     [(''recipientKeyId'', JObj [(''toString'', JInt 1)])]) ''00112233445566aa'' 1000 None = Throws"
proof -
  let ?e = "sample_envelope ''00112233445566aa'' ''phone'' ''machine''
     [(''recipientKeyId'', JObj [(''toString'', JInt 1)])]"
  have h: "envelope_header_ok ?e ''00112233445566aa''"
    by (simp add: sample_eval)
  have f: "field ''recipientKeyId'' ?e = JObj [(''toString'', JInt 1)]"
    by (simp add: sample_envelope_def)
  show ?thesis by (rule envelope_toString_throws [OF h f]) simp
qed



text \<open>C19: \<open>validBase64\<close> accepts exactly the strings that are the encoding of a non-empty byte
  sequence and whose length lies within the bounds: no other spelling of the same bytes passes.\<close>

theorem validBase64_canonical:
  "validBase64 v lo hi \<longleftrightarrow>
     (\<exists>bs. byte_list bs \<and> bs \<noteq> [] \<and> v = JStr (btoa bs)
        \<and> lo \<le> length (btoa bs) \<and> length (btoa bs) \<le> hi)"
  by (cases v) (auto simp: validBase64_canonical_iff simp del: validBase64.simps(1))

text \<open>The constant-time comparison accepts exactly two strings with the same code units, which
  is what equality of JavaScript strings means, and refuses every other pair of values.\<close>

theorem constantTimeEqual_iff:
  "constantTimeEqual l r \<longleftrightarrow> (\<exists>s t. l = JStr s \<and> r = JStr t \<and> utf16_codes s = utf16_codes t)"
  by (cases "(l, r)" rule: constantTimeEqual.cases) (auto simp: code_units_eq)

end
