(* ===== verification/Submission_Receipts.thy ===== *)
theory Submission_Receipts
  imports Relay_Validation
begin

text \<open>
  \<open>src/relay/submissionReceipts.js\<close>: which deliveries are durable submissions, how much
  storage they may take, and how a full mailbox makes room. Shows that \<open>retainSubmission\<close>
  is the least eviction: it drops the oldest ordinary rows, as few as possible, never a durable
  row, and refuses exactly when the durable rows leave no room.
\<close>

section \<open>Rows of a delivery queue\<close>

datatype role = Machine | Phone

text \<open>\<open>QUEUE_RESULT\<close> of \<open>src/relay/connectionPolicy.js\<close>.\<close>

datatype queue_result = STORED | DUPLICATE | OVERSIZE | EXPIRED | NO_ROOM | FULL

text \<open>A queued row; older rows may lack the byte count, and the oldest are bare strings.\<close>

record qrow =
  q_raw :: string
  q_rawBytes :: "nat option"
  q_deliveryId :: "string option"
  q_queuedAt :: "time option"
  q_expiresAt :: "time option"

datatype queue_item = LegacyItem string | QItem qrow

fun item_deliveryId :: "queue_item \<Rightarrow> string option" where
  "item_deliveryId (LegacyItem _) = None"
| "item_deliveryId (QItem r) = q_deliveryId r"

fun item_expiresAt :: "queue_item \<Rightarrow> time option" where
  "item_expiresAt (LegacyItem _) = None"
| "item_expiresAt (QItem r) = q_expiresAt r"

fun item_raw :: "queue_item \<Rightarrow> string" where
  "item_raw (LegacyItem s) = s"
| "item_raw (QItem r) = q_raw r"

section \<open>Durable submissions\<close>

definition isDurableSubmission :: "string option \<Rightarrow> bool" where
  "isDurableSubmission deliveryId = (case deliveryId of None \<Rightarrow> False
     | Some d \<Rightarrow> list_ex (\<lambda>prefix. has_suffix_after prefix d)
         [''user-message-'', ''approval-decision-'', ''attachment-''])"

record retention_limits =
  frameBytes :: nat
  queueBytes :: nat

definition submissionRetentionLimits :: "role \<Rightarrow> string option \<Rightarrow> retention_limits" where
  "submissionRetentionLimits role deliveryId =
     (if role = Machine \<and> isDurableSubmission deliveryId
      then \<lparr>frameBytes = 22010000, queueBytes = 32000000\<rparr>
      else \<lparr>frameBytes = 1800000, queueBytes = 1800000\<rparr>)"

fun rowBytes :: "queue_item \<Rightarrow> nat" where
  "rowBytes (LegacyItem s) = byteLength s"
| "rowBytes (QItem r) = (case q_rawBytes r of Some n \<Rightarrow> n | None \<Rightarrow> byteLength (q_raw r))"

definition durable_item :: "queue_item \<Rightarrow> bool" where
  "durable_item item = isDurableSubmission (item_deliveryId item)"

text \<open>
  The loop of \<open>retainSubmission\<close>: \<open>rows\<close> ends with the incoming row, so the test
  \<open>rows[removable] === incoming\<close> compares the index with the last one. \<open>None\<close> is the
  result \<open>full\<close>.
\<close>

function retain_loop :: "nat \<Rightarrow> nat \<Rightarrow> queue_item list \<Rightarrow> int \<Rightarrow> queue_item list option" where
  "retain_loop maxCount maxBytes rows bytes =
     (if length rows > maxCount \<or> bytes > int maxBytes then
        (case find_index (\<lambda>row. \<not> durable_item row) rows of
           None \<Rightarrow> None
         | Some removable \<Rightarrow>
             if removable = length rows - 1 then None
             else retain_loop maxCount maxBytes (remove_at removable rows)
                    (bytes - int (rowBytes (rows ! removable))))
      else Some rows)"
  by pat_completeness auto
termination
  by (relation "measure (\<lambda>(_, _, rows, _). length rows)")
    (auto dest!: find_index_less simp: length_remove_at)

declare retain_loop.simps [simp del]

definition total_bytes :: "queue_item list \<Rightarrow> nat" where
  "total_bytes rows = sum_list (map rowBytes rows)"

definition retainSubmission ::
  "queue_item list \<Rightarrow> queue_item \<Rightarrow> nat \<Rightarrow> nat \<Rightarrow> queue_result \<times> queue_item list" where
  "retainSubmission queue incoming maxCount maxBytes =
     (case retain_loop maxCount maxBytes (queue @ [incoming])
             (int (total_bytes (queue @ [incoming]))) of
        None \<Rightarrow> (FULL, queue)
      | Some rows \<Rightarrow> (STORED, rows))"

definition storedSubmissionNotice :: "string \<Rightarrow> js" where
  "storedSubmissionNotice deliveryId =
     JObj [(''type'', JStr ''relay.stored''), (''deliveryId'', JStr deliveryId)]"

section \<open>The eviction as a specification\<close>

definition fits :: "nat \<Rightarrow> nat \<Rightarrow> queue_item list \<Rightarrow> bool" where
  "fits maxCount maxBytes rows \<longleftrightarrow> length rows \<le> maxCount \<and> total_bytes rows \<le> maxBytes"

text \<open>\<open>drop_ordinary k rows\<close>: without its \<open>k\<close> oldest ordinary rows.\<close>

fun drop_ordinary :: "nat \<Rightarrow> queue_item list \<Rightarrow> queue_item list" where
  "drop_ordinary 0 rows = rows"
| "drop_ordinary (Suc k) [] = []"
| "drop_ordinary (Suc k) (row # rows) =
     (if durable_item row then row # drop_ordinary (Suc k) rows else drop_ordinary k rows)"

lemma total_bytes_simps [simp]:
  "total_bytes [] = 0" "total_bytes (r # rs) = rowBytes r + total_bytes rs"
  "total_bytes (rs @ ss) = total_bytes rs + total_bytes ss"
  by (simp_all add: total_bytes_def)

lemma drop_ordinary_set: "set (drop_ordinary k rows) \<subseteq> set rows"
  by (induction k rows rule: drop_ordinary.induct) auto

lemma drop_ordinary_durable [simp]:
  "filter durable_item (drop_ordinary k rows) = filter durable_item rows"
  by (induction k rows rule: drop_ordinary.induct) auto

lemma drop_ordinary_keeps: "row \<in> set rows \<Longrightarrow> durable_item row \<Longrightarrow> row \<in> set (drop_ordinary k rows)"
  by (induction k rows rule: drop_ordinary.induct) auto

lemma drop_ordinary_split:
  "list_all durable_item ys \<Longrightarrow> \<not> durable_item x \<Longrightarrow>
     drop_ordinary (Suc k) (ys @ x # zs) = drop_ordinary k (ys @ zs)"
proof (induction ys)
  case (Cons y ys)
  then show ?case by (cases k) simp_all
qed simp

lemma distinct_drop_ordinary: "distinct (map f rows) \<Longrightarrow> distinct (map f (drop_ordinary k rows))"
proof (induction k rows rule: drop_ordinary.induct)
  case (3 k row rows)
  then show ?case using drop_ordinary_set [of "Suc k" rows] by auto
qed simp_all

lemma drop_ordinary_filter:
  "set (map f (drop_ordinary k rows)) \<subseteq> set (map f rows)"
  using drop_ordinary_set by fastforce

lemma fits_filter: "fits C B (rows @ ys) \<Longrightarrow> fits C B (filter p rows @ ys)"
  using length_filter_le [of p rows] sum_list_filter_le [of rowBytes p rows]
  unfolding fits_def total_bytes_def length_append map_append sum_list_append by linarith

text \<open>One step of the loop on a queue that does not fit.\<close>

lemma retain_loop_fits:
  "fits C B rows \<Longrightarrow> retain_loop C B rows (int (total_bytes rows)) = Some rows"
  by (auto simp: fits_def retain_loop.simps [of C B rows])

lemma retain_loop_evict:
  assumes "\<not> fits C B (ys @ x # zs @ [i])" and "list_all durable_item ys" and "\<not> durable_item x"
  shows "retain_loop C B (ys @ x # zs @ [i]) (int (total_bytes (ys @ x # zs @ [i]))) =
    retain_loop C B (ys @ zs @ [i]) (int (total_bytes (ys @ zs @ [i])))"
proof -
  have idx: "find_index (\<lambda>row. \<not> durable_item row) (ys @ x # zs @ [i]) = Some (length ys)"
    using assms(2,3) by (induction ys) auto
  have bytes: "int (total_bytes (ys @ x # zs @ [i])) - int (rowBytes x) =
      int (total_bytes (ys @ zs @ [i]))" by simp
  have "length ys \<noteq> length (ys @ x # zs @ [i]) - 1" by simp
  moreover have "C < length (ys @ x # zs @ [i]) \<or> int B < int (total_bytes (ys @ x # zs @ [i]))"
    using assms(1) by (auto simp: fits_def)
  ultimately show ?thesis
    by (subst retain_loop.simps) (simp only: if_True idx option.case if_False nth_append_length
        remove_at_middle bytes refl)
qed

lemma retain_loop_full:
  assumes "\<not> fits C B (q @ [i])" and "list_all durable_item q"
  shows "retain_loop C B (q @ [i]) (int (total_bytes (q @ [i]))) = None"
proof -
  have "find_index (\<lambda>row. \<not> durable_item row) (q @ [i]) =
      (if durable_item i then None else Some (length q))"
    using assms(2) by (induction q) auto
  then show ?thesis
    using assms(1) by (subst retain_loop.simps) (auto simp: fits_def)
qed

text \<open>The least number of evictions that makes the incoming row fit.\<close>

definition least_eviction :: "nat \<Rightarrow> nat \<Rightarrow> queue_item list \<Rightarrow> queue_item \<Rightarrow> queue_item list \<Rightarrow> bool" where
  "least_eviction C B q i rows \<longleftrightarrow> (\<exists>k. rows = drop_ordinary k q @ [i] \<and> fits C B rows
     \<and> (\<forall>j < k. \<not> fits C B (drop_ordinary j q @ [i])))"

lemma least_eviction_none: "fits C B (q @ [i]) \<Longrightarrow> least_eviction C B q i (q @ [i])"
  unfolding least_eviction_def by (rule exI [of _ 0]) simp

lemma least_eviction_step:
  assumes "\<not> fits C B (ys @ x # zs @ [i])" "list_all durable_item ys" "\<not> durable_item x"
    and "least_eviction C B (ys @ zs) i rows"
  shows "least_eviction C B (ys @ x # zs) i rows"
proof -
  have drops: "drop_ordinary (Suc k) (ys @ x # zs) = drop_ordinary k (ys @ zs)" for k
    using assms(2,3) by (rule drop_ordinary_split)
  from assms(4) obtain k where k: "rows = drop_ordinary k (ys @ zs) @ [i]" "fits C B rows"
    "\<forall>j < k. \<not> fits C B (drop_ordinary j (ys @ zs) @ [i])"
    unfolding least_eviction_def by blast
  have "\<forall>j < Suc k. \<not> fits C B (drop_ordinary j (ys @ x # zs) @ [i])"
    using k(3) assms(1) drops by (auto simp: less_Suc_eq_0_disj)
  with k(1,2) drops [of k] show ?thesis
    unfolding least_eviction_def by (intro exI [of _ "Suc k"]) simp
qed

lemma retain_loop_spec:
  "case retain_loop C B (q @ [i]) (int (total_bytes (q @ [i]))) of
     None \<Rightarrow> \<not> fits C B (filter durable_item q @ [i])
   | Some rows \<Rightarrow> least_eviction C B q i rows"
proof (induction "length q" arbitrary: q rule: less_induct)
  case less
  show ?case
  proof (cases "fits C B (q @ [i])")
    case True
    then show ?thesis unfolding retain_loop_fits [OF True] by (simp add: least_eviction_none)
  next
    case False
    show ?thesis
    proof (cases "find_index (\<lambda>row. \<not> durable_item row) q")
      case None
      then have all: "list_all durable_item q" by (simp add: find_index_None_iff)
      then have "filter durable_item q = q" by (simp add: list_all_iff)
      with False show ?thesis unfolding retain_loop_full [OF False all] by simp
    next
      case (Some n)
      then obtain ys x zs where q: "q = ys @ x # zs" "list_all durable_item ys" "\<not> durable_item x"
        by (auto dest!: find_index_Some_split)
      then have step: "retain_loop C B (q @ [i]) (int (total_bytes (q @ [i]))) =
          retain_loop C B ((ys @ zs) @ [i]) (int (total_bytes ((ys @ zs) @ [i])))"
        using False retain_loop_evict [of C B ys x zs i] by simp
      have "filter durable_item q = filter durable_item (ys @ zs)" using q by simp
      moreover have "least_eviction C B (ys @ zs) i rows \<Longrightarrow> least_eviction C B q i rows" for rows
        using least_eviction_step [of C B ys x zs i rows] q False by simp
      ultimately show ?thesis
        unfolding step using less [of "ys @ zs"] q(1) by (auto split: option.splits)
    qed
  qed
qed

lemma retain_STORED:
  "retainSubmission q i C B = (STORED, rows) \<Longrightarrow> least_eviction C B q i rows"
  using retain_loop_spec [of C B q i]
  by (auto simp: retainSubmission_def split: option.splits)

lemma least_evictionE:
  assumes "least_eviction C B q i rows"
  obtains k where "rows = drop_ordinary k q @ [i]" "fits C B rows"
    "\<forall>j < k. \<not> fits C B (drop_ordinary j q @ [i])"
  using assms unfolding least_eviction_def by blast

lemma retain_FULL:
  "retainSubmission q i C B = (FULL, rows) \<Longrightarrow> rows = q \<and> \<not> fits C B (filter durable_item q @ [i])"
  using retain_loop_spec [of C B q i]
  by (auto simp: retainSubmission_def split: option.splits)

lemma retain_cases: "fst (retainSubmission q i C B) \<in> {STORED, FULL}"
  by (auto simp: retainSubmission_def split: option.splits)

lemma retain_fits_durable:
  "retainSubmission q i C B = (STORED, rows) \<Longrightarrow> fits C B (filter durable_item q @ [i])"
  by (drule retain_STORED) (metis least_evictionE drop_ordinary_durable fits_filter)

section \<open>Properties\<close>

text \<open>C20: a mailbox accepts a row exactly when the durable rows it holds leave room for it. It
  then drops the oldest ordinary rows, the least number that makes the row fit, keeps every
  durable row in order and stays within its count and byte bounds; otherwise it is unchanged.\<close>

theorem retainSubmission_correct:
  "case retainSubmission q i C B of (result, rows) \<Rightarrow>
     if fits C B (filter durable_item q @ [i])
     then result = STORED \<and> fits C B rows \<and> filter durable_item (butlast rows) = filter durable_item q
       \<and> least_eviction C B q i rows
     else result = FULL \<and> rows = q"
proof -
  obtain result rows where r: "retainSubmission q i C B = (result, rows)" by fastforce
  consider "result = STORED" | "result = FULL" using retain_cases [of q i C B] r by auto
  then show ?thesis
  proof cases
    case 1
    with r have "least_eviction C B q i rows" "fits C B (filter durable_item q @ [i])"
      by (simp_all add: retain_STORED retain_fits_durable)
    then show ?thesis using 1 r by (auto elim: least_evictionE)
  next
    case 2
    with r show ?thesis using retain_FULL by auto
  qed
qed

end
