(* ===== verification/Delivery_Queue.thy ===== *)
theory Delivery_Queue
  imports Submission_Receipts
begin

text \<open>
  The offline mailboxes of a room, one per recipient role, in both runtimes: the \<open>rooms\<close> table
  of the Node store (\<open>RelayStore\<close> in \<open>src/node/store.js\<close>) and the \<open>q:<role>\<close> keys of the
  Durable Object room (\<open>GrantTapRoom\<close> in \<open>src/relay/room.js\<close>). The locale \<open>reliable_mailbox\<close>
  states what a relay promises of such a mailbox; both runtimes are interpretations of it. The
  lemmas of the locale give: a durable submission stays stored until it is acknowledged or
  expires, a delivery id is stored at most once, and the bounds hold in every reachable state.

  A synchronous operation of the sources reads the clock several times; it is modelled with one
  reading \<open>now\<close>. Columns and storage values are kept as typed values, not as their JSON text.
\<close>

definition DEFAULT_QUEUE_TTL_MS :: int where "DEFAULT_QUEUE_TTL_MS = 900000"
definition HOLD_LIMIT :: nat where "HOLD_LIMIT = 100"
definition MAX_QUEUE_BYTES :: nat where "MAX_QUEUE_BYTES = 1800000"

lemmas [relay_limits] = DEFAULT_QUEUE_TTL_MS_def HOLD_LIMIT_def MAX_QUEUE_BYTES_def

section \<open>The Node store\<close>

record push_device =
  d_token :: string
  d_environment :: string
  d_bundleId :: string
  d_updatedAt :: time

record room_row =
  auth_sha256 :: "string option"
  push_tokens :: "push_device list"
  machine_queue :: "queue_item list"
  phone_queue :: "queue_item list"
  updated_at :: time

type_synonym rooms = "string \<rightharpoonup> room_row"

definition new_room :: "time \<Rightarrow> room_row" where
  "new_room now = \<lparr>auth_sha256 = None, push_tokens = [], machine_queue = [], phone_queue = [],
     updated_at = now\<rparr>"

definition ensureRoom :: "rooms \<Rightarrow> string \<Rightarrow> time \<Rightarrow> rooms" where
  "ensureRoom rooms room now = (case rooms room of
       None \<Rightarrow> rooms(room \<mapsto> new_room now)
     | Some r \<Rightarrow> rooms(room \<mapsto> r\<lparr>updated_at := now\<rparr>))"

definition authDigest :: "rooms \<Rightarrow> string \<Rightarrow> string option" where
  "authDigest rooms room = Option.bind (rooms room) auth_sha256"

definition pinAuth :: "rooms \<Rightarrow> string \<Rightarrow> string \<Rightarrow> time \<Rightarrow> string option \<times> rooms" where
  "pinAuth rooms room digest now =
     (let rooms1 = ensureRoom rooms room now;
          rooms2 = (case rooms1 room of None \<Rightarrow> rooms1
             | Some r \<Rightarrow> rooms1(room \<mapsto> r\<lparr>auth_sha256 :=
                 (case auth_sha256 r of None \<Rightarrow> Some digest | Some d \<Rightarrow> Some d),
                 updated_at := now\<rparr>))
      in (authDigest rooms2 room, rooms2))"

fun queue_column :: "role \<Rightarrow> room_row \<Rightarrow> queue_item list" where
  "queue_column Machine r = machine_queue r"
| "queue_column Phone r = phone_queue r"

fun set_queue_column :: "role \<Rightarrow> queue_item list \<Rightarrow> room_row \<Rightarrow> room_row" where
  "set_queue_column Machine q r = r\<lparr>machine_queue := q\<rparr>"
| "set_queue_column Phone q r = r\<lparr>phone_queue := q\<rparr>"

definition writeQueue :: "rooms \<Rightarrow> string \<Rightarrow> role \<Rightarrow> queue_item list \<Rightarrow> time \<Rightarrow> rooms" where
  "writeQueue rooms room role q now = (case rooms room of None \<Rightarrow> rooms
     | Some r \<Rightarrow> rooms(room \<mapsto> (set_queue_column role q r)\<lparr>updated_at := now\<rparr>))"

definition node_alive :: "time \<Rightarrow> queue_item \<Rightarrow> bool" where
  "node_alive now item = (case item_expiresAt item of None \<Rightarrow> False | Some t \<Rightarrow> t > now)"

definition node_queue :: "rooms \<Rightarrow> string \<Rightarrow> role \<Rightarrow> time \<Rightarrow> queue_item list \<times> rooms" where
  "node_queue rooms room role now = (case rooms room of
       None \<Rightarrow> ([], rooms)
     | Some row \<Rightarrow>
         (let stored = queue_column role row; live = filter (node_alive now) stored
          in (live, if length live \<noteq> length stored then writeQueue rooms room role live now
                    else rooms)))"

text \<open>\<open>expiresAt ?? now + DEFAULT_QUEUE_TTL_MS\<close>.\<close>

definition queue_expiry :: "time option \<Rightarrow> time \<Rightarrow> time" where
  "queue_expiry expiresAt now =
     (case expiresAt of Some t \<Rightarrow> t | None \<Rightarrow> now + DEFAULT_QUEUE_TTL_MS)"

definition incoming_row :: "string \<Rightarrow> string \<Rightarrow> time option \<Rightarrow> time option \<Rightarrow> time \<Rightarrow> queue_item" where
  "incoming_row raw deliveryId queuedAt expiresAt now = QItem \<lparr>q_raw = raw,
     q_rawBytes = Some (byteLength raw), q_deliveryId = Some deliveryId, q_queuedAt = queuedAt,
     q_expiresAt = Some (queue_expiry expiresAt now)\<rparr>"

definition enqueue ::
  "rooms \<Rightarrow> string \<Rightarrow> role \<Rightarrow> string \<Rightarrow> string \<Rightarrow> time option \<Rightarrow> time \<Rightarrow> queue_result \<times> rooms" where
  "enqueue rooms room role raw deliveryId expiresAt now =
     (let limits = submissionRetentionLimits role (Some deliveryId) in
      if byteLength raw > frameBytes limits then (OVERSIZE, rooms)
      else if (case expiresAt of Some t \<Rightarrow> t \<le> now | None \<Rightarrow> False) then (EXPIRED, rooms)
      else if rooms room = None then (NO_ROOM, rooms)
      else (case node_queue rooms room role now of (queue, rooms1) \<Rightarrow>
        if list_ex (\<lambda>item. item_deliveryId item = Some deliveryId) queue then (DUPLICATE, rooms1)
        else (case retainSubmission queue (incoming_row raw deliveryId (Some now) expiresAt now)
                     HOLD_LIMIT (queueBytes limits) of (result, rows) \<Rightarrow>
          if result = FULL then (FULL, rooms1)
          else (result, writeQueue rooms1 room role rows now))))"

definition node_acknowledge :: "rooms \<Rightarrow> string \<Rightarrow> role \<Rightarrow> string \<Rightarrow> time \<Rightarrow> rooms" where
  "node_acknowledge rooms room role deliveryId now =
     (case node_queue rooms room role now of (queue, rooms1) \<Rightarrow>
        let remaining = filter (\<lambda>item. item_deliveryId item \<noteq> Some deliveryId) queue
        in if length remaining \<noteq> length queue then writeQueue rooms1 room role remaining now
           else rooms1)"

section \<open>The Durable Object room\<close>

text \<open>The storage keys \<open>q:machine\<close> and \<open>q:phone\<close>; \<open>None\<close> is an absent key.\<close>

type_synonym queue_keys = "role \<Rightarrow> queue_item list option"

definition stored_or_empty :: "queue_item list option \<Rightarrow> queue_item list" where
  "stored_or_empty v = (case v of None \<Rightarrow> [] | Some q \<Rightarrow> q)"

definition worker_alive :: "time \<Rightarrow> queue_item \<Rightarrow> bool" where
  "worker_alive now item \<longleftrightarrow>
     (case item_expiresAt item of Some t \<Rightarrow> t | None \<Rightarrow> now + DEFAULT_QUEUE_TTL_MS) > now"

definition worker_queue ::
  "queue_keys \<Rightarrow> role \<Rightarrow> string \<Rightarrow> string \<Rightarrow> time option \<Rightarrow> time \<Rightarrow> queue_result \<times> queue_keys" where
  "worker_queue storage role raw deliveryId expiresAt now =
     (if byteLength raw > MAX_QUEUE_BYTES then (OVERSIZE, storage)
      else if (case expiresAt of Some t \<Rightarrow> t \<le> now | None \<Rightarrow> False) then (EXPIRED, storage)
      else let queue = filter (worker_alive now) (stored_or_empty (storage role)) in
        if deliveryId \<noteq> [] \<and> list_ex (\<lambda>item. item_deliveryId item = Some deliveryId) queue
        then (DUPLICATE, storage)
        else (case retainSubmission queue (incoming_row raw deliveryId None expiresAt now)
                     HOLD_LIMIT MAX_QUEUE_BYTES of (result, rows) \<Rightarrow>
          if result = FULL then (FULL, storage)
          else (result, storage(role := Some rows))))"

definition store_or_delete :: "queue_keys \<Rightarrow> role \<Rightarrow> queue_item list \<Rightarrow> queue_keys" where
  "store_or_delete storage role q = storage(role := (if q = [] then None else Some q))"

definition worker_acknowledge :: "queue_keys \<Rightarrow> role \<Rightarrow> string \<Rightarrow> queue_keys" where
  "worker_acknowledge storage role deliveryId =
     store_or_delete storage role
       (filter (\<lambda>item. item_deliveryId item \<noteq> Some deliveryId) (stored_or_empty (storage role)))"

text \<open>
  \<open>flushTo\<close>: the rows sent to a socket that registers its role. \<open>budget\<close> is the number of sends
  that succeed before one throws (the loop stops at the first failure), \<open>matches\<close> is
  \<open>matchesQueuedRecipient\<close> for the socket's key digest. When every pending row is reliable the
  storage is not written: rows leave it by acknowledgement only.
\<close>

fun flush_alive :: "time \<Rightarrow> queue_item \<Rightarrow> bool" where
  "flush_alive now (LegacyItem _) = (now + DEFAULT_QUEUE_TTL_MS > now)"
| "flush_alive now (QItem r) = (case q_expiresAt r of Some t \<Rightarrow> t > now | None \<Rightarrow> False)"

definition reliable_item :: "queue_item \<Rightarrow> bool" where
  "reliable_item item = (case item_deliveryId item of Some d \<Rightarrow> d \<noteq> [] | None \<Rightarrow> False)"

fun flush_reliable :: "(string \<Rightarrow> bool) \<Rightarrow> nat \<Rightarrow> queue_item list \<Rightarrow> string list" where
  "flush_reliable matches budget [] = []"
| "flush_reliable matches budget (item # items) =
     (if matches (item_raw item)
      then (case budget of 0 \<Rightarrow> [] | Suc b \<Rightarrow> item_raw item # flush_reliable matches b items)
      else flush_reliable matches budget items)"

fun flush_mixed ::
  "(string \<Rightarrow> bool) \<Rightarrow> nat \<Rightarrow> queue_item list \<Rightarrow> string list \<times> queue_item list" where
  "flush_mixed matches budget [] = ([], [])"
| "flush_mixed matches budget (item # items) =
     (if item_raw item = [] then flush_mixed matches budget items
      else if \<not> matches (item_raw item)
        then (case flush_mixed matches budget items of (sent, remaining) \<Rightarrow> (sent, item # remaining))
      else (case budget of
          0 \<Rightarrow> ([], item # items)
        | Suc b \<Rightarrow> (case flush_mixed matches b items of (sent, remaining) \<Rightarrow>
            (item_raw item # sent, if reliable_item item then item # remaining else remaining))))"

definition flushTo ::
  "queue_keys \<Rightarrow> role \<Rightarrow> (string \<Rightarrow> bool) \<Rightarrow> nat \<Rightarrow> time \<Rightarrow> string list \<times> queue_keys" where
  "flushTo storage role matches budget now =
     (let queue = stored_or_empty (storage role) in
      if queue = [] then ([], storage)
      else let pending = filter (flush_alive now) queue in
        if pending = [] then ([], storage(role := None))
        else if list_all reliable_item pending
          then (flush_reliable matches budget pending, storage)
        else (case flush_mixed matches budget pending of (sent, remaining) \<Rightarrow>
          (sent, store_or_delete storage role remaining)))"

section \<open>What a mailbox promises\<close>

text \<open>A row is alive when its expiry, if it has one, lies in the future.\<close>

definition unexpired :: "time \<Rightarrow> queue_item \<Rightarrow> bool" where
  "unexpired now item = (case item_expiresAt item of None \<Rightarrow> False | Some t \<Rightarrow> now < t)"

definition stores_delivery :: "queue_item list \<Rightarrow> string \<Rightarrow> string \<Rightarrow> time \<Rightarrow> bool" where
  "stores_delivery q deliveryId raw expiry \<longleftrightarrow>
     (\<exists>item \<in> set q. item_deliveryId item = Some deliveryId \<and> item_raw item = raw
        \<and> item_expiresAt item = Some expiry)"

text \<open>At most one row per delivery id.\<close>

definition once_each :: "queue_item list \<Rightarrow> bool" where
  "once_each q \<longleftrightarrow> distinct (filter (\<lambda>d. d \<noteq> None) (map item_deliveryId q))"

text \<open>
  The interface: \<open>rows\<close> reads the stored queue, \<open>put\<close> stores a frame (raw text, delivery id,
  expiry, time), \<open>ack\<close> acknowledges a delivery id.
\<close>

locale reliable_mailbox =
  fixes rows :: "'s \<Rightarrow> queue_item list"
    and put :: "string \<Rightarrow> string \<Rightarrow> time option \<Rightarrow> time \<Rightarrow> 's \<Rightarrow> queue_result \<times> 's"
    and ack :: "string \<Rightarrow> time \<Rightarrow> 's \<Rightarrow> 's"
    and maxBytes :: nat
  assumes put_stored: "put raw d x now s = (STORED, s') \<Longrightarrow> stores_delivery (rows s') d raw (queue_expiry x now)"
    and put_duplicate: "put raw d x now s = (DUPLICATE, s') \<Longrightarrow>
      \<exists>item \<in> set (rows s'). item_deliveryId item = Some d"
    and put_keeps: "item \<in> set (rows s) \<Longrightarrow> durable_item item \<Longrightarrow> unexpired now item \<Longrightarrow>
      item \<in> set (rows (snd (put raw d x now s)))"
    and put_new: "item \<in> set (rows (snd (put raw d x now s))) \<Longrightarrow>
      item \<in> set (rows s) \<or> item_deliveryId item = Some d"
    and put_once: "d \<noteq> [] \<Longrightarrow> once_each (rows s) \<Longrightarrow> once_each (rows (snd (put raw d x now s)))"
    and put_bounds: "fits HOLD_LIMIT maxBytes (rows s) \<Longrightarrow>
      fits HOLD_LIMIT maxBytes (rows (snd (put raw d x now s)))"
    and ack_keeps: "item \<in> set (rows s) \<Longrightarrow> unexpired now item \<Longrightarrow>
      item_deliveryId item \<noteq> Some d \<Longrightarrow> item \<in> set (rows (ack d now s))"
    and ack_removes: "item \<in> set (rows (ack d now s)) \<Longrightarrow>
      item \<in> set (rows s) \<and> item_deliveryId item \<noteq> Some d"
    and ack_once: "once_each (rows s) \<Longrightarrow> once_each (rows (ack d now s))"
    and ack_bounds: "fits HOLD_LIMIT maxBytes (rows s) \<Longrightarrow>
      fits HOLD_LIMIT maxBytes (rows (ack d now s))"

text \<open>Sequences of operations on one mailbox.\<close>

datatype mail_op = Put string string "time option" time | Ack string time

fun op_time :: "mail_op \<Rightarrow> time" where
  "op_time (Put _ _ _ now) = now"
| "op_time (Ack _ now) = now"

fun op_acks :: "mail_op \<Rightarrow> string option" where
  "op_acks (Put _ _ _ _) = None"
| "op_acks (Ack d _) = Some d"

fun op_puts :: "mail_op \<Rightarrow> string option" where
  "op_puts (Put _ d _ _) = Some d"
| "op_puts (Ack _ _) = None"

fun run_mail ::
  "(string \<Rightarrow> string \<Rightarrow> time option \<Rightarrow> time \<Rightarrow> 's \<Rightarrow> queue_result \<times> 's) \<Rightarrow> (string \<Rightarrow> time \<Rightarrow> 's \<Rightarrow> 's)
     \<Rightarrow> mail_op list \<Rightarrow> 's \<Rightarrow> 's" where
  "run_mail put ack [] s = s"
| "run_mail put ack (Put raw d x now # ops) s = run_mail put ack ops (snd (put raw d x now s))"
| "run_mail put ack (Ack d now # ops) s = run_mail put ack ops (ack d now s)"

context reliable_mailbox
begin

lemma durable_persists:
  "item \<in> set (rows s) \<Longrightarrow> durable_item item \<Longrightarrow> \<forall>x \<in> set ops. unexpired (op_time x) item \<Longrightarrow>
   item_deliveryId item \<notin> op_acks ` set ops \<Longrightarrow> item \<in> set (rows (run_mail put ack ops s))"
proof (induction ops arbitrary: s)
  case Nil
  then show ?case by simp
next
  case (Cons x ops)
  then show ?case
    by (cases x) (use put_keeps ack_keeps in \<open>auto simp: image_iff\<close>)
qed

lemma acknowledged_stays_gone:
  "Some d \<notin> item_deliveryId ` set (rows s) \<Longrightarrow> Some d \<notin> op_puts ` set ops \<Longrightarrow>
   Some d \<notin> item_deliveryId ` set (rows (run_mail put ack ops s))"
proof (induction ops arbitrary: s)
  case Nil
  then show ?case by simp
next
  case (Cons x ops)
  show ?case
  proof (cases x)
    case (Put raw e t now)
    then have "Some d \<notin> item_deliveryId ` set (rows (snd (put raw e t now s)))"
      using Cons.prems put_new [of _ raw e t now s] by force
    then show ?thesis using Put Cons.IH Cons.prems by simp
  next
    case (Ack e now)
    then have "Some d \<notin> item_deliveryId ` set (rows (ack e now s))"
      using Cons.prems ack_removes [of _ e now s] by force
    then show ?thesis using Ack Cons.IH Cons.prems by simp
  qed
qed

lemma ack_gone: "Some d \<notin> item_deliveryId ` set (rows (ack d now s))"
  using ack_removes [of _ d now s] by force

lemma run_once:
  "once_each (rows s) \<Longrightarrow> Some [] \<notin> op_puts ` set ops \<Longrightarrow> once_each (rows (run_mail put ack ops s))"
proof (induction ops arbitrary: s)
  case Nil
  then show ?case by simp
next
  case (Cons x ops)
  then show ?case by (cases x) (auto simp: put_once ack_once image_iff)
qed

lemma run_bounds:
  "fits HOLD_LIMIT maxBytes (rows s) \<Longrightarrow> fits HOLD_LIMIT maxBytes (rows (run_mail put ack ops s))"
proof (induction ops arbitrary: s)
  case Nil
  then show ?case by simp
next
  case (Cons x ops)
  then show ?case by (cases x) (auto simp: put_bounds ack_bounds)
qed

end

section \<open>Both runtimes keep the promise\<close>

text \<open>Facts on a successful \<open>retainSubmission\<close> that both runtimes use.\<close>

lemma incoming_row_simps [simp]:
  "item_deliveryId (incoming_row raw d qa x now) = Some d"
  "item_raw (incoming_row raw d qa x now) = raw"
  "rowBytes (incoming_row raw d qa x now) = byteLength raw"
  "item_expiresAt (incoming_row raw d qa x now) = Some (queue_expiry x now)"
  by (simp_all add: incoming_row_def)

lemma retained_set:
  assumes "retainSubmission q i C B = (STORED, rows)"
  shows "i \<in> set rows" "set rows \<subseteq> insert i (set q)"
    "item \<in> set q \<Longrightarrow> durable_item item \<Longrightarrow> item \<in> set rows" "fits C B rows"
proof -
  from retain_STORED [OF assms] obtain k where "rows = drop_ordinary k q @ [i]" "fits C B rows"
    by (rule least_evictionE)
  then show "i \<in> set rows" "set rows \<subseteq> insert i (set q)"
    "item \<in> set q \<Longrightarrow> durable_item item \<Longrightarrow> item \<in> set rows" "fits C B rows"
    using drop_ordinary_set [of k q] drop_ordinary_keeps [of item q k] by auto
qed

lemma retained_new:
  "retainSubmission q i C B = (STORED, rows) \<Longrightarrow> item \<in> set rows \<Longrightarrow> item \<in> set q \<or> item = i"
  using retained_set(2) by blast

lemma retained_keeps:
  "retainSubmission (filter p q) i C B = (STORED, rows) \<Longrightarrow> item \<in> set q \<Longrightarrow> p item \<Longrightarrow>
     durable_item item \<Longrightarrow> item \<in> set rows"
  using retained_set(3) [of "filter p q" i C B rows item] by simp

lemma retained_stores:
  "retainSubmission q (incoming_row raw d qa x now) C B = (STORED, rows) \<Longrightarrow>
     stores_delivery rows d raw (queue_expiry x now)"
  unfolding stores_delivery_def by (rule bexI [OF _ retained_set(1)]) simp_all

lemma once_each_filter: "once_each q \<Longrightarrow> once_each (filter p q)"
proof (induction q)
  case (Cons i q)
  then show ?case by (cases "item_deliveryId i") (auto simp: once_each_def)
qed (simp add: once_each_def)

lemma once_each_drop: "once_each q \<Longrightarrow> once_each (drop_ordinary k q)"
proof (induction k q rule: drop_ordinary.induct)
  case (3 k i q)
  then show ?case using drop_ordinary_set [of "Suc k" q]
    by (cases "item_deliveryId i") (auto simp: once_each_def)
qed (simp_all add: once_each_def)

lemma retained_once:
  assumes "retainSubmission q i C B = (STORED, rows)" "once_each q"
    and "item_deliveryId i \<notin> item_deliveryId ` set q"
  shows "once_each rows"
proof -
  from retain_STORED [OF assms(1)] obtain k where k: "rows = drop_ordinary k q @ [i]"
    by (rule least_evictionE)
  have "item_deliveryId i \<notin> item_deliveryId ` set (drop_ordinary k q)"
    using assms(3) drop_ordinary_set [of k q] by auto
  with once_each_drop [OF assms(2), of k] show ?thesis
    by (auto simp: k once_each_def)
qed

lemma fits_weaken: "fits C B rows \<Longrightarrow> B \<le> B' \<Longrightarrow> fits C B' rows"
  by (simp add: fits_def)

lemma fits_sublist: "fits C B rows \<Longrightarrow> fits C B (filter p rows)"
  using fits_filter [of C B rows "[]" p] by simp

subsection \<open>Node\<close>

definition node_rows :: "string \<Rightarrow> role \<Rightarrow> rooms \<Rightarrow> queue_item list" where
  "node_rows room role rooms = (case rooms room of None \<Rightarrow> [] | Some r \<Rightarrow> queue_column role r)"

definition node_queue_bytes :: "role \<Rightarrow> nat" where
  "node_queue_bytes role = (if role = Machine then 32000000 else 1800000)"

lemma queue_column_set [simp]: "queue_column role (set_queue_column role q r) = q"
  by (cases role) simp_all

lemma queue_column_updated [simp]: "queue_column role (r\<lparr>updated_at := t\<rparr>) = queue_column role r"
  by (cases role) simp_all

lemma node_rows_write [simp]:
  "rooms room \<noteq> None \<Longrightarrow> node_rows room role (writeQueue rooms room role q now) = q"
  by (auto simp: node_rows_def writeQueue_def)

lemma writeQueue_exists [simp]: "writeQueue rooms room role q now room' = None \<longleftrightarrow> rooms room' = None"
  by (auto simp: writeQueue_def split: option.splits)

lemma node_queue_rows:
  assumes "node_queue rooms room role now = (live, rooms1)"
  shows "live = filter (node_alive now) (node_rows room role rooms)"
    "node_rows room role rooms1 = live" "rooms1 room = None \<longleftrightarrow> rooms room = None"
  using assms filter_eq_length [of "node_alive now" "node_rows room role rooms"]
  by (auto simp: node_queue_def node_rows_def writeQueue_def Let_def split: option.splits if_splits)

lemma has_id: "list_ex (\<lambda>item. item_deliveryId item = Some d) q \<longleftrightarrow> Some d \<in> item_deliveryId ` set q"
  by (force simp: list_ex_iff)

text \<open>The outcomes of \<open>enqueue\<close> on the stored rows.\<close>

lemma enqueue_cases:
  assumes "enqueue rooms room role raw d x now = (res, rooms')"
  defines "live \<equiv> filter (node_alive now) (node_rows room role rooms)"
  obtains "res \<in> {OVERSIZE, EXPIRED, NO_ROOM}" "rooms' = rooms"
  | "res = DUPLICATE" "node_rows room role rooms' = live" "Some d \<in> item_deliveryId ` set live"
  | "res = FULL" "node_rows room role rooms' = live"
  | rows where "res = STORED" "node_rows room role rooms' = rows"
    "Some d \<notin> item_deliveryId ` set live"
    "retainSubmission live (incoming_row raw d (Some now) x now) HOLD_LIMIT
       (queueBytes (submissionRetentionLimits role (Some d))) = (STORED, rows)"
proof -
  obtain live' rooms1 where q: "node_queue rooms room role now = (live', rooms1)" by fastforce
  note rows = node_queue_rows [OF q]
  have live: "live' = live" using rows(1) by (simp add: live_def)
  obtain r rs where ret: "retainSubmission live (incoming_row raw d (Some now) x now) HOLD_LIMIT
       (queueBytes (submissionRetentionLimits role (Some d))) = (r, rs)" by fastforce
  have r: "r = STORED \<or> r = FULL"
    using retain_cases [of live "incoming_row raw d (Some now) x now" HOLD_LIMIT
      "queueBytes (submissionRetentionLimits role (Some d))"] ret by auto
  have "res \<in> {OVERSIZE, EXPIRED, NO_ROOM} \<and> rooms' = rooms
    \<or> rooms room \<noteq> None \<and> list_ex (\<lambda>item. item_deliveryId item = Some d) live
        \<and> res = DUPLICATE \<and> rooms' = rooms1
    \<or> rooms room \<noteq> None \<and> \<not> list_ex (\<lambda>item. item_deliveryId item = Some d) live
        \<and> (r = FULL \<and> res = FULL \<and> rooms' = rooms1
           \<or> r = STORED \<and> res = STORED \<and> rooms' = writeQueue rooms1 room role rs now)"
    using assms(1) q r unfolding enqueue_def Let_def live
    by (auto simp: ret split: if_splits)
  then have "res \<in> {OVERSIZE, EXPIRED, NO_ROOM} \<and> rooms' = rooms
    \<or> res = DUPLICATE \<and> node_rows room role rooms' = live \<and> Some d \<in> item_deliveryId ` set live
    \<or> res = FULL \<and> node_rows room role rooms' = live
    \<or> res = STORED \<and> node_rows room role rooms' = rs \<and> Some d \<notin> item_deliveryId ` set live
        \<and> r = STORED"
    using rows(2,3) unfolding has_id live by auto
  with ret show thesis using that by metis
qed

lemma node_alive_unexpired: "node_alive now item = unexpired now item"
  by (simp add: node_alive_def unexpired_def)

lemma queueBytes_le: "queueBytes (submissionRetentionLimits role d) \<le> node_queue_bytes role"
  by (simp add: submissionRetentionLimits_def node_queue_bytes_def)

lemma ack_rows:
  "node_rows room role (node_acknowledge rooms room role d now) =
     filter (\<lambda>i. item_deliveryId i \<noteq> Some d) (filter (node_alive now) (node_rows room role rooms))"
proof -
  obtain live rooms1 where q: "node_queue rooms room role now = (live, rooms1)" by fastforce
  note rows = node_queue_rows [OF q]
  show ?thesis
  proof (cases "rooms1 room")
    case None
    then have "rooms room = None" using rows(3) by simp
    then have "live = []" using rows(1) by (simp add: node_rows_def)
    with None rows q show ?thesis by (simp add: node_acknowledge_def)
  next
    case (Some r)
    then show ?thesis
      using q rows filter_eq_length [of "\<lambda>i. item_deliveryId i \<noteq> Some d" live]
      by (auto simp: node_acknowledge_def Let_def simp del: filter_filter)
  qed
qed

interpretation node_mail: reliable_mailbox "node_rows room role"
  "\<lambda>raw d x now s. enqueue s room role raw d x now" "\<lambda>d now s. node_acknowledge s room role d now"
  "node_queue_bytes role" for room role
proof (unfold_locales, goal_cases)
  case (1 raw d x now s s')
  then show ?case by (cases rule: enqueue_cases) (auto intro: retained_stores)
next
  case (2 raw d x now s s')
  then show ?case by (cases rule: enqueue_cases) auto
next
  case (3 item s now raw d x)
  obtain res s' where e: "enqueue s room role raw d x now = (res, s')" by fastforce
  then have "item \<in> set (node_rows room role s')"
    by (cases rule: enqueue_cases) (use 3 in \<open>auto simp: node_alive_unexpired dest: retained_keeps\<close>)
  with e show ?case by simp
next
  case (4 item raw d x now s)
  obtain res s' where e: "enqueue s room role raw d x now = (res, s')" by fastforce
  then show ?case
    by (cases rule: enqueue_cases) (use 4 e in \<open>auto dest: retained_new\<close>)
next
  case (5 d s raw x now)
  obtain res s' where e: "enqueue s room role raw d x now = (res, s')" by fastforce
  then have "once_each (node_rows room role s')"
    by (cases rule: enqueue_cases) (use 5 in \<open>auto simp: once_each_filter intro: retained_once\<close>)
  with e show ?case by simp
next
  case (6 s raw d x now)
  obtain res s' where e: "enqueue s room role raw d x now = (res, s')" by fastforce
  then have "fits HOLD_LIMIT (node_queue_bytes role) (node_rows room role s')"
    by (cases rule: enqueue_cases)
      (use 6 in \<open>auto simp: fits_sublist intro: fits_weaken [OF retained_set(4) queueBytes_le]\<close>)
  with e show ?case by simp
next
  case (7 item s now d)
  then show ?case by (simp add: ack_rows node_alive_unexpired)
next
  case (8 item d now s)
  then show ?case by (simp add: ack_rows)
next
  case (9 s d now)
  then show ?case by (simp only: ack_rows once_each_filter)
next
  case (10 s d now)
  then show ?case by (simp only: ack_rows fits_sublist)
qed

subsection \<open>Worker\<close>

definition worker_rows :: "role \<Rightarrow> queue_keys \<Rightarrow> queue_item list" where
  "worker_rows role storage = stored_or_empty (storage role)"

lemma worker_rows_update [simp]:
  "worker_rows role (storage(role := Some q)) = q"
  "worker_rows role (store_or_delete storage role q) = q"
  by (simp_all add: worker_rows_def stored_or_empty_def store_or_delete_def)

lemma unexpired_worker_alive: "unexpired now item \<Longrightarrow> worker_alive now item"
  by (auto simp: unexpired_def worker_alive_def split: option.splits)

lemma worker_queue_cases:
  assumes "worker_queue storage role raw d x now = (res, storage')"
  defines "live \<equiv> filter (worker_alive now) (worker_rows role storage)"
  obtains "res \<in> {OVERSIZE, EXPIRED, FULL}" "storage' = storage"
  | "res = DUPLICATE" "storage' = storage" "Some d \<in> item_deliveryId ` set live"
  | rows where "res = STORED" "worker_rows role storage' = rows"
    "d \<noteq> [] \<longrightarrow> Some d \<notin> item_deliveryId ` set live"
    "retainSubmission live (incoming_row raw d None x now) HOLD_LIMIT MAX_QUEUE_BYTES = (STORED, rows)"
proof -
  obtain r rs where ret: "retainSubmission live (incoming_row raw d None x now) HOLD_LIMIT
       MAX_QUEUE_BYTES = (r, rs)" by fastforce
  have r: "r = STORED \<or> r = FULL"
    using retain_cases [of live "incoming_row raw d None x now" HOLD_LIMIT MAX_QUEUE_BYTES] ret by auto
  have "res \<in> {OVERSIZE, EXPIRED, FULL} \<and> storage' = storage
    \<or> res = DUPLICATE \<and> storage' = storage \<and> Some d \<in> item_deliveryId ` set live
    \<or> res = STORED \<and> worker_rows role storage' = rs \<and> r = STORED
        \<and> (d \<noteq> [] \<longrightarrow> Some d \<notin> item_deliveryId ` set live)"
    using assms(1) r ret unfolding worker_queue_def Let_def live_def worker_rows_def has_id
    by (auto simp: stored_or_empty_def split: if_splits simp del: set_filter)
  with ret show thesis using that by metis
qed

interpretation worker_mail: reliable_mailbox "worker_rows role"
  "\<lambda>raw d x now s. worker_queue s role raw d x now" "\<lambda>d now s. worker_acknowledge s role d"
  MAX_QUEUE_BYTES for role
proof (unfold_locales, goal_cases)
  case (1 raw d x now s s')
  then show ?case by (cases rule: worker_queue_cases) (auto intro: retained_stores)
next
  case (2 raw d x now s s')
  then show ?case by (cases rule: worker_queue_cases) auto
next
  case (3 item s now raw d x)
  obtain res s' where e: "worker_queue s role raw d x now = (res, s')" by fastforce
  then have "item \<in> set (worker_rows role s')"
    by (cases rule: worker_queue_cases) (use 3 in \<open>auto simp: unexpired_worker_alive dest: retained_keeps\<close>)
  with e show ?case by simp
next
  case (4 item raw d x now s)
  obtain res s' where e: "worker_queue s role raw d x now = (res, s')" by fastforce
  then show ?case
    by (cases rule: worker_queue_cases) (use 4 e in \<open>auto dest: retained_new\<close>)
next
  case (5 d s raw x now)
  obtain res s' where e: "worker_queue s role raw d x now = (res, s')" by fastforce
  then have "once_each (worker_rows role s')"
    by (cases rule: worker_queue_cases) (use 5 in \<open>auto simp: once_each_filter intro: retained_once\<close>)
  with e show ?case by simp
next
  case (6 s raw d x now)
  obtain res s' where e: "worker_queue s role raw d x now = (res, s')" by fastforce
  then have "fits HOLD_LIMIT MAX_QUEUE_BYTES (worker_rows role s')"
    by (cases rule: worker_queue_cases) (use 6 in \<open>auto dest: retained_set(4)\<close>)
  with e show ?case by simp
qed (auto simp: worker_acknowledge_def worker_rows_def [symmetric] once_each_filter fits_sublist)

section \<open>Several mailboxes of one Node store\<close>

text \<open>An operation on the mailbox of a room and role, and a run of such operations.\<close>

fun node_op :: "string \<times> role \<times> mail_op \<Rightarrow> rooms \<Rightarrow> rooms" where
  "node_op (room, role, Put raw d x now) rooms = snd (enqueue rooms room role raw d x now)"
| "node_op (room, role, Ack d now) rooms = node_acknowledge rooms room role d now"

definition node_run :: "(string \<times> role \<times> mail_op) list \<Rightarrow> rooms \<Rightarrow> rooms" where
  "node_run ops rooms = fold node_op ops rooms"

fun worker_op :: "role \<times> mail_op \<Rightarrow> queue_keys \<Rightarrow> queue_keys" where
  "worker_op (role, Put raw d x now) storage = snd (worker_queue storage role raw d x now)"
| "worker_op (role, Ack d now) storage = worker_acknowledge storage role d"

definition worker_run :: "(role \<times> mail_op) list \<Rightarrow> queue_keys \<Rightarrow> queue_keys" where
  "worker_run ops storage = fold worker_op ops storage"

lemma other_column [simp]:
  "role' \<noteq> role \<Longrightarrow> queue_column role (set_queue_column role' q r) = queue_column role r"
  by (cases role; cases role') simp_all

lemma writeQueue_frame:
  "(room', role') \<noteq> (room, role) \<Longrightarrow>
     node_rows room role (writeQueue rooms room' role' q now) = node_rows room role rooms"
  by (auto simp: node_rows_def writeQueue_def split: option.splits)

lemma node_queue_frame:
  "(room', role') \<noteq> (room, role) \<Longrightarrow>
     node_rows room role (snd (node_queue rooms room' role' now)) = node_rows room role rooms"
  by (auto simp: node_queue_def Let_def writeQueue_frame split: option.splits)

lemma node_op_frame:
  assumes "(room', role') \<noteq> (room, role)"
  shows "node_rows room role (node_op (room', role', x) rooms) = node_rows room role rooms"
proof -
  note frames = writeQueue_frame [OF assms] node_queue_frame [OF assms]
  show ?thesis
  proof (cases x)
    case (Put raw d t now)
    then show ?thesis using frames(2) [of rooms now]
      by (auto simp: enqueue_def Let_def frames(1) split: prod.splits)
  next
    case (Ack d now)
    then show ?thesis using frames(2) [of rooms now]
      by (auto simp: node_acknowledge_def Let_def frames(1) split: prod.splits)
  qed
qed

lemma node_op_keeps:
  assumes "item \<in> set (node_rows room role rooms)" "durable_item item" "unexpired (op_time x) item"
    and "(room', role') = (room, role) \<longrightarrow> op_acks x \<noteq> item_deliveryId item"
  shows "item \<in> set (node_rows room role (node_op (room', role', x) rooms))"
proof (cases "(room', role') = (room, role)")
  case True
  with assms show ?thesis
    by (cases x) (auto intro!: node_mail.put_keeps node_mail.ack_keeps)
next
  case False
  show ?thesis unfolding node_op_frame [OF False] by (rule assms(1))
qed

lemma node_run_keeps:
  "item \<in> set (node_rows room role rooms) \<Longrightarrow> durable_item item \<Longrightarrow>
   \<forall>(room', role', x) \<in> set ops. unexpired (op_time x) item
     \<and> ((room', role') = (room, role) \<longrightarrow> op_acks x \<noteq> item_deliveryId item) \<Longrightarrow>
   item \<in> set (node_rows room role (node_run ops rooms))"
proof (induction ops arbitrary: rooms)
  case Nil
  then show ?case by (simp add: node_run_def)
next
  case (Cons x ops)
  obtain room' role' y where x: "x = (room', role', y)" by (cases x)
  have "item \<in> set (node_rows room role (node_op (room', role', y) rooms))"
    by (rule node_op_keeps) (use Cons.prems x in auto)
  with Cons x show ?case by (simp add: node_run_def)
qed

lemma node_op_mailbox:
  assumes "fits HOLD_LIMIT (node_queue_bytes role) (node_rows room role rooms)"
    "once_each (node_rows room role rooms)" "op_puts x \<noteq> Some []"
  shows "fits HOLD_LIMIT (node_queue_bytes role) (node_rows room role (node_op (room', role', x) rooms))
    \<and> once_each (node_rows room role (node_op (room', role', x) rooms))"
proof (cases "(room', role') = (room, role)")
  case True
  with assms show ?thesis
    by (cases x) (auto intro: node_mail.put_bounds node_mail.put_once node_mail.ack_bounds
        node_mail.ack_once)
next
  case False
  show ?thesis unfolding node_op_frame [OF False] using assms by simp
qed

lemma node_run_mailbox:
  "fits HOLD_LIMIT (node_queue_bytes role) (node_rows room role rooms) \<Longrightarrow>
   once_each (node_rows room role rooms) \<Longrightarrow> \<forall>(_, _, x) \<in> set ops. op_puts x \<noteq> Some [] \<Longrightarrow>
   fits HOLD_LIMIT (node_queue_bytes role) (node_rows room role (node_run ops rooms))
   \<and> once_each (node_rows room role (node_run ops rooms))"
proof (induction ops arbitrary: rooms)
  case Nil
  then show ?case by (simp add: node_run_def)
next
  case (Cons x ops)
  obtain room' role' y where x: "x = (room', role', y)" by (cases x)
  with Cons.prems have "op_puts y \<noteq> Some []" by auto
  from node_op_mailbox [OF Cons.prems(1,2) this, of room' role'] Cons x
  show ?case by (simp add: node_run_def)
qed

lemma worker_op_frame: "role' \<noteq> role \<Longrightarrow> worker_rows role (worker_op (role', x) s) = worker_rows role s"
  by (cases x) (auto simp: worker_rows_def worker_queue_def worker_acknowledge_def store_or_delete_def
      Let_def split: prod.splits)

lemma worker_op_keeps:
  assumes "item \<in> set (worker_rows role s)" "durable_item item" "unexpired (op_time x) item"
    and "role' = role \<longrightarrow> op_acks x \<noteq> item_deliveryId item"
  shows "item \<in> set (worker_rows role (worker_op (role', x) s))"
proof (cases "role' = role")
  case True
  with assms show ?thesis
    by (cases x) (auto intro!: worker_mail.put_keeps worker_mail.ack_keeps)
next
  case False
  show ?thesis unfolding worker_op_frame [OF False] by (rule assms(1))
qed

lemma worker_run_keeps:
  "item \<in> set (worker_rows role s) \<Longrightarrow> durable_item item \<Longrightarrow>
   \<forall>(role', x) \<in> set ops. unexpired (op_time x) item
     \<and> (role' = role \<longrightarrow> op_acks x \<noteq> item_deliveryId item) \<Longrightarrow>
   item \<in> set (worker_rows role (worker_run ops s))"
proof (induction ops arbitrary: s)
  case Nil
  then show ?case by (simp add: worker_run_def)
next
  case (Cons x ops)
  obtain role' y where x: "x = (role', y)" by (cases x)
  have "item \<in> set (worker_rows role (worker_op (role', y) s))"
    by (rule worker_op_keeps) (use Cons.prems x in auto)
  with Cons x show ?case by (simp add: worker_run_def)
qed

lemma worker_op_mailbox:
  assumes "fits HOLD_LIMIT MAX_QUEUE_BYTES (worker_rows role s)" "once_each (worker_rows role s)"
    "op_puts x \<noteq> Some []"
  shows "fits HOLD_LIMIT MAX_QUEUE_BYTES (worker_rows role (worker_op (role', x) s))
    \<and> once_each (worker_rows role (worker_op (role', x) s))"
proof (cases "role' = role")
  case True
  with assms show ?thesis
    by (cases x) (auto intro: worker_mail.put_bounds worker_mail.put_once worker_mail.ack_bounds
        worker_mail.ack_once)
next
  case False
  show ?thesis unfolding worker_op_frame [OF False] using assms by simp
qed

lemma worker_run_mailbox:
  "fits HOLD_LIMIT MAX_QUEUE_BYTES (worker_rows role s) \<Longrightarrow> once_each (worker_rows role s) \<Longrightarrow>
   \<forall>(_, x) \<in> set ops. op_puts x \<noteq> Some [] \<Longrightarrow>
   fits HOLD_LIMIT MAX_QUEUE_BYTES (worker_rows role (worker_run ops s))
   \<and> once_each (worker_rows role (worker_run ops s))"
proof (induction ops arbitrary: s)
  case Nil
  then show ?case by (simp add: worker_run_def)
next
  case (Cons x ops)
  obtain role' y where x: "x = (role', y)" by (cases x)
  with Cons.prems have "op_puts y \<noteq> Some []" by auto
  from worker_op_mailbox [OF Cons.prems(1,2) this, of role'] Cons x
  show ?case by (simp add: worker_run_def)
qed

text \<open>Flushing a mailbox loses nothing that was not sent.\<close>

lemma flush_mixed_no_loss:
  "item \<in> set items \<Longrightarrow> item_raw item \<noteq> [] \<Longrightarrow>
     item \<in> set (snd (flush_mixed matches budget items))
     \<or> \<not> reliable_item item \<and> item_raw item \<in> set (fst (flush_mixed matches budget items))"
proof (induction matches budget items rule: flush_mixed.induct)
  case (2 matches budget i items)
  show ?case
  proof (cases "item_raw i = [] \<or> \<not> matches (item_raw i)")
    case True
    with 2 show ?thesis by (auto simp: case_prod_beta)
  next
    case False
    with 2 show ?thesis by (cases budget) (auto simp: case_prod_beta)
  qed
qed simp

lemma flush_mixed_frames:
  "set (fst (flush_mixed matches budget items)) \<subseteq> {r \<in> item_raw ` set items. matches r}
   \<and> set (snd (flush_mixed matches budget items)) \<subseteq> set items"
proof (induction matches budget items rule: flush_mixed.induct)
  case (2 matches budget i items)
  show ?case
  proof (cases "item_raw i = [] \<or> \<not> matches (item_raw i)")
    case True
    with 2 show ?thesis by (auto simp: case_prod_beta)
  next
    case False
    with 2 show ?thesis by (cases budget) (auto simp: case_prod_beta)
  qed
qed simp

lemma flush_reliable_frames:
  "set (flush_reliable matches budget items) \<subseteq> {r \<in> item_raw ` set items. matches r}"
  by (induction matches budget items rule: flush_reliable.induct) (auto split: nat.splits)

section \<open>Properties\<close>

text \<open>C4: a durable submission that the Node relay stored stays stored, with its text and
  expiry, through any sequence of operations on any mailboxes of the store, as long as its
  delivery id is not acknowledged on its own mailbox and no operation happens after its
  expiry.\<close>

theorem node_submission_survives:
  assumes "enqueue rooms room role raw d x now = (STORED, rooms1)"
    and "isDurableSubmission (Some d)"
    and "\<forall>(room', role', y) \<in> set ops. op_time y < queue_expiry x now
      \<and> ((room', role') = (room, role) \<longrightarrow> op_acks y \<noteq> Some d)"
  shows "stores_delivery (node_rows room role (node_run ops rooms1)) d raw (queue_expiry x now)"
proof -
  from node_mail.put_stored [OF assms(1)] obtain item
    where i: "item \<in> set (node_rows room role rooms1)" "item_deliveryId item = Some d"
      "item_raw item = raw" "item_expiresAt item = Some (queue_expiry x now)"
    by (auto simp: stores_delivery_def)
  have "item \<in> set (node_rows room role (node_run ops rooms1))"
    by (rule node_run_keeps [OF i(1)])
      (use i assms(2,3) in \<open>auto simp: durable_item_def unexpired_def\<close>)
  with i show ?thesis by (auto simp: stores_delivery_def)
qed


text \<open>C22: in every state that operations with non-empty delivery ids reach from empty mailboxes,
  a Node mailbox holds at most 100 rows, at most 32 MB for the machine and 1.8 MB for the
  phone, and every delivery id at most once.\<close>

theorem node_mailbox_invariant:
  assumes "\<forall>(_, _, y) \<in> set ops. op_puts y \<noteq> Some []" and "node_rows room role rooms = []"
  shows "fits 100 (if role = Machine then 32000000 else 1800000) (node_rows room role (node_run ops rooms))
    \<and> once_each (node_rows room role (node_run ops rooms))"
proof -
  have "fits HOLD_LIMIT (node_queue_bytes role) []" "once_each []"
    by (simp_all add: fits_def once_each_def)
  with node_run_mailbox [of role room rooms ops] assms show ?thesis
    by (simp add: HOLD_LIMIT_def node_queue_bytes_def)
qed

text \<open>a Worker mailbox holds at most 100 rows and 1.8 MB, and every delivery id at most
  once, in every reachable state.\<close>

theorem worker_mailbox_invariant:
  assumes "\<forall>(_, y) \<in> set ops. op_puts y \<noteq> Some []" and "storage role = None"
  shows "fits 100 1800000 (worker_rows role (worker_run ops storage))
    \<and> once_each (worker_rows role (worker_run ops storage))"
proof -
  have "worker_rows role storage = []" using assms(2)
    by (simp add: worker_rows_def stored_or_empty_def)
  moreover have "fits HOLD_LIMIT MAX_QUEUE_BYTES []" "once_each []"
    by (simp_all add: fits_def once_each_def)
  ultimately show ?thesis
    using worker_run_mailbox [of role storage ops] assms(1)
    by (simp add: HOLD_LIMIT_def MAX_QUEUE_BYTES_def)
qed

text \<open>C23: sending a Durable Object mailbox to a newly registered socket is not a delivery:
  every unexpired row with text is still stored afterwards, unless it is a legacy row without
  delivery id that was sent; only rows for the socket's recipient are sent; and this holds
  wherever a send fails.\<close>

theorem flushTo_no_loss:
  assumes "flushTo storage role matches budget now = (sent, storage')"
    and "item \<in> set (worker_rows role storage)" and "flush_alive now item" and "item_raw item \<noteq> []"
  shows "(item \<in> set (worker_rows role storage') \<or> \<not> reliable_item item \<and> item_raw item \<in> set sent)
    \<and> (\<forall>raw \<in> set sent. matches raw)"
proof -
  let ?pending = "filter (flush_alive now) (worker_rows role storage)"
  have mem: "item \<in> set ?pending" using assms(2,3) by simp
  have "?pending \<noteq> []" using mem by (metis empty_iff list.set(1))
  moreover have "stored_or_empty (storage role) \<noteq> []" using assms(2) by (auto simp: worker_rows_def)
  ultimately have ne: "stored_or_empty (storage role) \<noteq> []" "?pending \<noteq> []" by simp_all
  show ?thesis
  proof (cases "list_all reliable_item ?pending")
    case True
    then have "sent = flush_reliable matches budget ?pending" "storage' = storage"
      using assms(1) ne by (auto simp: flushTo_def worker_rows_def Let_def)
    with assms(2) flush_reliable_frames [of matches budget ?pending] show ?thesis by auto
  next
    case False
    then have "sent = fst (flush_mixed matches budget ?pending)"
      "worker_rows role storage' = snd (flush_mixed matches budget ?pending)"
      using assms(1) ne by (auto simp: flushTo_def worker_rows_def [symmetric] Let_def case_prod_beta)
    with flush_mixed_no_loss [OF mem assms(4), of matches budget]
      flush_mixed_frames [of matches budget ?pending] show ?thesis by auto
  qed
qed

section \<open>Witnesses\<close>

text \<open>A durable delivery id, a store with one empty room, and the mailboxes after the frame
  \<open>hello\<close> was stored for the machine at time 0 until time 5000.\<close>

definition sample_id :: string where "sample_id = ''user-message-7''"

definition sample_rooms :: rooms where "sample_rooms = [''r'' \<mapsto> new_room 0]"

definition sample_rooms1 :: rooms where
  "sample_rooms1 = snd (enqueue sample_rooms ''r'' Machine ''hello'' sample_id (Some 5000) 0)"

definition sample_storage1 :: queue_keys where
  "sample_storage1 = snd (worker_queue (\<lambda>_. None) Machine ''hello'' sample_id (Some 5000) 0)"

definition sample_ops :: "mail_op list" where
  "sample_ops = [Put ''later'' ''note-1'' None 100, Ack ''note-1'' 200, Ack ''other'' 300]"

lemma sample_durable: "isDurableSubmission (Some sample_id)"
  by code_simp

lemma sample_enqueue:
  "enqueue sample_rooms ''r'' Machine ''hello'' sample_id (Some 5000) 0 = (STORED, sample_rooms1)"
proof (rule prod_eqI)
  have limits: "submissionRetentionLimits Machine (Some sample_id) =
      \<lparr>frameBytes = 22010000, queueBytes = 32000000\<rparr>"
    using sample_durable by (simp add: submissionRetentionLimits_def)
  show "fst (enqueue sample_rooms ''r'' Machine ''hello'' sample_id (Some 5000) 0) = fst (STORED, sample_rooms1)"
    by (simp add: enqueue_def Let_def limits node_queue_def sample_rooms_def new_room_def HOLD_LIMIT_def
        retainSubmission_def incoming_row_def queue_expiry_def byteLength_def total_bytes_def
        retain_loop.simps)
qed (simp add: sample_rooms1_def)

lemma sample_worker_queue:
  "worker_queue (\<lambda>_. None) Machine ''hello'' sample_id (Some 5000) 0 = (STORED, sample_storage1)"
proof (rule prod_eqI)
  show "fst (worker_queue (\<lambda>_. None) Machine ''hello'' sample_id (Some 5000) 0) = fst (STORED, sample_storage1)"
    by (simp add: worker_queue_def Let_def stored_or_empty_def HOLD_LIMIT_def MAX_QUEUE_BYTES_def
        retainSubmission_def incoming_row_def queue_expiry_def byteLength_def total_bytes_def
        retain_loop.simps)
qed (simp add: sample_storage1_def)

theorem node_submission_survives_witness:
  "stores_delivery (node_rows ''r'' Machine (node_run
     ((''r'', Phone, Ack sample_id 50) # map (\<lambda>x. (''r'', Machine, x)) sample_ops) sample_rooms1))
     sample_id ''hello'' 5000"
  using node_submission_survives [OF sample_enqueue sample_durable,
      of "(''r'', Phone, Ack sample_id 50) # map (\<lambda>x. (''r'', Machine, x)) sample_ops"]
  by (simp add: sample_ops_def sample_id_def queue_expiry_def)


theorem node_mailbox_invariant_witness:
  "fits 100 32000000 (node_rows ''r'' Machine (node_run
      (map (\<lambda>x. (''r'', Machine, x)) sample_ops) sample_rooms))
   \<and> once_each (node_rows ''r'' Machine (node_run
      (map (\<lambda>x. (''r'', Machine, x)) sample_ops) sample_rooms))"
  using node_mailbox_invariant [of "map (\<lambda>x. (''r'', Machine, x)) sample_ops" "''r''" Machine sample_rooms]
  by (simp add: sample_ops_def node_rows_def sample_rooms_def new_room_def)

theorem worker_mailbox_invariant_witness:
  "fits 100 1800000 (worker_rows Machine (worker_run (map (\<lambda>x. (Machine, x)) sample_ops) (\<lambda>_. None)))
   \<and> once_each (worker_rows Machine (worker_run (map (\<lambda>x. (Machine, x)) sample_ops) (\<lambda>_. None)))"
  using worker_mailbox_invariant [of "map (\<lambda>x. (Machine, x)) sample_ops" "\<lambda>_. None" Machine]
  by (simp add: sample_ops_def)

theorem flushTo_no_loss_witness:
  "LegacyItem ''old'' \<in> set (worker_rows Phone
      (snd (flushTo (\<lambda>_. Some [LegacyItem ''old'', LegacyItem ''new'']) Phone (\<lambda>_. True) 0 9)))
   \<or> ''old'' \<in> set (fst (flushTo (\<lambda>_. Some [LegacyItem ''old'', LegacyItem ''new'']) Phone (\<lambda>_. True) 0 9))"
  using flushTo_no_loss [of "\<lambda>_. Some [LegacyItem ''old'', LegacyItem ''new'']" Phone "\<lambda>_. True" 0 9
      "fst (flushTo (\<lambda>_. Some [LegacyItem ''old'', LegacyItem ''new'']) Phone (\<lambda>_. True) 0 9)"
      "snd (flushTo (\<lambda>_. Some [LegacyItem ''old'', LegacyItem ''new'']) Phone (\<lambda>_. True) 0 9)"
      "LegacyItem ''old''"]
  by (simp add: worker_rows_def stored_or_empty_def DEFAULT_QUEUE_TTL_MS_def) blast

end
