(* ===== verification/Cool_Down.thy ===== *)
theory Cool_Down
  imports Relay_Validation
begin

text \<open>
  The reconnect cool-down of \<open>src/relay/coolDown.js\<close>: the registry of policy closes with its
  doubling backoff and its bounded size, and the non-secret identities that are its keys. Shows:
  the backoff of consecutive strikes doubles up to its cap; a strike is visible as the remaining
  cool-down; the registry keeps its size bound and no cool-down exceeds the cap in any reachable
  state; an identity is short and retains sixteen digits of a digest of the sender.
\<close>

section \<open>The registry\<close>

record cool_entry =
  strikes :: nat
  until :: time
  admissionOnly :: bool

record cool_config =
  baseMs :: int
  maxMs :: int
  resetMs :: int
  maxEntries :: nat

type_synonym cool_entries = "(string, cool_entry) jmap"

definition SWEEP_PER_STRIKE :: nat where "SWEEP_PER_STRIKE = 8"

text \<open>The constructor's defaults.\<close>

definition default_cool_down :: cool_config where
  "default_cool_down = \<lparr>baseMs = 5000, maxMs = 300000, resetMs = 900000, maxEntries = 10000\<rparr>"

definition stale_entry :: "cool_config \<Rightarrow> time \<Rightarrow> cool_entry \<Rightarrow> bool" where
  "stale_entry c now e \<longleftrightarrow> now - until e > resetMs c"

text \<open>
  The loop of \<open>sweep\<close>: \<open>todo\<close> are the entries the iterator has not yet visited. Deleting the
  visited key does not disturb the iteration of a \<open>Map\<close>.
\<close>

fun sweep_loop ::
  "cool_config \<Rightarrow> time \<Rightarrow> nat \<Rightarrow> (string \<times> cool_entry) list \<Rightarrow> cool_entries \<Rightarrow> cool_entries" where
  "sweep_loop c now count [] entries = entries"
| "sweep_loop c now count ((key, entry) # todo) entries =
     (if length entries \<le> maxEntries c \<and> count \<ge> SWEEP_PER_STRIKE then entries
      else sweep_loop c now (count + 1) todo
        (if length entries > maxEntries c \<or> stale_entry c now entry then jm_delete entries key
         else entries))"

definition sweep :: "cool_config \<Rightarrow> time \<Rightarrow> cool_entries \<Rightarrow> cool_entries" where
  "sweep c now entries = sweep_loop c now 0 entries entries"

definition backoff :: "cool_config \<Rightarrow> nat \<Rightarrow> int" where
  "backoff c n = min (maxMs c) (baseMs c * 2 ^ min (n - 1) 30)"

definition struck_entry :: "cool_config \<Rightarrow> cool_entry option \<Rightarrow> bool \<Rightarrow> time \<Rightarrow> cool_entry" where
  "struck_entry c previous admission now =
     (let fresh = (case previous of None \<Rightarrow> True | Some p \<Rightarrow> stale_entry c now p);
          n = (if fresh then 1 else strikes (the previous) + 1)
      in \<lparr>strikes = n, until = now + backoff c n,
          admissionOnly = (admission \<and> (fresh \<or> admissionOnly (the previous)))\<rparr>)"

definition strike ::
  "cool_config \<Rightarrow> cool_entries \<Rightarrow> string \<Rightarrow> bool \<Rightarrow> time \<Rightarrow> int \<times> cool_entries" where
  "strike c entries key admission now =
     (let entry = struck_entry c (jm_get entries key) admission now
      in (backoff c (strikes entry), sweep c now (jm_set (jm_delete entries key) key entry)))"

text \<open>\<open>remaining(key, {admitted})\<close>; the key may be \<open>null\<close> or empty.\<close>

definition remaining ::
  "cool_config \<Rightarrow> cool_entries \<Rightarrow> string option \<Rightarrow> bool \<Rightarrow> time \<Rightarrow> int \<times> cool_entries" where
  "remaining c entries key admitted now = (case key of
       None \<Rightarrow> (0, entries)
     | Some k \<Rightarrow>
        if k = [] then (0, entries)
        else (case jm_get entries k of
            None \<Rightarrow> (0, entries)
          | Some entry \<Rightarrow>
              if admitted \<and> admissionOnly entry then (0, jm_delete entries k)
              else if stale_entry c now entry then (0, jm_delete entries k)
              else (max 0 (until entry - now), entries)))"

section \<open>Identities\<close>

text \<open>\<open>digest\<close>: two FNV-1a passes over the code units; \<open>Math.imul\<close> and \<open>>>> 0\<close> are the product
  of 32-bit words.\<close>

fun fnv_loop :: "32 word \<Rightarrow> 32 word \<Rightarrow> nat list \<Rightarrow> 32 word \<times> 32 word" where
  "fnv_loop first second [] = (first, second)"
| "fnv_loop first second (code # codes) =
     fnv_loop ((first XOR word_of_nat code) * 0x01000193) ((second XOR word_of_nat code) * 0x811c9dc5)
       codes"

definition digest :: "string \<Rightarrow> string" where
  "digest value = (case fnv_loop 0x811c9dc5 0x01000193 (utf16_codes value) of
     (first, second) \<Rightarrow>
       pad_start 8 (to_hex (unat first)) @ pad_start 8 (to_hex (unat second)))"

text \<open>
  The identities. The room and the key digest are hexadecimal where the callers pass them, so
  \<open>slice\<close> takes bytes.
\<close>

fun upgradeIdentity :: "js \<Rightarrow> js \<Rightarrow> string option" where
  "upgradeIdentity (JStr room) (JStr recipientKeyId) =
     (if recipientKeyId \<noteq> [] then Some (take 16 room @ ''|k|'' @ take 32 recipientKeyId) else None)"
| "upgradeIdentity _ _ = None"

definition socketIdentity :: "js \<Rightarrow> js \<Rightarrow> js \<Rightarrow> js \<Rightarrow> string option" where
  "socketIdentity room recipientKeyId role senderId =
     (case upgradeIdentity room recipientKeyId of
        Some keyed \<Rightarrow> Some keyed
      | None \<Rightarrow>
          if \<not> is_string room \<or> \<not> truthy role \<or> \<not> is_string senderId then None
          else Some (take 16 (str_of room) @ ''|s|'' @ str_of role @ ''|'' @ digest (str_of senderId)))"

section \<open>Lemmas\<close>

text \<open>The sweep deletes a prefix-scanned subset: \<open>kept\<close> are the visited survivors.\<close>

lemma filter_other_keys: "key \<notin> fst ` set m \<Longrightarrow> filter (\<lambda>e. fst e \<noteq> key) m = m"
  by (rule filter_True) auto

lemma delete_visited:
  "jm_wf (kept @ (key, e) # todo) \<Longrightarrow> jm_delete (kept @ (key, e) # todo) key = kept @ todo"
  by (simp add: jm_wf_def jm_delete_def filter_other_keys)

lemma jm_wf_middle: "jm_wf (kept @ x # todo) \<Longrightarrow> jm_wf (kept @ todo)"
  by (simp add: jm_wf_def)

lemma sweep_loop_props:
  assumes "jm_wf (kept @ todo)" "length kept \<le> maxEntries c"
  shows "jm_wf (sweep_loop c now n todo (kept @ todo))
    \<and> length (sweep_loop c now n todo (kept @ todo)) \<le> maxEntries c
    \<and> set (sweep_loop c now n todo (kept @ todo)) \<subseteq> set (kept @ todo)"
  using assms
proof (induction todo arbitrary: kept n)
  case (Cons x todo)
  obtain key e where x: "x = (key, e)" by (cases x)
  let ?all = "kept @ (key, e) # todo"
  show ?case
  proof (cases "length ?all > maxEntries c \<or> stale_entry c now e")
    case True
    then show ?thesis
      using Cons.IH [of kept "n + 1"] Cons.prems x delete_visited [of kept key e todo]
        jm_wf_middle [of kept x todo] by auto
  next
    case False
    then show ?thesis
      using Cons.IH [of "kept @ [x]" "n + 1"] Cons.prems x by auto
  qed
qed simp

lemma sweep_props:
  assumes "jm_wf entries"
  shows "jm_wf (sweep c now entries)" "length (sweep c now entries) \<le> maxEntries c"
    "set (sweep c now entries) \<subseteq> set entries"
  using sweep_loop_props [of "[]" entries c now 0] assms by (simp_all add: sweep_def)

text \<open>The entry a strike just wrote is the last one and survives the sweep.\<close>

lemma sweep_loop_keeps_last:
  assumes "jm_wf (kept @ todo @ [(k, e)])" "length kept < maxEntries c" "\<not> stale_entry c now e"
  shows "(k, e) \<in> set (sweep_loop c now n (todo @ [(k, e)]) (kept @ todo @ [(k, e)]))"
  using assms
proof (induction todo arbitrary: kept n)
  case Nil
  then show ?case by auto
next
  case (Cons x todo)
  obtain key e' where x: "x = (key, e')" by (cases x)
  have wf: "jm_wf (kept @ (todo @ [(k, e)]))"
    using Cons.prems(1) jm_wf_middle [of kept x "todo @ [(k, e)]"] by simp
  show ?case
  proof (cases "length (kept @ (key, e') # todo @ [(k, e)]) > maxEntries c \<or> stale_entry c now e'")
    case True
    then show ?thesis
      using Cons.IH [of kept "n + 1"] Cons.prems x wf
        delete_visited [of kept key e' "todo @ [(k, e)]"] by auto
  next
    case False
    then show ?thesis
      using Cons.IH [of "kept @ [x]" "n + 1"] Cons.prems x by auto
  qed
qed

lemma sweep_keeps_last:
  assumes "jm_wf (entries @ [(k, e)])" "0 < maxEntries c" "\<not> stale_entry c now e"
  shows "jm_get (sweep c now (entries @ [(k, e)])) k = Some e"
proof -
  have "(k, e) \<in> set (sweep c now (entries @ [(k, e)]))"
    using sweep_loop_keeps_last [of "[]" entries k e c now 0] assms by (simp add: sweep_def)
  with sweep_props(1) [OF assms(1)] show ?thesis by (rule jm_get_mem)
qed

definition cool_config_ok :: "cool_config \<Rightarrow> bool" where
  "cool_config_ok c \<longleftrightarrow> 0 \<le> baseMs c \<and> 0 \<le> maxMs c \<and> 0 \<le> resetMs c \<and> 0 < maxEntries c"

lemma backoff_bounds: "cool_config_ok c \<Longrightarrow> 0 \<le> backoff c n \<and> backoff c n \<le> maxMs c"
  by (simp add: backoff_def cool_config_ok_def)

lemma struck_until: "until (struck_entry c p a now) = now + backoff c (strikes (struck_entry c p a now))"
  by (simp add: struck_entry_def Let_def)

lemma strike_written:
  "strike c entries key a now =
     (backoff c (strikes (struck_entry c (jm_get entries key) a now)),
      sweep c now (jm_delete entries key @ [(key, struck_entry c (jm_get entries key) a now)]))"
  by (simp add: strike_def Let_def jm_set_absent)

lemma wf_struck: "jm_wf entries \<Longrightarrow> jm_wf (jm_delete entries key @ [(key, e)])"
  using jm_set_absent [of "jm_delete entries key" key e] jm_wf_set [of "jm_delete entries key" key e]
  by simp

lemma strike_get:
  assumes "cool_config_ok c" "jm_wf entries"
  shows "jm_get (snd (strike c entries key a now)) key = Some (struck_entry c (jm_get entries key) a now)"
proof -
  let ?e = "struck_entry c (jm_get entries key) a now"
  have "\<not> stale_entry c now ?e"
    using assms(1) backoff_bounds [OF assms(1), of "strikes ?e"]
    by (simp add: stale_entry_def struck_until cool_config_ok_def)
  with assms wf_struck [OF assms(2)] show ?thesis
    by (simp add: strike_written sweep_keeps_last cool_config_ok_def)
qed

text \<open>The invariant of the registry at a time: distinct keys, the size bound, and every entry
  ends at most one cap after that time.\<close>

definition cool_inv :: "cool_config \<Rightarrow> time \<Rightarrow> cool_entries \<Rightarrow> bool" where
  "cool_inv c now entries \<longleftrightarrow> jm_wf entries \<and> length entries \<le> maxEntries c
     \<and> list_all (\<lambda>(_, e). until e \<le> now + maxMs c \<and> 1 \<le> strikes e) entries"

lemma cool_inv_later: "cool_inv c t entries \<Longrightarrow> t \<le> now \<Longrightarrow> cool_inv c now entries"
  by (fastforce simp: cool_inv_def list_all_iff)

lemma strikes_pos: "1 \<le> strikes (struck_entry c p a now)"
  by (simp add: struck_entry_def Let_def)

lemma strike_inv [relay_inv]:
  assumes "cool_config_ok c" "cool_inv c now entries"
  shows "cool_inv c now (snd (strike c entries key a now))"
proof -
  let ?e = "struck_entry c (jm_get entries key) a now"
  let ?all = "jm_delete entries key @ [(key, ?e)]"
  have wf: "jm_wf ?all" using assms(2) by (intro wf_struck) (simp add: cool_inv_def)
  have "until ?e \<le> now + maxMs c" using backoff_bounds [OF assms(1)] by (simp add: struck_until)
  then have "list_all (\<lambda>(_, e). until e \<le> now + maxMs c \<and> 1 \<le> strikes e) ?all"
    using assms(2) strikes_pos [of c "jm_get entries key" a now]
    by (auto simp: cool_inv_def jm_delete_def list_all_iff)
  with sweep_props [OF wf, of c now] show ?thesis
    unfolding cool_inv_def strike_written by (auto simp: list_all_iff)
qed

lemma remaining_inv [relay_inv]:
  assumes "cool_inv c now entries"
  shows "cool_inv c now (snd (remaining c entries key a now))"
proof -
  have "cool_inv c now (jm_delete entries k)" for k
    using assms jm_length_delete_le [of entries k] jm_wf_delete [of entries k]
    by (auto simp: cool_inv_def list_all_iff) (auto simp: jm_delete_def)
  with assms show ?thesis by (auto simp: remaining_def split: option.splits)
qed

lemma remaining_bounded:
  assumes "cool_config_ok c" "cool_inv c now entries"
  shows "0 \<le> fst (remaining c entries key a now) \<and> fst (remaining c entries key a now) \<le> maxMs c"
proof -
  have "until e - now \<le> maxMs c" if "jm_get entries k = Some e" for k e
    using assms(2) map_of_SomeD [of entries k e] that
    by (fastforce simp: cool_inv_def jm_get_def list_all_iff)
  with assms(1) show ?thesis
    by (auto simp: remaining_def cool_config_ok_def max_def split: option.splits)
qed

section \<open>Runs\<close>

datatype cool_op = Strike string bool time | Remaining "string option" bool time

fun cool_time :: "cool_op \<Rightarrow> time" where
  "cool_time (Strike _ _ t) = t"
| "cool_time (Remaining _ _ t) = t"

fun cool_apply :: "cool_config \<Rightarrow> cool_op \<Rightarrow> cool_entries \<Rightarrow> cool_entries" where
  "cool_apply c (Strike k a t) entries = snd (strike c entries k a t)"
| "cool_apply c (Remaining k a t) entries = snd (remaining c entries k a t)"

lemma cool_run_inv:
  assumes "cool_config_ok c"
  shows "cool_inv c t entries \<Longrightarrow> sorted (t # map cool_time ops @ [now]) \<Longrightarrow>
    cool_inv c now (fold (cool_apply c) ops entries)"
proof (induction ops arbitrary: t entries)
  case Nil
  then show ?case by (auto intro: cool_inv_later)
next
  case (Cons x ops)
  then have "cool_inv c (cool_time x) entries" by (auto intro: cool_inv_later)
  then have "cool_inv c (cool_time x) (cool_apply c x entries)"
    by (cases x) (simp_all add: strike_inv [OF assms] remaining_inv)
  with Cons show ?case by simp
qed

text \<open>The backoffs of consecutive strikes on one key.\<close>

fun strike_run ::
  "cool_config \<Rightarrow> cool_entries \<Rightarrow> string \<Rightarrow> (bool \<times> time) list \<Rightarrow> int list \<times> cool_entries" where
  "strike_run c entries key [] = ([], entries)"
| "strike_run c entries key ((a, t) # ts) =
     (case strike c entries key a t of (b, entries1) \<Rightarrow>
      case strike_run c entries1 key ts of (bs, entries2) \<Rightarrow> (b # bs, entries2))"

text \<open>Every strike comes before the entry of the previous one is stale.\<close>

fun escalating :: "cool_config \<Rightarrow> time \<Rightarrow> nat \<Rightarrow> (bool \<times> time) list \<Rightarrow> bool" where
  "escalating c u n [] = True"
| "escalating c u n ((_, t) # ts) \<longleftrightarrow>
     t - u \<le> resetMs c \<and> escalating c (t + backoff c (n + 1)) (n + 1) ts"

lemma strike_run_backoffs:
  assumes "cool_config_ok c"
  shows "jm_wf entries \<Longrightarrow> jm_get entries key = Some e \<Longrightarrow> escalating c (until e) (strikes e) ts \<Longrightarrow>
    fst (strike_run c entries key ts) = map (\<lambda>i. backoff c (strikes e + i + 1)) [0..<length ts]"
proof (induction ts arbitrary: entries e)
  case Nil
  then show ?case by simp
next
  case (Cons x ts)
  obtain a t where x: "x = (a, t)" by (cases x)
  define e1 where "e1 = struck_entry c (Some e) a t"
  have fresh: "\<not> stale_entry c t e" using Cons.prems x by (simp add: stale_entry_def)
  then have e1: "strikes e1 = strikes e + 1" "until e1 = t + backoff c (strikes e + 1)"
    by (simp_all add: e1_def struck_entry_def Let_def)
  obtain b entries1 where s: "strike c entries key a t = (b, entries1)" by fastforce
  have b: "b = backoff c (strikes e + 1)"
    using s e1 Cons.prems(2) by (simp add: strike_written e1_def)
  have "jm_get entries1 key = Some e1"
    using strike_get [OF assms Cons.prems(1), of key a t] s Cons.prems(2) by (simp add: e1_def)
  moreover have "jm_wf entries1"
    using s sweep_props(1) [OF wf_struck [OF Cons.prems(1)]] by (auto simp: strike_written)
  moreover have "escalating c (until e1) (strikes e1) ts" using Cons.prems(3) x e1 by simp
  ultimately have "fst (strike_run c entries1 key ts) = map (\<lambda>i. backoff c (strikes e + i + 2)) [0..<length ts]"
    using Cons.IH [of entries1 e1] e1 by (simp add: add.commute add.left_commute)
  then show ?case
    using x s b map_Suc_upt [of 0 "length ts", symmetric]
    by (simp add: case_prod_beta upt_conv_Cons o_def del: upt_Suc map_Suc_upt)
qed

lemma digest_shape: "class_repeat hex_char 16 16 (digest s)"
proof -
  have "class_repeat hex_char 8 8 (pad_start 8 (to_hex (unat (w :: 32 word))))" for w
    using unsigned_less [of w] by (intro hex_padded) simp_all
  then have w: "length (pad_start 8 (to_hex (unat (w :: 32 word)))) = 8"
    "list_all hex_char (pad_start 8 (to_hex (unat w)))" for w
    by (auto simp: class_repeat_def intro: antisym)
  show ?thesis
    using w by (auto simp: digest_def class_repeat_def split: prod.splits)
qed

lemma socketIdentity_keyed:
  "k \<noteq> [] \<Longrightarrow> socketIdentity (JStr r) (JStr k) role s = Some (take 16 r @ ''|k|'' @ take 32 k)"
  by (simp add: socketIdentity_def)

lemma prefix_mark:
  "16 \<le> length r \<Longrightarrow> 16 \<le> length r' \<Longrightarrow>
     take 16 r @ x = take 16 r' @ y \<longleftrightarrow> take 16 r = take 16 r' \<and> x = y"
  by (rule append_eq_append_conv) simp

section \<open>Properties\<close>

text \<open>Consecutive policy closes of one identity, each before the cool-down of the one before
  it has been over for the reset time, back off for base, twice base, four times base and so on,
  up to the cap.\<close>

theorem strikes_double:
  assumes "cool_config_ok c" "jm_wf entries" "jm_get entries key = None"
    and "escalating c (t + backoff c 1) 1 ts"
  shows "fst (strike_run c entries key ((a, t) # ts)) =
    map (\<lambda>i. min (maxMs c) (baseMs c * 2 ^ min i 30)) [0..<Suc (length ts)]"
proof -
  define e where "e = struck_entry c None a t"
  have e: "strikes e = 1" "until e = t + backoff c 1"
    by (simp_all add: e_def struck_entry_def Let_def)
  obtain b es where s: "strike c entries key a t = (b, es)" by fastforce
  have b: "b = backoff c 1" using s e assms(3) by (simp add: strike_written e_def)
  have "jm_get es key = Some e" using strike_get [OF assms(1,2), of key a t] s assms(3) by (simp add: e_def)
  moreover have "jm_wf es" using s sweep_props(1) [OF wf_struck [OF assms(2)]] by (auto simp: strike_written)
  ultimately have "fst (strike_run c es key ts) = map (\<lambda>i. backoff c (i + 2)) [0..<length ts]"
    using strike_run_backoffs [OF assms(1), of es key e ts] assms(4) e by (simp add: add.commute)
  then show ?thesis
    using s b map_Suc_upt [of 0 "length ts", symmetric]
    by (simp add: case_prod_beta upt_conv_Cons o_def backoff_def del: upt_Suc map_Suc_upt)
qed

text \<open>C11: a strike is enforced: until its backoff is over, the remaining cool-down of the
  identity is the rest of the backoff and the registry is unchanged by asking, unless the close
  was an admission close and the socket has been admitted since.\<close>

theorem strike_enforced:
  assumes "cool_config_ok c" "jm_wf entries" "key \<noteq> []"
    and "strike c entries key admission now = (b, es)"
    and "now \<le> t" "t \<le> now + b" "\<not> (admitted \<and> admission)"
  shows "remaining c es (Some key) admitted t = (now + b - t, es)"
proof -
  let ?e = "struck_entry c (jm_get entries key) admission now"
  have g: "jm_get es key = Some ?e" using strike_get [OF assms(1,2), of key admission now] assms(4) by simp
  have u: "until ?e = now + b" using assms(4) by (simp add: struck_until strike_written)
  have "\<not> (admitted \<and> admissionOnly ?e)" using assms(7) by (auto simp: struck_entry_def Let_def)
  moreover have "\<not> stale_entry c t ?e" using u assms(1,6) by (simp add: stale_entry_def cool_config_ok_def)
  ultimately show ?thesis using g u assms(3,6) by (auto simp: remaining_def)
qed

text \<open>from an empty registry, whatever strikes and queries came before at times that do not
  go back, the registry holds at most its maximal number of entries, one for each key, and every
  remaining cool-down lies between zero and the cap.\<close>

theorem cool_down_bounded:
  assumes "cool_config_ok c" and "sorted (map cool_time ops @ [now])"
  shows "length (fold (cool_apply c) ops []) \<le> maxEntries c
    \<and> jm_wf (fold (cool_apply c) ops [])
    \<and> 0 \<le> fst (remaining c (fold (cool_apply c) ops []) key admitted now)
    \<and> fst (remaining c (fold (cool_apply c) ops []) key admitted now) \<le> maxMs c"
proof -
  define t where "t = hd (map cool_time ops @ [now])"
  have "sorted (t # map cool_time ops @ [now])"
    using assms(2) by (cases ops) (auto simp: t_def)
  then have "cool_inv c now (fold (cool_apply c) ops [])"
    by (rule cool_run_inv [OF assms(1), of t "[]", rotated]) (simp add: cool_inv_def)
  with remaining_bounded [OF assms(1) this, of key admitted] show ?thesis
    by (simp add: cool_inv_def)
qed

text \<open>Sockets with a public-key digest share a cool-down identity exactly when the first 16
  digits of the room and the first 32 of the key digest agree, and no socket without a digest
  shares theirs: a strike against one never cools down the others.\<close>

theorem identity_separation:
  assumes "validRoom (JStr r)" "validRoom (JStr r')" "validRecipientKeyId (JStr k)"
    "validRecipientKeyId (JStr k')"
  shows "(socketIdentity (JStr r) (JStr k) role s = socketIdentity (JStr r') (JStr k') role' s'
      \<longleftrightarrow> take 16 r = take 16 r' \<and> take 32 k = take 32 k')
    \<and> socketIdentity (JStr r) (JStr k) role s \<noteq> socketIdentity (JStr r') JUndefined role' s'"
proof -
  have len: "16 \<le> length r" "16 \<le> length r'" "k \<noteq> []" "k' \<noteq> []"
    using assms by (auto simp: class_repeat_def is_hex64_def)
  then show ?thesis by (auto simp: socketIdentity_def prefix_mark)
qed

theorem strikes_double_witness:
  "fst (strike_run default_cool_down [] ''id'' [(True, 0), (True, 6000), (False, 20000)])
     = [5000, 10000, 20000]"
  using strikes_double [of default_cool_down "[]" "''id''" 0 "[(True, 6000), (False, 20000)]" True]
  by (simp add: default_cool_down_def cool_config_ok_def backoff_def upt_rec)

theorem strike_enforced_witness:
  "remaining default_cool_down (snd (strike default_cool_down [] ''id'' False 1000)) (Some ''id'') True 2500
     = (3500, snd (strike default_cool_down [] ''id'' False 1000))"
proof -
  have "strike default_cool_down [] ''id'' False 1000 =
      (5000, snd (strike default_cool_down [] ''id'' False 1000))"
    by (simp add: strike_def struck_entry_def Let_def backoff_def default_cool_down_def)
  from strike_enforced [OF _ _ _ this, of 2500 True] show ?thesis
    by (simp add: default_cool_down_def cool_config_ok_def)
qed

theorem cool_down_bounded_witness:
  "fst (remaining default_cool_down (fold (cool_apply default_cool_down)
      [Strike ''id'' True 0, Remaining (Some ''id'') True 10] []) (Some ''id'') False 20) \<le> 300000"
  using cool_down_bounded [of default_cool_down "[Strike ''id'' True 0, Remaining (Some ''id'') True 10]"
      20 "Some ''id''" False]
  by (simp add: default_cool_down_def cool_config_ok_def)

theorem identity_separation_witness:
  "socketIdentity (JStr (replicate 16 CHR ''a'')) (JStr (replicate 64 CHR ''b'')) JUndefined JUndefined
     \<noteq> socketIdentity (JStr (replicate 16 CHR ''a'')) JUndefined (JStr ''phone'') (JStr ''x'')"
  using identity_separation [of "replicate 16 CHR ''a''" "replicate 16 CHR ''a''" "replicate 64 CHR ''b''"
      "replicate 64 CHR ''b''" JUndefined JUndefined "JStr ''phone''" "JStr ''x''"]
  by (auto simp: is_hex64_def hex_char_def char_between_def)

end
