(* ===== verification/Connection_Policy.thy ===== *)
theory Connection_Policy
  imports Cool_Down Submission_Receipts
begin

text \<open>
  The connection policy shared by both runtimes (\<open>src/relay/connectionPolicy.js\<close>), the Durable
  Object's use of it (\<open>src/relay/roomSockets.js\<close>), the Node relay's (\<open>src/node/socket-policy.js\<close>)
  and the transport receipts of \<open>src/ingressFlow/index.js\<close>. Shows: the frame window never refuses
  a sender that stays within the limit and never accepts more than twice the limit in a second; a
  close announces a delay that is long enough and is enforced until then; what happens to a frame
  is decided by the result of its storage.
\<close>

section \<open>Closes and outcomes\<close>

datatype close_token =
    Admission_expired
  | Admission_required
  | Hub_admission_required
  | Admission_renewal_rejected
  | Cool_down_token
  | Rate_limit
  | Oversize_token

fun token_text :: "close_token \<Rightarrow> string" where
  "token_text Admission_expired = ''admission-expired''"
| "token_text Admission_required = ''admission-required''"
| "token_text Hub_admission_required = ''hub-admission-required''"
| "token_text Admission_renewal_rejected = ''admission-renewal-rejected''"
| "token_text Cool_down_token = ''cool-down''"
| "token_text Rate_limit = ''rate-limit''"
| "token_text Oversize_token = ''oversize''"

record close_policy =
  p_code :: nat
  p_coolDown :: bool
  p_admission :: bool

fun CLOSE_POLICIES :: "close_token \<Rightarrow> close_policy" where
  "CLOSE_POLICIES Admission_expired = \<lparr>p_code = 4401, p_coolDown = True, p_admission = True\<rparr>"
| "CLOSE_POLICIES Admission_required = \<lparr>p_code = 4403, p_coolDown = True, p_admission = True\<rparr>"
| "CLOSE_POLICIES Hub_admission_required = \<lparr>p_code = 4406, p_coolDown = True, p_admission = True\<rparr>"
| "CLOSE_POLICIES Admission_renewal_rejected = \<lparr>p_code = 4409, p_coolDown = True, p_admission = True\<rparr>"
| "CLOSE_POLICIES Cool_down_token = \<lparr>p_code = 4425, p_coolDown = False, p_admission = False\<rparr>"
| "CLOSE_POLICIES Rate_limit = \<lparr>p_code = 4429, p_coolDown = True, p_admission = False\<rparr>"
| "CLOSE_POLICIES Oversize_token = \<lparr>p_code = 1009, p_coolDown = True, p_admission = False\<rparr>"

text \<open>\<open>String(n)\<close> of a natural number.\<close>

fun to_decimal :: "nat \<Rightarrow> string" where
  "to_decimal n = (if n < 10 then [hex_digit n] else to_decimal (n div 10) @ [hex_digit (n mod 10)])"

declare to_decimal.simps [simp del]

text \<open>\<open>retryAfterSeconds > 0\<close> is false for \<open>undefined\<close>.\<close>

definition closeReason :: "close_token \<Rightarrow> int option \<Rightarrow> string" where
  "closeReason token retryAfter = (case retryAfter of
       Some s \<Rightarrow> if s > 0 then token_text token @ ''; retry-after='' @ to_decimal (nat s) else token_text token
     | None \<Rightarrow> token_text token)"

definition admissionCloseToken :: "js \<Rightarrow> close_token" where
  "admissionCloseToken envelope =
     (if is_string (field ''senderId'' envelope)
         \<and> starts_with ''hub-'' (str_of (field ''senderId'' envelope))
      then Hub_admission_required else Admission_required)"

datatype queue_outcome = Forward | Drop string | Close close_token

definition queueOutcome :: "queue_result \<Rightarrow> string option \<Rightarrow> queue_outcome" where
  "queueOutcome result deliveryId =
     (if result = STORED \<or> result = DUPLICATE then Forward
      else if result = OVERSIZE then
        (if isDurableSubmission deliveryId then Drop ''oversize'' else Close Oversize_token)
      else if result = FULL then Drop ''full''
      else Drop (if result = NO_ROOM then ''no-room'' else ''expired''))"

definition droppedNotice :: "js \<Rightarrow> string \<Rightarrow> js" where
  "droppedNotice deliveryId reason = JObj [(''type'', JStr ''relay.dropped''),
     (''deliveryId'', deliveryId), (''reason'', JStr reason)]"

section \<open>The frame window\<close>

definition MAX_SOCKET_MESSAGES_PER_SECOND :: nat where "MAX_SOCKET_MESSAGES_PER_SECOND = 300"

text \<open>\<open>None\<close> is the start \<open>-Infinity\<close> of a socket that has not sent a frame.\<close>

record frame_window =
  windowStartedAt :: "time option"
  windowMessages :: nat

definition window_open :: "frame_window \<Rightarrow> time \<Rightarrow> bool" where
  "window_open w now = (case windowStartedAt w of None \<Rightarrow> False | Some s \<Rightarrow> now - s < 1000)"

definition acceptSocketFrame :: "frame_window \<Rightarrow> time \<Rightarrow> nat \<Rightarrow> bool \<times> frame_window" where
  "acceptSocketFrame w now limit =
     (let w1 = (if \<not> window_open w now then \<lparr>windowStartedAt = Some now, windowMessages = 0\<rparr> else w);
          w2 = w1\<lparr>windowMessages := windowMessages w1 + 1\<rparr>
      in (windowMessages w2 \<le> limit, w2))"

section \<open>Transport receipts\<close>

definition INGRESS_WINDOW :: int where "INGRESS_WINDOW = 64"
definition RECEIPT_EVERY :: nat where "RECEIPT_EVERY = 16"

definition ingressCapabilities :: "bool \<Rightarrow> (string \<times> js) list" where
  "ingressCapabilities enabled = (if enabled then [(''ingressWindow'', JInt INGRESS_WINDOW)] else [])"

text \<open>\<open>noteIngressFrame\<close> on the socket's flow flag and counter: the new counter, which is saved,
  and the receipt that is sent.\<close>

definition noteIngressFrame :: "bool \<Rightarrow> nat option \<Rightarrow> nat option \<times> js list" where
  "noteIngressFrame ingressFlow received =
     (if \<not> ingressFlow then (received, [])
      else let n = (case received of None \<Rightarrow> 0 | Some k \<Rightarrow> k) + 1 in
        (Some n, if n mod RECEIPT_EVERY \<noteq> 0 then []
                 else [JObj [(''type'', JStr ''relay.ingress''), (''received'', JInt (int n))]]))"

section \<open>Closing a socket\<close>

text \<open>A close frame, the announced delay in seconds and the diagnostic the logger receives.\<close>

record policy_close =
  c_code :: nat
  c_reason :: string
  c_retryAfter :: "int option"
  c_log :: "(string \<times> js) list"

text \<open>\<open>Math.ceil(ms / 1_000)\<close> of an integral number of milliseconds.\<close>

definition ceil_seconds :: "int \<Rightarrow> int" where
  "ceil_seconds ms = (ms + 999) div 1000"

definition log_fields :: "js \<Rightarrow> js \<Rightarrow> nat \<Rightarrow> string \<Rightarrow> int option \<Rightarrow> (string \<times> js) list" where
  "log_fields room role code reason retryAfter = [(''room'', room), (''role'', role),
     (''code'', JInt (int code)), (''reason'', JStr reason),
     (''retryAfter'', (case retryAfter of None \<Rightarrow> JUndefined | Some s \<Rightarrow> JInt s))]"

text \<open>
  \<open>applyPolicyClose\<close>. \<open>coolDowns\<close> is \<open>None\<close> when the socket has no registry; \<open>identity\<close> is
  \<open>None\<close> when it is unknown. The result also holds the registry after the strike.
\<close>

definition applyPolicyClose ::
  "cool_config \<Rightarrow> close_token \<Rightarrow> js \<Rightarrow> js \<Rightarrow> string option \<Rightarrow> cool_entries option \<Rightarrow> time
     \<Rightarrow> policy_close \<times> cool_entries option" where
  "applyPolicyClose c token room role identity coolDowns now =
     (let policy = CLOSE_POLICIES token;
          (backoffMs, coolDowns1) =
            (case (identity, coolDowns) of
               (Some key, Some entries) \<Rightarrow>
                  if p_coolDown policy \<and> key \<noteq> [] then
                    (case strike c entries key (p_admission policy) now of (b, es) \<Rightarrow> (b, Some es))
                  else (0, coolDowns)
             | _ \<Rightarrow> (0, coolDowns));
          retryAfter = (if backoffMs > 0 then Some (ceil_seconds backoffMs) else None)
      in (\<lparr>c_code = p_code policy, c_reason = closeReason token retryAfter, c_retryAfter = retryAfter,
           c_log = log_fields room role (p_code policy) (token_text token) retryAfter\<rparr>, coolDowns1))"

definition refuseCoolingFrame :: "js \<Rightarrow> js \<Rightarrow> int \<Rightarrow> policy_close" where
  "refuseCoolingFrame room role remainingMs =
     (let retryAfter = max 1 (ceil_seconds remainingMs); code = p_code (CLOSE_POLICIES Cool_down_token)
      in \<lparr>c_code = code, c_reason = closeReason Cool_down_token (Some retryAfter),
          c_retryAfter = Some retryAfter,
          c_log = log_fields room role code ''cool-down'' (Some retryAfter)\<rparr>)"

section \<open>The Durable Object's sockets\<close>

text \<open>The attachment of a hibernatable socket.\<close>

record attachment =
  a_room :: string
  a_recipientKeyId :: "string option"
  a_role :: "role option"
  a_relayControl :: bool
  a_presenceEnabled :: bool
  a_taskDispatch :: bool
  a_ingressFlow :: bool
  a_ingressReceived :: "nat option"

fun role_js :: "role \<Rightarrow> js" where
  "role_js Machine = JStr ''machine''"
| "role_js Phone = JStr ''phone''"

definition opt_js :: "string option \<Rightarrow> js" where
  "opt_js v = (case v of None \<Rightarrow> JUndefined | Some s \<Rightarrow> JStr s)"

text \<open>The in-memory state of a room: the registry and, for each socket, its window and identity.\<close>

record socket_local =
  l_window :: frame_window
  l_identity :: "string option"

record room_policy =
  rp_coolDowns :: cool_entries
  rp_sockets :: "nat \<rightharpoonup> socket_local"

definition ROOM_COOL_DOWN_ENTRIES :: nat where "ROOM_COOL_DOWN_ENTRIES = 256"

definition room_cool_down :: cool_config where
  "room_cool_down = default_cool_down\<lparr>maxEntries := ROOM_COOL_DOWN_ENTRIES\<rparr>"

definition initializeRoomSocketPolicy :: room_policy where
  "initializeRoomSocketPolicy = \<lparr>rp_coolDowns = [], rp_sockets = Map.empty\<rparr>"

definition socketState :: "room_policy \<Rightarrow> nat \<Rightarrow> socket_local \<times> room_policy" where
  "socketState rp ws = (case rp_sockets rp ws of
       Some l \<Rightarrow> (l, rp)
     | None \<Rightarrow>
        (let l = \<lparr>l_window = \<lparr>windowStartedAt = None, windowMessages = 0\<rparr>, l_identity = None\<rparr>
         in (l, rp\<lparr>rp_sockets := (rp_sockets rp)(ws \<mapsto> l)\<rparr>)))"

definition acceptRoomFrame :: "room_policy \<Rightarrow> nat \<Rightarrow> time \<Rightarrow> bool \<times> room_policy" where
  "acceptRoomFrame rp ws now = (case socketState rp ws of (l, rp1) \<Rightarrow>
     case acceptSocketFrame (l_window l) now MAX_SOCKET_MESSAGES_PER_SECOND of (ok, w) \<Rightarrow>
       (ok, rp1\<lparr>rp_sockets := (rp_sockets rp1)(ws \<mapsto> l\<lparr>l_window := w\<rparr>)\<rparr>))"

text \<open>\<open>coolingUpgradeResponse\<close>: the delay of the 429 response, or \<open>None\<close> to go on.\<close>

definition coolingUpgradeResponse :: "room_policy \<Rightarrow> js \<Rightarrow> js \<Rightarrow> time \<Rightarrow> int option \<times> room_policy" where
  "coolingUpgradeResponse rp room recipientKeyId now =
     (case remaining room_cool_down (rp_coolDowns rp) (upgradeIdentity room recipientKeyId) False now of
        (waitMs, entries) \<Rightarrow>
          (if waitMs \<le> 0 then None else Some (max 1 (ceil_seconds waitMs)), rp\<lparr>rp_coolDowns := entries\<rparr>))"

definition frameIdentity :: "attachment \<Rightarrow> js \<Rightarrow> string option" where
  "frameIdentity known envelope = socketIdentity (JStr (a_room known)) (opt_js (a_recipientKeyId known))
     (case a_role known of Some r \<Rightarrow> role_js r | None \<Rightarrow> field ''from'' envelope)
     (field ''senderId'' envelope)"

definition closeRoomSocket ::
  "room_policy \<Rightarrow> nat \<Rightarrow> attachment \<Rightarrow> close_token \<Rightarrow> js \<Rightarrow> time \<Rightarrow> policy_close \<times> room_policy" where
  "closeRoomSocket rp ws known token envelope now = (case socketState rp ws of (l, rp1) \<Rightarrow>
     case applyPolicyClose room_cool_down token (JStr (a_room known))
            (case a_role known of Some r \<Rightarrow> role_js r | None \<Rightarrow> field ''from'' envelope)
            (case l_identity l of Some i \<Rightarrow> Some i | None \<Rightarrow> frameIdentity known envelope)
            (Some (rp_coolDowns rp1)) now of
       (frame, entries) \<Rightarrow> (frame, rp1\<lparr>rp_coolDowns := the entries\<rparr>))"

definition refuseCoolingRoomSocket ::
  "room_policy \<Rightarrow> attachment \<Rightarrow> js \<Rightarrow> time \<Rightarrow> policy_close option \<times> room_policy" where
  "refuseCoolingRoomSocket rp known envelope now =
     (case remaining room_cool_down (rp_coolDowns rp) (frameIdentity known envelope) False now of
        (remainingMs, entries) \<Rightarrow>
          (if remainingMs \<le> 0 then None
           else Some (refuseCoolingFrame (JStr (a_room known)) (field ''from'' envelope) remainingMs),
           rp\<lparr>rp_coolDowns := entries\<rparr>))"

definition registerRoomSocketIdentity :: "room_policy \<Rightarrow> nat \<Rightarrow> attachment \<Rightarrow> js \<Rightarrow> room_policy" where
  "registerRoomSocketIdentity rp ws known envelope = (case socketState rp ws of (l, rp1) \<Rightarrow>
     rp1\<lparr>rp_sockets := (rp_sockets rp1)(ws \<mapsto> l\<lparr>l_identity := frameIdentity known envelope\<rparr>)\<rparr>)"

text \<open>\<open>dropRoomMessage\<close>: the notice for the sender, if it negotiated control frames.\<close>

definition dropRoomMessage :: "attachment \<Rightarrow> js \<Rightarrow> string \<Rightarrow> js option" where
  "dropRoomMessage known envelope reason =
     (if \<not> a_relayControl known \<or> \<not> truthy (field ''deliveryId'' envelope) then None
      else Some (droppedNotice (field ''deliveryId'' envelope) reason))"

section \<open>The Node relay's sockets\<close>

text \<open>The part of \<open>ws.relayState\<close> the policy reads: the expiry of the admission ticket, if the
  socket has one, and the identity fixed at the upgrade or by the first frame.\<close>

record node_socket =
  n_room :: string
  n_role :: "role option"
  n_recipientKeyId :: "string option"
  n_identity :: "string option"
  n_ticketExpiresAt :: "time option"
  n_open :: bool
  n_policyClose :: bool

definition admittedSocket :: "node_socket \<Rightarrow> time \<Rightarrow> bool" where
  "admittedSocket s now = (case n_ticketExpiresAt s of None \<Rightarrow> False | Some t \<Rightarrow> t > now)"

definition identityOf :: "node_socket \<Rightarrow> js \<Rightarrow> string option" where
  "identityOf s envelope = (case n_identity s of
       Some i \<Rightarrow> Some i
     | None \<Rightarrow> socketIdentity (JStr (n_room s)) (opt_js (n_recipientKeyId s))
         (case n_role s of Some r \<Rightarrow> role_js r | None \<Rightarrow> field ''from'' envelope)
         (field ''senderId'' envelope))"

text \<open>\<open>ws.close\<close> leaves the \<open>OPEN\<close> state, so a second close is ignored.\<close>

definition closeForPolicy ::
  "cool_config \<Rightarrow> node_socket \<Rightarrow> cool_entries \<Rightarrow> close_token \<Rightarrow> js \<Rightarrow> time
     \<Rightarrow> policy_close option \<times> node_socket \<times> cool_entries" where
  "closeForPolicy c s entries token envelope now =
     (if \<not> n_open s then (None, s, entries)
      else case applyPolicyClose c token (JStr (n_room s))
             (case n_role s of Some r \<Rightarrow> role_js r | None \<Rightarrow> field ''from'' envelope)
             (identityOf s envelope) (Some entries) now of
        (frame, es) \<Rightarrow> (Some frame, s\<lparr>n_policyClose := True, n_open := False\<rparr>, the es))"

definition refuseCoolingSocket ::
  "cool_config \<Rightarrow> node_socket \<Rightarrow> cool_entries \<Rightarrow> js \<Rightarrow> time
     \<Rightarrow> policy_close option \<times> node_socket \<times> cool_entries" where
  "refuseCoolingSocket c s entries envelope now =
     (case remaining c entries (identityOf s envelope) (admittedSocket s now) now of
        (remainingMs, es) \<Rightarrow>
          if remainingMs \<le> 0 then (None, s, es)
          else (Some (refuseCoolingFrame (JStr (n_room s)) (field ''from'' envelope) remainingMs),
                s\<lparr>n_open := False\<rparr>, es))"

section \<open>The window over a sequence of frames\<close>

fun accept_run :: "frame_window \<Rightarrow> nat \<Rightarrow> time list \<Rightarrow> (time \<times> bool) list" where
  "accept_run w limit [] = []"
| "accept_run w limit (t # ts) =
     (case acceptSocketFrame w t limit of (ok, w1) \<Rightarrow> (t, ok) # accept_run w1 limit ts)"

text \<open>The frames accepted in the second from \<open>x\<close>.\<close>

definition accepted_from :: "time \<Rightarrow> (time \<times> bool) list \<Rightarrow> nat" where
  "accepted_from x fs = length (filter (\<lambda>(t, ok). ok \<and> x \<le> t \<and> t < x + 1000) fs)"

lemma accepted_from_simps [simp]:
  "accepted_from x [] = 0"
  "accepted_from x ((t, ok) # fs) =
     (if ok \<and> x \<le> t \<and> t < x + 1000 then 1 else 0) + accepted_from x fs"
  by (simp_all add: accepted_from_def)

lemma acceptSocketFrame_new:
  "\<not> window_open w t \<Longrightarrow>
     acceptSocketFrame w t limit = (1 \<le> limit, \<lparr>windowStartedAt = Some t, windowMessages = 1\<rparr>)"
  by (simp add: acceptSocketFrame_def Let_def)

lemma acceptSocketFrame_same:
  "window_open w t \<Longrightarrow> acceptSocketFrame w t limit =
     (windowMessages w + 1 \<le> limit, w\<lparr>windowMessages := windowMessages w + 1\<rparr>)"
  by (simp add: acceptSocketFrame_def Let_def)

lemma accepted_late: "\<forall>t \<in> set ts. x + 1000 \<le> t \<Longrightarrow> accepted_from x (accept_run w limit ts) = 0"
  by (induction ts arbitrary: w) (auto split: prod.splits)

text \<open>A window that started at or after \<open>x\<close> covers the rest of the second.\<close>

lemma accepted_one_window:
  "sorted ts \<Longrightarrow> windowStartedAt w = Some s \<Longrightarrow> x \<le> s \<Longrightarrow>
     accepted_from x (accept_run w limit ts) \<le> limit - windowMessages w"
proof (induction ts arbitrary: w)
  case (Cons t ts)
  show ?case
  proof (cases "t < x + 1000")
    case True
    with Cons.prems have "window_open w t" by (simp add: window_open_def)
    moreover have "accepted_from x (accept_run (w\<lparr>windowMessages := windowMessages w + 1\<rparr>) limit ts)
        \<le> limit - (windowMessages w + 1)"
      using Cons.IH [of "w\<lparr>windowMessages := windowMessages w + 1\<rparr>"] Cons.prems by simp
    ultimately show ?thesis by (auto simp: acceptSocketFrame_same)
  next
    case False
    with Cons.prems(1) have "\<forall>u \<in> set (t # ts). x + 1000 \<le> u" by auto
    from accepted_late [OF this, of w limit] show ?thesis by simp
  qed
qed simp

lemma accepted_two_windows:
  "sorted ts \<Longrightarrow> \<forall>t \<in> set ts. x \<le> t \<Longrightarrow>
     accepted_from x (accept_run w limit ts) \<le> (limit - windowMessages w) + limit"
proof (induction ts arbitrary: w)
  case (Cons t ts)
  show ?case
  proof (cases "window_open w t")
    case True
    then show ?thesis
      using Cons.IH [of "w\<lparr>windowMessages := windowMessages w + 1\<rparr>"] Cons.prems
      by (auto simp: acceptSocketFrame_same)
  next
    case False
    then show ?thesis
      using accepted_one_window [of ts "\<lparr>windowStartedAt = Some t, windowMessages = 1\<rparr>" t x limit]
        Cons.prems by (auto simp: acceptSocketFrame_new)
  qed
qed simp

lemma accepted_any: "sorted ts \<Longrightarrow> accepted_from x (accept_run w limit ts) \<le> 2 * limit"
proof (induction ts arbitrary: w)
  case (Cons t ts)
  show ?case
  proof (cases "x \<le> t")
    case True
    with Cons.prems have "\<forall>u \<in> set (t # ts). x \<le> u" by auto
    from accepted_two_windows [OF Cons.prems this, of w limit] show ?thesis by simp
  next
    case False
    then show ?thesis using Cons.IH Cons.prems by (simp split: prod.splits)
  qed
qed simp

text \<open>The frames of the current window are within the second from its start.\<close>

lemma accepts_all:
  "sorted ts \<Longrightarrow> windowStartedAt w = Some s \<Longrightarrow> \<forall>t \<in> set ts. s \<le> t \<Longrightarrow>
   windowMessages w + length (filter (\<lambda>t. t < s + 1000) ts) \<le> limit \<Longrightarrow>
   \<forall>x. length (filter (\<lambda>t. x \<le> t \<and> t < x + 1000) ts) \<le> limit \<Longrightarrow>
   list_all snd (accept_run w limit ts)"
proof (induction ts arbitrary: w s)
  case (Cons t ts)
  have rest: "\<forall>x. length (filter (\<lambda>t. x \<le> t \<and> t < x + 1000) ts) \<le> limit"
    using Cons.prems(5) by (auto split: if_splits intro: Suc_leD)
  show ?case
  proof (cases "window_open w t")
    case True
    with Cons.prems have "t < s + 1000" by (simp add: window_open_def)
    with Cons.prems True rest show ?thesis
      using Cons.IH [of "w\<lparr>windowMessages := windowMessages w + 1\<rparr>" s]
      by (auto simp: acceptSocketFrame_same)
  next
    case False
    have "length (filter (\<lambda>u. t \<le> u \<and> u < t + 1000) (t # ts)) \<le> limit" using Cons.prems(5) by blast
    moreover have "filter (\<lambda>u. t \<le> u \<and> u < t + 1000) ts = filter (\<lambda>u. u < t + 1000) ts"
      using Cons.prems(1) by (intro filter_cong) auto
    ultimately have n: "1 + length (filter (\<lambda>u. u < t + 1000) ts) \<le> limit" by simp
    then have "list_all snd (accept_run \<lparr>windowStartedAt = Some t, windowMessages = 1\<rparr> limit ts)"
      using Cons.IH [of "\<lparr>windowStartedAt = Some t, windowMessages = 1\<rparr>" t] Cons.prems(1) rest by auto
    with False n show ?thesis by (simp add: acceptSocketFrame_new)
  qed
qed simp

section \<open>Cool-down of a closed socket\<close>

lemma ceil_seconds_bounds:
  assumes "0 < b"
  shows "1 \<le> ceil_seconds b \<and> b \<le> 1000 * ceil_seconds b \<and> 1000 * (ceil_seconds b - 1) < b"
proof -
  define q where "q = (b + 999) div 1000"
  define r where "r = (b + 999) mod 1000"
  have "1000 * q + r = b + 999" "0 \<le> r" "r < 1000" by (simp_all add: q_def r_def)
  with assms show ?thesis unfolding ceil_seconds_def q_def [symmetric] by auto
qed

lemma backoff_pos: "0 < baseMs c \<Longrightarrow> 0 < maxMs c \<Longrightarrow> 0 < backoff c n"
  by (simp add: backoff_def)

lemma strike_backoff_pos:
  "0 < baseMs c \<Longrightarrow> 0 < maxMs c \<Longrightarrow> strike c entries key adm now = (b, es) \<Longrightarrow> 0 < b"
  by (auto simp: strike_written backoff_pos)

lemma applyPolicyClose_strike:
  assumes "p_coolDown (CLOSE_POLICIES token)" "key \<noteq> []"
    and "strike c entries key (p_admission (CLOSE_POLICIES token)) now = (b, es)" "0 < b"
  shows "applyPolicyClose c token room role (Some key) (Some entries) now =
    (\<lparr>c_code = p_code (CLOSE_POLICIES token), c_reason = closeReason token (Some (ceil_seconds b)),
      c_retryAfter = Some (ceil_seconds b),
      c_log = log_fields room role (p_code (CLOSE_POLICIES token)) (token_text token) (Some (ceil_seconds b))\<rparr>,
     Some es)"
  using assms by (simp add: applyPolicyClose_def Let_def)

lemma strike_remaining:
  assumes "cool_config_ok c" "jm_wf entries" "key \<noteq> []" "strike c entries key adm now = (b, es)"
  shows "now \<le> t \<Longrightarrow> fst (remaining c es (Some key) False t) = max 0 (now + b - t)"
    "now + b \<le> t \<Longrightarrow> fst (remaining c es (Some key) admitted t) = 0"
proof -
  let ?e = "struck_entry c (jm_get entries key) adm now"
  have "jm_get es key = Some ?e" using strike_get [OF assms(1,2), of key adm now] assms(4) by simp
  moreover have "until ?e = now + b" using assms(4) by (simp add: struck_until strike_written)
  ultimately show "now \<le> t \<Longrightarrow> fst (remaining c es (Some key) False t) = max 0 (now + b - t)"
    "now + b \<le> t \<Longrightarrow> fst (remaining c es (Some key) admitted t) = 0"
    using assms(1,3) by (auto simp: remaining_def stale_entry_def cool_config_ok_def)
qed

section \<open>Receipts over a sequence of frames\<close>

fun ingress_run :: "nat option \<Rightarrow> nat \<Rightarrow> nat option \<times> js list" where
  "ingress_run received 0 = (received, [])"
| "ingress_run received (Suc n) = (case ingress_run received n of (r, sent) \<Rightarrow>
     case noteIngressFrame True r of (r1, receipt) \<Rightarrow> (r1, sent @ receipt))"

lemma ingress_count: "fst (ingress_run None n) = (if n = 0 then None else Some n)"
  by (induction n) (auto simp: noteIngressFrame_def Let_def split: prod.splits)

lemma ingress_receipts:
  "snd (ingress_run None n) = map (\<lambda>k. JObj [(''type'', JStr ''relay.ingress''),
     (''received'', JInt (16 * int k))]) [1..<Suc (n div 16)]"
proof (induction n)
  case (Suc n)
  obtain r sent where run: "ingress_run None n = (r, sent)" by fastforce
  have step: "ingress_run None (Suc n) = (Some (Suc n), sent @ (if Suc n mod 16 \<noteq> 0 then []
      else [JObj [(''type'', JStr ''relay.ingress''), (''received'', JInt (int (Suc n)))]]))"
    using run ingress_count [of n] by (auto simp: noteIngressFrame_def RECEIPT_EVERY_def)
  have div: "Suc n div 16 = (if Suc n mod 16 = 0 then Suc (n div 16) else n div 16)"
    by (simp add: div_Suc)
  have "int (Suc n) = 16 * int (Suc n div 16)" if "Suc n mod 16 = 0"
    using that by (metis add.right_neutral mult_div_mod_eq of_nat_mult of_nat_numeral)
  then show ?case
    using Suc run unfolding step div by auto
qed simp

section \<open>Properties\<close>

text \<open>C24: over any sequence of frames of one socket at times that do not go back, at most twice
  the limit is accepted in any second; and a sender that never sends more than the limit in one
  second is never refused.\<close>

theorem frame_window_correct:
  assumes "sorted ts"
  shows "accepted_from x (accept_run w limit ts) \<le> 2 * limit
    \<and> ((\<forall>y. length (filter (\<lambda>t. y \<le> t \<and> t < y + 1000) ts) \<le> limit) \<longrightarrow>
        list_all snd (accept_run \<lparr>windowStartedAt = None, windowMessages = 0\<rparr> limit ts))"
proof (intro conjI impI)
  show "accepted_from x (accept_run w limit ts) \<le> 2 * limit" by (rule accepted_any [OF assms])
next
  assume few: "\<forall>y. length (filter (\<lambda>t. y \<le> t \<and> t < y + 1000) ts) \<le> limit"
  show "list_all snd (accept_run \<lparr>windowStartedAt = None, windowMessages = 0\<rparr> limit ts)"
  proof (cases ts)
    case (Cons t us)
    let ?w0 = "\<lparr>windowStartedAt = Some t, windowMessages = 0\<rparr>"
    have "filter (\<lambda>u. t \<le> u \<and> u < t + 1000) ts = filter (\<lambda>u. u < t + 1000) ts"
      using assms Cons by (intro filter_cong) auto
    then have "length (filter (\<lambda>u. u < t + 1000) ts) \<le> limit" using few by metis
    then have "list_all snd (accept_run ?w0 limit ts)"
      using accepts_all [OF assms, of ?w0 t limit] assms Cons few by simp
    moreover have "accept_run \<lparr>windowStartedAt = None, windowMessages = 0\<rparr> limit ts = accept_run ?w0 limit ts"
      by (simp add: Cons acceptSocketFrame_def window_open_def)
    ultimately show ?thesis by simp
  qed simp
qed

text \<open>a policy close with a cool-down announces a delay in whole seconds that is exact: the
  identity is still refused one second before it is over, and never after it, whether or not it
  has been admitted since.\<close>

theorem announced_delay_exact:
  assumes "cool_config_ok c" "0 < baseMs c" "0 < maxMs c" "jm_wf entries" "key \<noteq> []"
    and "p_coolDown (CLOSE_POLICIES token)"
    and "applyPolicyClose c token room role (Some key) (Some entries) now = (frame, Some es)"
  shows "\<exists>s \<ge> 1. c_retryAfter frame = Some s
    \<and> c_reason frame = token_text token @ ''; retry-after='' @ to_decimal (nat s)
    \<and> 0 < fst (remaining c es (Some key) False (now + 1000 * (s - 1)))
    \<and> (\<forall>t \<ge> now + 1000 * s. fst (remaining c es (Some key) admitted t) = 0)"
proof -
  obtain b es' where s: "strike c entries key (p_admission (CLOSE_POLICIES token)) now = (b, es')"
    by fastforce
  then have b: "0 < b" by (rule strike_backoff_pos [OF assms(2,3)])
  note applyPolicyClose_strike [OF assms(6,5) s b]
  then have f: "c_retryAfter frame = Some (ceil_seconds b)"
    "c_reason frame = closeReason token (Some (ceil_seconds b))" "es = es'"
    using assms(7) by auto
  note r = ceil_seconds_bounds [OF b] strike_remaining [OF assms(1,4,5) s]
  have "0 < fst (remaining c es (Some key) False (now + 1000 * (ceil_seconds b - 1)))"
    using r f(3) by simp
  moreover have "fst (remaining c es (Some key) admitted t) = 0" if "now + 1000 * ceil_seconds b \<le> t" for t
    using r that f(3) by simp
  ultimately show ?thesis
    using r(1) f by (intro exI [of _ "ceil_seconds b"]) (auto simp: closeReason_def)
qed

text \<open>a socket with a public-key digest that a Durable Object room closes by a policy with a
  cool-down cannot connect again before its backoff is over: the upgrade is answered with 429.\<close>

theorem closed_socket_waits:
  assumes "jm_wf (rp_coolDowns rp)" "a_recipientKeyId known = Some k" "k \<noteq> []"
    and "l_identity (fst (socketState rp ws)) \<in> {None, upgradeIdentity (JStr (a_room known)) (JStr k)}"
    and "p_coolDown (CLOSE_POLICIES token)"
    and "closeRoomSocket rp ws known token envelope now = (frame, rp')"
    and "now \<le> t" "t < now + 5000"
  shows "fst (coolingUpgradeResponse rp' (JStr (a_room known)) (JStr k) t) \<noteq> None"
proof -
  let ?c = room_cool_down
  let ?key = "take 16 (a_room known) @ ''|k|'' @ take 32 k"
  have ok: "cool_config_ok ?c" "0 < baseMs ?c" "0 < maxMs ?c"
    by (simp_all add: cool_config_ok_def room_cool_down_def default_cool_down_def ROOM_COOL_DOWN_ENTRIES_def)
  obtain b es where s: "strike ?c (rp_coolDowns rp) ?key (p_admission (CLOSE_POLICIES token)) now = (b, es)"
    by fastforce
  have b: "0 < b" using s by (rule strike_backoff_pos [OF ok(2,3)])
  have "1 \<le> (2 :: int) ^ n" for n by simp
  then have five: "5000 \<le> b"
    using s by (auto simp: strike_written backoff_def room_cool_down_def default_cool_down_def)
  have "rp_coolDowns rp' = es"
    using assms(2-6) applyPolicyClose_strike [OF assms(5) _ s b]
    by (auto simp: closeRoomSocket_def socketState_def frameIdentity_def opt_js_def
        socketIdentity_keyed Let_def split: option.splits)
  then show ?thesis
    using strike_remaining(1) [OF ok(1) assms(1) _ s, of t] assms(3,7,8) five
    by (auto simp: coolingUpgradeResponse_def case_prod_beta)
qed

text \<open>With flow control a socket gets a cumulative receipt for every sixteenth frame and for
  no other, so a sender with the advertised window of 64 frames always has at least 48 frames
  left beyond what the receipts account for.\<close>

theorem ingress_receipts_exact:
  "snd (ingress_run None n) = map (\<lambda>k. JObj [(''type'', JStr ''relay.ingress''),
       (''received'', JInt (16 * int k))]) [1..<Suc (n div 16)]
   \<and> int n - 16 * int (n div 16) \<le> INGRESS_WINDOW - 48"
proof -
  have "int n - 16 * int (n div 16) \<le> 16" by presburger
  with ingress_receipts [of n] show ?thesis by (simp add: INGRESS_WINDOW_def)
qed

theorem frame_window_correct_witness:
  "accepted_from 0 (accept_run \<lparr>windowStartedAt = None, windowMessages = 0\<rparr> 2 [0, 999, 1000, 1001]) \<le> 4
   \<and> list_all snd (accept_run \<lparr>windowStartedAt = None, windowMessages = 0\<rparr> 4 [0, 999, 1000, 1001])"
proof -
  have "sorted [0, 999, 1000, 1001 :: int]" by simp
  moreover have "\<forall>y. length (filter (\<lambda>t. y \<le> t \<and> t < y + 1000) [0, 999, 1000, 1001 :: int]) \<le> 4"
    by (simp add: order_trans [OF length_filter_le])
  ultimately show ?thesis
    using frame_window_correct [of "[0, 999, 1000, 1001]" 0 "\<lparr>windowStartedAt = None, windowMessages = 0\<rparr>" 2]
      frame_window_correct [of "[0, 999, 1000, 1001]" 0 "\<lparr>windowStartedAt = None, windowMessages = 0\<rparr>" 4]
    by auto
qed

theorem announced_delay_exact_witness:
  "\<exists>s \<ge> 1. c_retryAfter (fst (applyPolicyClose default_cool_down Rate_limit JUndefined JUndefined
      (Some ''id'') (Some []) 0)) = Some s"
proof -
  have "strike default_cool_down [] ''id'' False 0 = (5000, snd (strike default_cool_down [] ''id'' False 0))"
    by (simp add: strike_def struck_entry_def Let_def backoff_def default_cool_down_def)
  then have "snd (applyPolicyClose default_cool_down Rate_limit JUndefined JUndefined (Some ''id'') (Some []) 0)
      = Some (snd (strike default_cool_down [] ''id'' False 0))"
    using applyPolicyClose_strike [of Rate_limit "''id''" default_cool_down "[]" 0] by simp
  then have "applyPolicyClose default_cool_down Rate_limit JUndefined JUndefined (Some ''id'') (Some []) 0
     = (fst (applyPolicyClose default_cool_down Rate_limit JUndefined JUndefined (Some ''id'') (Some []) 0),
        Some (snd (strike default_cool_down [] ''id'' False 0)))"
    by (metis prod.collapse)
  from announced_delay_exact [OF _ _ _ _ _ _ this] show ?thesis
    by (auto simp: default_cool_down_def cool_config_ok_def)
qed

definition sample_attachment :: attachment where
  "sample_attachment = \<lparr>a_room = replicate 16 CHR ''a'', a_recipientKeyId = Some (replicate 64 CHR ''b''),
     a_role = None, a_relayControl = True, a_presenceEnabled = False, a_taskDispatch = False,
     a_ingressFlow = False, a_ingressReceived = None\<rparr>"

theorem closed_socket_waits_witness:
  "fst (coolingUpgradeResponse (snd (closeRoomSocket initializeRoomSocketPolicy 1 sample_attachment
      Rate_limit JUndefined 0)) (JStr (replicate 16 CHR ''a'')) (JStr (replicate 64 CHR ''b'')) 4999) \<noteq> None"
proof -
  have "closeRoomSocket initializeRoomSocketPolicy 1 sample_attachment Rate_limit JUndefined 0 =
     (fst (closeRoomSocket initializeRoomSocketPolicy 1 sample_attachment Rate_limit JUndefined 0),
      snd (closeRoomSocket initializeRoomSocketPolicy 1 sample_attachment Rate_limit JUndefined 0))" by simp
  from closed_socket_waits [OF _ _ _ _ _ this, of "replicate 64 CHR ''b''" 4999] show ?thesis
    by (simp add: initializeRoomSocketPolicy_def sample_attachment_def socketState_def Let_def)
qed

end
