(* ===== verification/Pairing_Mailbox.thy ===== *)
theory Pairing_Mailbox
  imports Relay_Validation
begin

text \<open>
  The single-use pairing mailboxes: the Durable Object \<open>GrantTapCodes\<close>
  (\<open>src/relay/pairingMailbox.js\<close>), one for each mailbox, and the \<open>pairings\<close> table of the Node
  store (\<open>src/node/store.js\<close>) with its handler \<open>handlePairing\<close> (\<open>src/node/server.js\<close>). The locale
  \<open>single_use_mailbox\<close> states the contract against an abstract mailbox; both runtimes are
  interpretations, so every run of either answers like the abstract mailbox, and the two answer
  HTTP requests alike.
\<close>

definition PAIR_TTL_MS :: int where "PAIR_TTL_MS = 900000"
definition MAX_PAIRING_BODY_BYTES :: nat where "MAX_PAIRING_BODY_BYTES = 40000"

lemmas [relay_limits] = PAIR_TTL_MS_def MAX_PAIRING_BODY_BYTES_def

record pairing_item =
  pi_nonce :: string
  pi_box :: string
  pi_expiresAt :: time

section \<open>The Durable Object\<close>

text \<open>The storage of a mailbox: its \<open>pairing\<close> key and the alarm that erases it.\<close>

record codes_state =
  pairing :: "pairing_item option"
  alarm_at :: "time option"

definition codes_put :: "string \<Rightarrow> string \<Rightarrow> time \<Rightarrow> codes_state \<Rightarrow> bool \<times> codes_state" where
  "codes_put nonce box now s =
     (if (case pairing s of None \<Rightarrow> False | Some item \<Rightarrow> pi_expiresAt item > now) then (False, s)
      else (True, s\<lparr>pairing := Some \<lparr>pi_nonce = nonce, pi_box = box, pi_expiresAt = now + PAIR_TTL_MS\<rparr>,
                    alarm_at := Some (now + PAIR_TTL_MS)\<rparr>))"

definition codes_head :: "time \<Rightarrow> codes_state \<Rightarrow> bool" where
  "codes_head now s = (case pairing s of None \<Rightarrow> False | Some item \<Rightarrow> \<not> pi_expiresAt item \<le> now)"

definition codes_get :: "time \<Rightarrow> codes_state \<Rightarrow> (string \<times> string) option \<times> codes_state" where
  "codes_get now s = (case pairing s of
       None \<Rightarrow> (None, s)
     | Some item \<Rightarrow>
         if pi_expiresAt item \<le> now then (None, s\<lparr>pairing := None\<rparr>)
         else (Some (pi_nonce item, pi_box item), s\<lparr>pairing := None\<rparr>))"

definition codes_alarm :: "codes_state \<Rightarrow> codes_state" where
  "codes_alarm s = s\<lparr>pairing := None, alarm_at := None\<rparr>"

text \<open>The path \<open>/pair/<32 hexadecimal digits>\<close>.\<close>

definition pair_mailbox :: "string \<Rightarrow> string option" where
  "pair_mailbox path = (if starts_with ''/pair/'' path \<and> class_repeat hex_char 32 32 (drop 6 path)
     then Some (drop 6 path) else None)"

definition valid_pairing_body :: "js \<Rightarrow> bool" where
  "valid_pairing_body v \<longleftrightarrow>
     validBase64 (field ''nonce'' v) 32 32 \<and> validBase64 (field ''box'' v) 24 32768"

definition pairing_ok_body :: js where
  "pairing_ok_body = JObj [(''ok'', JBool True), (''expiresInSec'', JInt 900)]"

definition content_body :: "string \<times> string \<Rightarrow> js" where
  "content_body item = JObj [(''nonce'', JStr (fst item)), (''box'', JStr (snd item))]"

definition codes_fetch ::
  "(string \<Rightarrow> js option) \<Rightarrow> request \<Rightarrow> time \<Rightarrow> codes_state \<Rightarrow> response \<times> codes_state" where
  "codes_fetch parse request now s =
     (if pair_mailbox (r_path request) = None then (json (error_body ''bad mailbox'') 400, s)
      else if r_method request = ''PUT'' \<or> r_method request = ''POST'' then
        (case read_request parse request MAX_PAIRING_BODY_BYTES of
           Inl _ \<Rightarrow> (json (error_body ''bounded JSON body required'') 400, s)
         | Inr v \<Rightarrow>
             if \<not> valid_pairing_body v
             then (json (error_body ''canonical bounded base64 nonce and box required'') 400, s)
             else (case codes_put (str_of (field ''nonce'' v)) (str_of (field ''box'' v)) now s of
                 (True, s1) \<Rightarrow> (json pairing_ok_body 200, s1)
               | (False, s1) \<Rightarrow> (json (error_body ''mailbox already occupied'') 409, s1)))
      else if r_method request = ''HEAD'' then
        (json JUndefined (if codes_head now s then 200 else 404), s)
      else if r_method request = ''GET'' then
        (case codes_get now s of
           (None, s1) \<Rightarrow> (json (error_body ''unknown or expired mailbox'') 404, s1)
         | (Some item, s1) \<Rightarrow> (json (content_body item) 200, s1))
      else (json (error_body ''method not allowed'') 405, s))"

section \<open>The Node store\<close>

type_synonym pairings = "string \<rightharpoonup> pairing_item"

text \<open>The part of \<open>purgeExpiredPairings\<close> on this table.\<close>

definition purge_pairings :: "time \<Rightarrow> pairings \<Rightarrow> pairings" where
  "purge_pairings now ps = (\<lambda>m. case ps m of None \<Rightarrow> None
     | Some item \<Rightarrow> if pi_expiresAt item \<le> now then None else Some item)"

definition putPairing :: "string \<Rightarrow> string \<Rightarrow> string \<Rightarrow> time \<Rightarrow> time \<Rightarrow> pairings \<Rightarrow> bool \<times> pairings" where
  "putPairing mailbox nonce box expiresAt now ps =
     (let ps1 = purge_pairings now ps in
      case ps1 mailbox of
        None \<Rightarrow> (True, ps1(mailbox \<mapsto> \<lparr>pi_nonce = nonce, pi_box = box, pi_expiresAt = expiresAt\<rparr>))
      | Some _ \<Rightarrow> (False, ps1))"

definition peekPairing :: "string \<Rightarrow> time \<Rightarrow> pairings \<Rightarrow> bool \<times> pairings" where
  "peekPairing mailbox now ps =
     (let ps1 = purge_pairings now ps in
      ((case ps1 mailbox of None \<Rightarrow> False | Some item \<Rightarrow> pi_expiresAt item > now), ps1))"

definition takePairing :: "string \<Rightarrow> time \<Rightarrow> pairings \<Rightarrow> (string \<times> string) option \<times> pairings" where
  "takePairing mailbox now ps =
     ((case ps mailbox of None \<Rightarrow> None
       | Some item \<Rightarrow> if pi_expiresAt item > now then Some (pi_nonce item, pi_box item) else None),
      ps(mailbox := None))"

definition handlePairing ::
  "(string \<Rightarrow> js option) \<Rightarrow> request \<Rightarrow> string \<Rightarrow> time \<Rightarrow> pairings \<Rightarrow> response \<times> pairings" where
  "handlePairing parse request mailbox now ps =
     (if r_method request = ''HEAD'' then
        (case peekPairing mailbox now ps of (there, ps1) \<Rightarrow>
          (json JUndefined (if there then 200 else 404), ps1))
      else if r_method request = ''GET'' then
        (case takePairing mailbox now ps of
           (Some item, ps1) \<Rightarrow> (json (content_body item) 200, ps1)
         | (None, ps1) \<Rightarrow> (json (error_body ''unknown or expired mailbox'') 404, ps1))
      else if r_method request \<noteq> ''PUT'' \<and> r_method request \<noteq> ''POST'' then
        (json (error_body ''method not allowed'') 405, ps)
      else let v = node_read_request parse request 40000 in
        if \<not> truthy v \<or> \<not> valid_pairing_body v
        then (json (error_body ''canonical bounded base64 nonce and box required'') 400, ps)
        else (case putPairing mailbox (str_of (field ''nonce'' v)) (str_of (field ''box'' v))
                     (now + PAIR_TTL_MS) now ps of
            (True, ps1) \<Rightarrow> (json pairing_ok_body 200, ps1)
          | (False, ps1) \<Rightarrow> (json (error_body ''mailbox already occupied'') 409, ps1)))"

section \<open>The abstract mailbox\<close>

text \<open>
  The contract: a mailbox holds at most one content with its expiry. It is handed out once, while
  it has not expired; a second content is refused while it is held.
\<close>

datatype pair_op = PPut string string time | PHead time | PGet time
datatype pair_result = RPut bool | RHead bool | RGet "(string \<times> string) option"

fun pair_time :: "pair_op \<Rightarrow> time" where
  "pair_time (PPut _ _ t) = t"
| "pair_time (PHead t) = t"
| "pair_time (PGet t) = t"

type_synonym held = "((string \<times> string) \<times> time) option"

definition live :: "held \<Rightarrow> time \<Rightarrow> (string \<times> string) option" where
  "live h now = (case h of None \<Rightarrow> None | Some (c, x) \<Rightarrow> if now < x then Some c else None)"

fun spec_step :: "held \<Rightarrow> pair_op \<Rightarrow> pair_result \<times> held" where
  "spec_step h (PPut n b t) =
     (if live h t = None then (RPut True, Some ((n, b), t + PAIR_TTL_MS)) else (RPut False, h))"
| "spec_step h (PHead t) = (RHead (live h t \<noteq> None), h)"
| "spec_step h (PGet t) = (RGet (live h t), None)"

fun spec_run :: "held \<Rightarrow> pair_op list \<Rightarrow> pair_result list" where
  "spec_run h [] = []"
| "spec_run h (x # xs) = (case spec_step h x of (r, h1) \<Rightarrow> r # spec_run h1 xs)"

text \<open>A step of an implementation with its three operations.\<close>

fun pair_step ::
  "(string \<Rightarrow> string \<Rightarrow> time \<Rightarrow> 's \<Rightarrow> bool \<times> 's) \<Rightarrow> (time \<Rightarrow> 's \<Rightarrow> bool \<times> 's)
     \<Rightarrow> (time \<Rightarrow> 's \<Rightarrow> (string \<times> string) option \<times> 's) \<Rightarrow> pair_op \<Rightarrow> 's \<Rightarrow> pair_result \<times> 's" where
  "pair_step put head get (PPut n b t) s = (case put n b t s of (r, s1) \<Rightarrow> (RPut r, s1))"
| "pair_step put head get (PHead t) s = (case head t s of (r, s1) \<Rightarrow> (RHead r, s1))"
| "pair_step put head get (PGet t) s = (case get t s of (r, s1) \<Rightarrow> (RGet r, s1))"

text \<open>The interface: a state \<open>s\<close> stands for the abstract content \<open>view s\<close>, up to contents that
  have expired.\<close>

locale single_use_mailbox =
  fixes view :: "'s \<Rightarrow> held"
    and put :: "string \<Rightarrow> string \<Rightarrow> time \<Rightarrow> 's \<Rightarrow> bool \<times> 's"
    and head :: "time \<Rightarrow> 's \<Rightarrow> bool \<times> 's"
    and get :: "time \<Rightarrow> 's \<Rightarrow> (string \<times> string) option \<times> 's"
  assumes put_free: "live (view s) t = None \<Longrightarrow>
      fst (put n b t s) \<and> view (snd (put n b t s)) = Some ((n, b), t + PAIR_TTL_MS)"
    and put_held: "live (view s) t \<noteq> None \<Longrightarrow>
      \<not> fst (put n b t s) \<and> view (snd (put n b t s)) = view s"
    and head_live: "fst (head t s) = (live (view s) t \<noteq> None)"
    and head_keeps: "t \<le> u \<Longrightarrow> live (view (snd (head t s))) u = live (view s) u"
    and get_live: "fst (get t s) = live (view s) t"
    and get_empties: "live (view (snd (get t s))) u = None"
begin

abbreviation step :: "pair_op \<Rightarrow> 's \<Rightarrow> pair_result \<times> 's" where
  "step \<equiv> pair_step put head get"

text \<open>Equal contents from a time on.\<close>

definition agrees :: "time \<Rightarrow> 's \<Rightarrow> held \<Rightarrow> bool" where
  "agrees t s h \<longleftrightarrow> (\<forall>u \<ge> t. live (view s) u = live h u)"

lemma step_refines:
  assumes "agrees (pair_time x) s h"
  shows "fst (step x s) = fst (spec_step h x)
    \<and> agrees (pair_time x) (snd (step x s)) (snd (spec_step h x))"
proof (cases x)
  case (PPut n b t)
  then have eq: "live (view s) t = live h t" using assms by (simp add: agrees_def)
  show ?thesis
  proof (cases "live h t = None")
    case True
    with eq have "fst (put n b t s)" "view (snd (put n b t s)) = Some ((n, b), t + PAIR_TTL_MS)"
      using put_free by simp_all
    with PPut True show ?thesis by (simp add: agrees_def case_prod_beta)
  next
    case False
    with eq have "\<not> fst (put n b t s)" "view (snd (put n b t s)) = view s" using put_held by simp_all
    with PPut False assms show ?thesis by (simp add: agrees_def case_prod_beta)
  qed
next
  case (PHead t)
  with assms show ?thesis using head_live head_keeps by (simp add: agrees_def case_prod_beta)
next
  case (PGet t)
  with assms show ?thesis
    using get_live get_empties by (simp add: agrees_def case_prod_beta) (simp add: live_def)
qed

lemma agrees_later: "agrees t s h \<Longrightarrow> t \<le> u \<Longrightarrow> agrees u s h"
  by (simp add: agrees_def)

end

section \<open>Both runtimes are such mailboxes\<close>

definition codes_view :: "codes_state \<Rightarrow> held" where
  "codes_view s = map_option (\<lambda>i. ((pi_nonce i, pi_box i), pi_expiresAt i)) (pairing s)"

definition node_view :: "string \<Rightarrow> pairings \<Rightarrow> held" where
  "node_view m ps = map_option (\<lambda>i. ((pi_nonce i, pi_box i), pi_expiresAt i)) (ps m)"

interpretation codes: single_use_mailbox codes_view codes_put "\<lambda>t s. (codes_head t s, s)" codes_get
  by unfold_locales
    (auto simp: codes_view_def live_def codes_put_def codes_head_def codes_get_def
      split: option.splits if_splits)

interpretation node_pair: single_use_mailbox "node_view m" "\<lambda>n b t ps. putPairing m n b (t + PAIR_TTL_MS) t ps"
  "peekPairing m" "takePairing m" for m
  by unfold_locales
    (auto simp: node_view_def live_def putPairing_def peekPairing_def takePairing_def purge_pairings_def
      Let_def split: option.splits if_splits)

abbreviation codes_op :: "pair_op \<Rightarrow> codes_state \<Rightarrow> pair_result \<times> codes_state" where
  "codes_op \<equiv> pair_step codes_put (\<lambda>t s. (codes_head t s, s)) codes_get"

abbreviation node_pair_op :: "string \<Rightarrow> pair_op \<Rightarrow> pairings \<Rightarrow> pair_result \<times> pairings" where
  "node_pair_op m \<equiv> pair_step (\<lambda>n b t ps. putPairing m n b (t + PAIR_TTL_MS) t ps) (peekPairing m) (takePairing m)"

text \<open>A run of a Durable Object: requests and firings of the alarm, which the platform delivers
  only once it is due.\<close>

datatype codes_event = Request pair_op | Alarm time

fun event_time :: "codes_event \<Rightarrow> time" where
  "event_time (Request x) = pair_time x"
| "event_time (Alarm t) = t"

fun codes_step :: "codes_event \<Rightarrow> codes_state \<Rightarrow> pair_result list \<times> codes_state" where
  "codes_step (Request x) s = (case codes_op x s of (r, s1) \<Rightarrow> ([r], s1))"
| "codes_step (Alarm t) s =
     ([], case alarm_at s of None \<Rightarrow> s | Some a \<Rightarrow> if a \<le> t then codes_alarm s else s)"

fun codes_run :: "codes_event list \<Rightarrow> codes_state \<Rightarrow> pair_result list" where
  "codes_run [] s = []"
| "codes_run (e # es) s = (case codes_step e s of (rs, s1) \<Rightarrow> rs @ codes_run es s1)"

fun requests :: "codes_event list \<Rightarrow> pair_op list" where
  "requests [] = []"
| "requests (Request x # es) = x # requests es"
| "requests (Alarm t # es) = requests es"

definition alarm_armed :: "codes_state \<Rightarrow> bool" where
  "alarm_armed s \<longleftrightarrow> (\<forall>i. pairing s = Some i \<longrightarrow> alarm_at s = Some (pi_expiresAt i))"

lemma armed_step: "alarm_armed s \<Longrightarrow> alarm_armed (snd (codes_step e s))"
proof (cases e)
  case (Request x)
  assume "alarm_armed s"
  with Request show ?thesis
    by (cases x) (auto simp: alarm_armed_def codes_put_def codes_get_def split: option.splits prod.splits if_splits)
next
  case (Alarm t)
  assume "alarm_armed s"
  with Alarm show ?thesis by (auto simp: alarm_armed_def codes_alarm_def split: option.splits)
qed

lemma codes_run_refines:
  "codes.agrees t s h \<Longrightarrow> alarm_armed s \<Longrightarrow> sorted (t # map event_time es) \<Longrightarrow>
     codes_run es s = spec_run h (requests es)"
proof (induction es arbitrary: t s h)
  case (Cons e es)
  from Cons.prems have now: "codes.agrees (event_time e) s h" by (auto intro: codes.agrees_later)
  show ?case
  proof (cases e)
    case (Request x)
    note ref = codes.step_refines [of x s h]
    have "codes_run es (snd (codes_op x s)) = spec_run (snd (spec_step h x)) (requests es)"
      by (rule Cons.IH [of "pair_time x"])
        (use ref now Request Cons.prems armed_step [of s e] in \<open>auto simp: case_prod_beta\<close>)
    with ref now Request show ?thesis by (auto simp: case_prod_beta)
  next
    case (Alarm t')
    have "codes.agrees t' (snd (codes_step e s)) h"
      using now Alarm Cons.prems(2)
      by (fastforce simp: codes.agrees_def codes_view_def live_def codes_alarm_def alarm_armed_def
          split: option.splits)
    with Alarm Cons armed_step [of s e] show ?thesis by (auto simp: case_prod_beta)
  qed
qed simp

text \<open>A run of the Node store on several mailboxes.\<close>

fun node_pair_run :: "(string \<times> pair_op) list \<Rightarrow> pairings \<Rightarrow> (string \<times> pair_result) list" where
  "node_pair_run [] ps = []"
| "node_pair_run ((m, x) # xs) ps = (case node_pair_op m x ps of (r, ps1) \<Rightarrow> (m, r) # node_pair_run xs ps1)"

definition only :: "string \<Rightarrow> (string \<times> 'a) list \<Rightarrow> 'a list" where
  "only m xs = map snd (filter (\<lambda>e. fst e = m) xs)"

lemma only_simps [simp]: "only m [] = []" "only m ((k, x) # xs) = (if k = m then x # only m xs else only m xs)"
  by (simp_all add: only_def)

lemma node_pair_frame:
  "k \<noteq> m \<Longrightarrow> pair_time x \<le> u \<Longrightarrow>
     live (node_view m (snd (node_pair_op k x ps))) u = live (node_view m ps) u"
  by (cases x) (auto simp: node_view_def live_def putPairing_def peekPairing_def takePairing_def
      purge_pairings_def Let_def split: option.splits prod.splits)

lemma node_pair_run_refines:
  "node_pair.agrees m t ps h \<Longrightarrow> sorted (t # map (pair_time \<circ> snd) xs) \<Longrightarrow>
     only m (node_pair_run xs ps) = spec_run h (only m xs)"
proof (induction xs arbitrary: t ps h)
  case (Cons e xs)
  obtain k x where e: "e = (k, x)" by (cases e)
  from Cons.prems e have now: "node_pair.agrees m (pair_time x) ps h" by (auto intro: node_pair.agrees_later)
  show ?case
  proof (cases "k = m")
    case True
    note ref = node_pair.step_refines [of m x ps h, OF now]
    have "only m (node_pair_run xs (snd (node_pair_op m x ps))) = spec_run (snd (spec_step h x)) (only m xs)"
      by (rule Cons.IH [of "pair_time x"]) (use ref Cons.prems e in auto)
    with ref True e show ?thesis by (auto simp: case_prod_beta)
  next
    case False
    have "node_pair.agrees m (pair_time x) (snd (node_pair_op k x ps)) h"
      using now node_pair_frame [OF False] by (simp add: node_pair.agrees_def)
    with Cons.IH [of "pair_time x"] False e Cons.prems show ?thesis by (auto simp: case_prod_beta)
  qed
qed simp

section \<open>The HTTP handlers over the abstract operations\<close>

text \<open>The operation a request asks for, or the error it is answered with.\<close>

definition pair_request :: "(string \<Rightarrow> js option) \<Rightarrow> request \<Rightarrow> time \<Rightarrow> response + pair_op" where
  "pair_request parse request now =
     (if r_method request = ''PUT'' \<or> r_method request = ''POST'' then
        (let v = node_read_request parse request 40000 in
         if \<not> valid_pairing_body v
         then Inl (json (error_body ''canonical bounded base64 nonce and box required'') 400)
         else Inr (PPut (str_of (field ''nonce'' v)) (str_of (field ''box'' v)) now))
      else if r_method request = ''HEAD'' then Inr (PHead now)
      else if r_method request = ''GET'' then Inr (PGet now)
      else Inl (json (error_body ''method not allowed'') 405))"

fun pair_respond :: "pair_result \<Rightarrow> response" where
  "pair_respond (RPut True) = json pairing_ok_body 200"
| "pair_respond (RPut False) = json (error_body ''mailbox already occupied'') 409"
| "pair_respond (RHead b) = json JUndefined (if b then 200 else 404)"
| "pair_respond (RGet (Some item)) = json (content_body item) 200"
| "pair_respond (RGet None) = json (error_body ''unknown or expired mailbox'') 404"

lemma valid_body_truthy: "valid_pairing_body v \<Longrightarrow> truthy v"
  by (cases v) (auto simp: valid_pairing_body_def)

lemma handlePairing_op:
  "handlePairing parse request m now ps = (case pair_request parse request now of
     Inl r \<Rightarrow> (r, ps)
   | Inr x \<Rightarrow> (case node_pair_op m x ps of (r, ps1) \<Rightarrow> (pair_respond r, ps1)))"
  by (auto simp: handlePairing_def pair_request_def Let_def valid_body_truthy
      split: prod.splits option.splits bool.splits)

text \<open>The Durable Object reports an unreadable body with another text, and the same status.\<close>

definition same_answer :: "response \<Rightarrow> response \<Rightarrow> bool" where
  "same_answer a b \<longleftrightarrow> resp_status a = resp_status b \<and> (resp_status a = 400 \<or> resp_body a = resp_body b)"

lemma same_answer_refl [simp]: "same_answer a a"
  by (simp add: same_answer_def)

lemma codes_fetch_op:
  assumes "parse [] = None" "pair_mailbox (r_path request) \<noteq> None"
  shows "case pair_request parse request now of
     Inl r \<Rightarrow> same_answer (fst (codes_fetch parse request now s)) r \<and> snd (codes_fetch parse request now s) = s
   | Inr x \<Rightarrow> codes_fetch parse request now s =
       (case codes_op x s of (r, s1) \<Rightarrow> (pair_respond r, s1))"
proof -
  have null: "\<not> valid_pairing_body JNull" by (simp add: valid_pairing_body_def)
  show ?thesis using assms
    by (auto simp: codes_fetch_def pair_request_def Let_def readers_agree [of parse, OF assms(1)] same_answer_def
        MAX_PAIRING_BODY_BYTES_def json_def null split: prod.splits option.splits bool.splits sum.splits)
qed

fun codes_serve :: "(string \<Rightarrow> js option) \<Rightarrow> (request \<times> time) list \<Rightarrow> codes_state \<Rightarrow> response list" where
  "codes_serve parse [] s = []"
| "codes_serve parse ((r, t) # rs) s = (case codes_fetch parse r t s of (a, s1) \<Rightarrow> a # codes_serve parse rs s1)"

fun node_serve :: "(string \<Rightarrow> js option) \<Rightarrow> string \<Rightarrow> (request \<times> time) list \<Rightarrow> pairings \<Rightarrow> response list" where
  "node_serve parse m [] ps = []"
| "node_serve parse m ((r, t) # rs) ps =
     (case handlePairing parse r m t ps of (a, ps1) \<Rightarrow> a # node_serve parse m rs ps1)"

lemma pair_request_time: "pair_request parse r t = Inr x \<Longrightarrow> pair_time x = t"
  by (auto simp: pair_request_def Let_def split: if_splits)

lemma serve_agree:
  assumes "parse [] = None"
  shows "codes.agrees t s h \<Longrightarrow> node_pair.agrees m t ps h \<Longrightarrow> sorted (t # map snd rs) \<Longrightarrow>
    \<forall>(r, _) \<in> set rs. pair_mailbox (r_path r) = Some m \<Longrightarrow>
    list_all2 same_answer (codes_serve parse rs s) (node_serve parse m rs ps)"
proof (induction rs arbitrary: t s ps h)
  case (Cons e rs)
  obtain r u where e: "e = (r, u)" by (cases e)
  have now: "codes.agrees u s h" "node_pair.agrees m u ps h"
    using Cons.prems e by (auto intro: codes.agrees_later node_pair.agrees_later)
  have path: "pair_mailbox (r_path r) \<noteq> None" using Cons.prems(4) e by auto
  note op = codes_fetch_op [of parse r, OF assms path, of u s] handlePairing_op [of parse r m u ps]
  show ?case
  proof (cases "pair_request parse r u")
    case (Inl a)
    with op Cons.IH [OF now] Cons.prems e show ?thesis by (auto simp: case_prod_beta)
  next
    case (Inr x)
    then have x: "pair_time x = u" by (rule pair_request_time)
    have a: "codes_fetch parse r u s = (pair_respond (fst (codes_op x s)), snd (codes_op x s))"
      "handlePairing parse r m u ps = (pair_respond (fst (node_pair_op m x ps)), snd (node_pair_op m x ps))"
      using op Inr by (simp_all add: case_prod_beta)
    note ref = codes.step_refines [of x s h] node_pair.step_refines [of m x ps h]
    have "list_all2 same_answer (codes_serve parse rs (snd (codes_op x s)))
        (node_serve parse m rs (snd (node_pair_op m x ps)))"
      by (rule Cons.IH [of u _ "snd (spec_step h x)"]) (use ref now x Cons.prems e in auto)
    then show ?thesis using a ref now x e by simp
  qed
qed simp

section \<open>Properties\<close>

definition empty_codes :: codes_state where
  "empty_codes = \<lparr>pairing = None, alarm_at = None\<rparr>"

text \<open>C9: the Durable Object of a pairing mailbox answers every sequence of requests, with its
  alarm firing whenever it is due, like the abstract mailbox: a content is refused while one is
  held, is handed out at most once, and never after fifteen minutes.\<close>

theorem codes_refine_mailbox:
  assumes "sorted (map event_time es)"
  shows "codes_run es empty_codes = spec_run None (requests es)"
proof (cases es)
  case (Cons e es')
  have "codes.agrees (event_time e) empty_codes None" "alarm_armed empty_codes"
    by (simp_all add: codes.agrees_def codes_view_def empty_codes_def alarm_armed_def)
  with codes_run_refines [of "event_time e" empty_codes None es] assms Cons show ?thesis by simp
qed simp

text \<open>the Node store answers the requests for each mailbox like the abstract mailbox, whatever
  requests for other mailboxes come between.\<close>

theorem node_pairings_refine_mailbox:
  assumes "sorted (map (pair_time \<circ> snd) xs)"
  shows "only m (node_pair_run xs Map.empty) = spec_run None (only m xs)"
proof (cases xs)
  case (Cons x xs')
  have "node_pair.agrees m (pair_time (snd x)) Map.empty None"
    by (simp add: node_pair.agrees_def node_view_def)
  with node_pair_run_refines [of m "pair_time (snd x)" Map.empty None xs] assms Cons show ?thesis by simp
qed simp

text \<open>the two runtimes answer any sequence of HTTP requests for one mailbox alike: the same
  statuses, and the same bodies except for the text of a 400.\<close>

theorem pairing_runtimes_agree:
  assumes "parse [] = None" and "sorted (map snd rs)"
    and "\<forall>(r, _) \<in> set rs. pair_mailbox (r_path r) = Some m"
  shows "list_all2 same_answer (codes_serve parse rs empty_codes) (node_serve parse m rs Map.empty)"
proof (cases rs)
  case (Cons e rs')
  have "codes.agrees (snd e) empty_codes None" "node_pair.agrees m (snd e) Map.empty None"
    by (simp_all add: codes.agrees_def node_pair.agrees_def codes_view_def node_view_def empty_codes_def)
  with serve_agree [of parse, OF assms(1), of "snd e" empty_codes None m Map.empty rs] assms Cons
  show ?thesis by simp
qed simp

theorem codes_refine_mailbox_witness:
  "codes_run [Request (PPut ''n'' ''b'' 0), Alarm 5, Request (PGet 10), Request (PGet 20)] empty_codes
     = [RPut True, RGet (Some (''n'', ''b'')), RGet None]"
  using codes_refine_mailbox [of "[Request (PPut ''n'' ''b'' 0), Alarm 5, Request (PGet 10), Request (PGet 20)]"]
  by (simp add: live_def PAIR_TTL_MS_def)

theorem node_pairings_refine_mailbox_witness:
  "only ''m'' (node_pair_run [(''m'', PPut ''n'' ''b'' 0), (''k'', PGet 5), (''m'', PGet 900000)] Map.empty)
     = [RPut True, RGet None]"
  using node_pairings_refine_mailbox [of "[(''m'', PPut ''n'' ''b'' 0), (''k'', PGet 5), (''m'', PGet 900000)]" "''m''"]
  by (simp add: live_def PAIR_TTL_MS_def)

definition sample_get :: request where
  "sample_get = \<lparr>r_method = ''GET'', r_path = ''/pair/'' @ replicate 32 CHR ''0'', r_query = [],
     r_headers = [], r_length = None, r_chunks = None\<rparr>"

theorem pairing_runtimes_agree_witness:
  "list_all2 same_answer (codes_serve (\<lambda>_. None) [(sample_get, 5)] empty_codes)
     (node_serve (\<lambda>_. None) (replicate 32 CHR ''0'') [(sample_get, 5)] Map.empty)"
  using pairing_runtimes_agree [of "\<lambda>_. None" "[(sample_get, 5)]" "replicate 32 CHR ''0''"]
  by (simp add: sample_get_def pair_mailbox_def starts_with_def hex_char_def char_between_def)

end
