(* ===== verification/Task_Policy.thy ===== *)
theory Task_Policy
  imports Relay_Validation "HOL-Library.Multiset"
begin

text \<open>
  The life of a scheduled task job, \<open>src/taskDispatch/policy.js\<close>: normalisation of a submitted
  job, the transitions (claim, cancel, finish, expiry) and the erasure of ciphertext. Shows: a job
  is accepted by one receiver, once, within its time window and with its proof; finished,
  cancelled and expired jobs never change again and hold no ciphertext; the fingerprint of a
  submission does not depend on the order of its envelope's fields.

  \<open>stringify\<close> stands for \<open>JSON.stringify\<close> and the proof hash is an argument, as in the source.
\<close>

section \<open>Jobs\<close>

definition JOB_TTL_MS :: int where "JOB_TTL_MS = 2592000000"
definition JOB_BYTES :: nat where "JOB_BYTES = 22000000"
definition ROOM_JOB_BYTES :: nat where "ROOM_JOB_BYTES = 48000000"
definition ROOM_JOB_LIMIT :: nat where "ROOM_JOB_LIMIT = 100"
definition ROOM_RECEIPT_LIMIT :: nat where "ROOM_RECEIPT_LIMIT = 10000"

lemmas [relay_limits] = JOB_TTL_MS_def JOB_BYTES_def ROOM_JOB_BYTES_def ROOM_JOB_LIMIT_def
  ROOM_RECEIPT_LIMIT_def

datatype job_state = Queued | Accepted | Completed | Failed | Cancelled | Job_expired

record cipher_info =
  ci_count :: nat
  ci_digest :: string
  ci_bytes :: nat

record job =
  j_id :: string
  j_state :: job_state
  j_notBefore :: time
  j_expiresAt :: time
  j_createdAt :: time
  j_updatedAt :: time
  j_acceptanceHash :: js
  j_envelope :: js
  j_writerId :: "string option"
  j_writerSourceKeyId :: js
  j_claimId :: "string option"
  j_resultCode :: "string option"
  j_resultEnvelope :: js
  j_bytes :: nat
  j_fingerprint :: string
  j_cipher :: "cipher_info option"

definition retainsTaskPayload :: "job \<Rightarrow> bool" where
  "retainsTaskPayload row \<longleftrightarrow> j_state row \<in> {Queued, Accepted, Failed}"

definition id_char :: "char \<Rightarrow> bool" where
  "id_char c \<longleftrightarrow> alnum_char c \<or> c = CHR ''_'' \<or> c = CHR ''-''"

text \<open>\<open>/^[a-zA-Z0-9][a-zA-Z0-9_-]{7,119}$/\<close>.\<close>

fun job_id_shape :: "string \<Rightarrow> bool" where
  "job_id_shape [] = False"
| "job_id_shape (c # s) \<longleftrightarrow> alnum_char c \<and> class_repeat id_char 7 119 s"

fun validJobId :: "js \<Rightarrow> bool" where
  "validJobId (JStr s) = job_id_shape s"
| "validJobId _ = False"

section \<open>Submission\<close>

definition JOB_FIELDS :: "string list" where
  "JOB_FIELDS = [''notBefore'', ''expiresAt'', ''acceptanceHash'', ''envelope'', ''writerId'',
     ''writerSourceKeyId'']"

text \<open>The envelope's field names in the order of \<open>localeCompare\<close>.\<close>

definition SORTED_FIELDS :: "string list" where
  "SORTED_FIELDS = [''box'', ''deliveryId'', ''expiresAt'', ''from'', ''nonce'', ''recipientKeyId'',
     ''room'', ''senderId'', ''stateGroup'', ''stateKey'', ''statePriority'', ''stateRevision'',
     ''to'', ''v'', ''wake'']"

definition field_rank :: "string \<Rightarrow> nat" where
  "field_rank k = (case find_index (\<lambda>f. f = k) SORTED_FIELDS of Some i \<Rightarrow> i | None \<Rightarrow> length SORTED_FIELDS)"

fun ordered_envelope :: "js \<Rightarrow> js" where
  "ordered_envelope (JObj kvs) = JObj (sort_key (\<lambda>e. field_rank (fst e)) kvs)"
| "ordered_envelope v = v"

record normal_job =
  nj_notBefore :: time
  nj_expiresAt :: time
  nj_acceptanceHash :: js
  nj_envelope :: js
  nj_writerId :: "string option"
  nj_writerSourceKeyId :: js
  nj_canonical :: string
  nj_bytes :: nat

definition normal_object :: "js \<Rightarrow> js \<Rightarrow> js" where
  "normal_object body envelope = JObj ([(''notBefore'', field ''notBefore'' body),
     (''expiresAt'', field ''expiresAt'' body), (''acceptanceHash'', field ''acceptanceHash'' body),
     (''envelope'', envelope)]
     @ (if truthy (field ''writerId'' body)
        then [(''writerId'', field ''writerId'' body),
              (''writerSourceKeyId'', field ''writerSourceKeyId'' body)] else []))"

text \<open>The checks of \<open>normalizeJob\<close> in their order; \<open>None\<close> is a thrown conversion, \<open>Some False\<close> a
  refusal.\<close>

definition job_header_ok :: "js \<Rightarrow> js \<Rightarrow> js \<Rightarrow> bool" where
  "job_header_ok room jobId body \<longleftrightarrow> validRoom room \<and> validJobId jobId \<and> truthy body \<and> is_object body
     \<and> list_all (\<lambda>k. k \<in> set JOB_FIELDS) (object_keys body)
     \<and> (field ''writerId'' body = JUndefined \<or> validJobId (field ''writerId'' body))"

definition job_writer_ok :: "js \<Rightarrow> bool option" where
  "job_writer_ok body =
     (if field ''writerId'' body \<noteq> JUndefined then hex64_test (or_empty (field ''writerSourceKeyId'' body))
      else Some (field ''writerSourceKeyId'' body = JUndefined))"

definition job_times_ok :: "js \<Rightarrow> time \<Rightarrow> bool" where
  "job_times_ok body now \<longleftrightarrow>
     isSafeInteger (field ''notBefore'' body) \<and> isSafeInteger (field ''expiresAt'' body)
     \<and> (let notBefore = num_of (field ''notBefore'' body); expiresAt = num_of (field ''expiresAt'' body)
        in \<not> notBefore < 0 \<and> \<not> expiresAt \<le> now \<and> \<not> expiresAt \<le> notBefore
           \<and> \<not> expiresAt - notBefore > JOB_TTL_MS \<and> \<not> expiresAt > now + JOB_TTL_MS)"

definition job_envelope_ok :: "string \<Rightarrow> string \<Rightarrow> js \<Rightarrow> time \<Rightarrow> bool option" where
  "job_envelope_ok room jobId body now =
     (let envelope = field ''envelope'' body in
      if \<not> truthy envelope \<or> field ''deliveryId'' envelope \<noteq> JStr jobId
         \<or> field ''to'' envelope \<noteq> JStr ''machine'' then Some False
      else js_and (hex64_test (or_empty (field ''recipientKeyId'' envelope)))
        (if field ''expiresAt'' envelope \<noteq> field ''expiresAt'' body then Some False
         else validEnvelope envelope room now (Some JOB_TTL_MS)))"

definition normalizeJob :: "(js \<Rightarrow> string) \<Rightarrow> js \<Rightarrow> js \<Rightarrow> js \<Rightarrow> time \<Rightarrow> normal_job outcome" where
  "normalizeJob stringify room jobId body now =
     (if \<not> job_header_ok room jobId body then Refused
      else case js_and (job_writer_ok body) (if \<not> job_times_ok body now then Some False
                  else js_and (hex64_test (or_empty (field ''acceptanceHash'' body)))
                    (job_envelope_ok (str_of room) (str_of jobId) body now)) of
          None \<Rightarrow> Thrown
        | Some False \<Rightarrow> Refused
        | Some True \<Rightarrow>
            (let envelope = ordered_envelope (field ''envelope'' body);
                 encoded = stringify (normal_object body envelope)
             in if byteLength encoded > JOB_BYTES then Refused
                else Value \<lparr>nj_notBefore = num_of (field ''notBefore'' body),
                  nj_expiresAt = num_of (field ''expiresAt'' body),
                  nj_acceptanceHash = field ''acceptanceHash'' body, nj_envelope = envelope,
                  nj_writerId = (if truthy (field ''writerId'' body)
                     then Some (str_of (field ''writerId'' body)) else None),
                  nj_writerSourceKeyId = (if truthy (field ''writerId'' body)
                     then field ''writerSourceKeyId'' body else JUndefined),
                  nj_canonical = encoded, nj_bytes = byteLength encoded\<rparr>))"

text \<open>The row that a store makes of an accepted submission.\<close>

definition new_job :: "normal_job \<Rightarrow> string \<Rightarrow> string \<Rightarrow> time \<Rightarrow> job" where
  "new_job n jobId fingerprint now = \<lparr>j_id = jobId, j_state = Queued, j_notBefore = nj_notBefore n,
     j_expiresAt = nj_expiresAt n, j_createdAt = now, j_updatedAt = now,
     j_acceptanceHash = nj_acceptanceHash n, j_envelope = nj_envelope n, j_writerId = nj_writerId n,
     j_writerSourceKeyId = nj_writerSourceKeyId n, j_claimId = None, j_resultCode = None,
     j_resultEnvelope = JUndefined, j_bytes = nj_bytes n, j_fingerprint = fingerprint,
     j_cipher = None\<rparr>"

section \<open>Transitions\<close>

definition retireJob :: "job \<Rightarrow> job_state \<Rightarrow> time \<Rightarrow> job" where
  "retireJob row st updatedAt = row\<lparr>j_envelope := without [''box'', ''nonce''] (j_envelope row),
     j_state := st, j_updatedAt := updatedAt, j_bytes := 0\<rparr>"

definition expireJob :: "job \<Rightarrow> time \<Rightarrow> job" where
  "expireJob row now = (if j_state row = Queued \<and> j_expiresAt row \<le> now
     then retireJob row Job_expired (j_expiresAt row) else row)"

datatype reply = Fail nat string | Done nat job

text \<open>\<open>validProof\<close>; \<open>None\<close> when the conversion of the token throws.\<close>

definition validProof :: "job \<Rightarrow> js \<Rightarrow> js \<Rightarrow> bool option" where
  "validProof row proof proofHash =
     (if \<not> strict_eq (field ''recipientKeyId'' proof) (field ''recipientKeyId'' (j_envelope row))
      then Some False
      else js_and (hex64_test (or_empty (field ''token'' proof)))
        (Some (is_string proofHash \<and> constantTimeEqual proofHash (j_acceptanceHash row))))"

definition claimJob :: "job \<Rightarrow> js \<Rightarrow> time \<Rightarrow> js \<Rightarrow> reply option" where
  "claimJob row proof now proofHash = (case validProof row proof proofHash of
       None \<Rightarrow> None
     | Some False \<Rightarrow> Some (Fail 403 ''invalid acceptance proof'')
     | Some True \<Rightarrow>
        (let current = expireJob row now in
         if \<not> validJobId (field ''claimId'' proof) then Some (Fail 400 ''invalid receiver attempt'')
         else if j_state current = Accepted then
           Some (if j_claimId current = Some (str_of (field ''claimId'' proof)) then Done 200 current
                 else Fail 409 ''another receiver accepted this job'')
         else if j_state current \<noteq> Queued \<or> j_notBefore current > now then
           Some (Fail 409 ''job is not ready'')
         else Some (Done 200 (current\<lparr>j_state := Accepted,
           j_claimId := Some (str_of (field ''claimId'' proof)), j_updatedAt := now\<rparr>))))"

definition cancelJob :: "job \<Rightarrow> time \<Rightarrow> reply" where
  "cancelJob row now =
     (let current = expireJob row now in
      if j_state current = Cancelled then Done 200 current
      else if j_state current \<noteq> Queued \<and> j_state current \<noteq> Failed
        then Fail 409 ''job has already left the relay queue''
      else Done 200 (retireJob current Cancelled now))"

definition RESULT_CODES :: "string list" where
  "RESULT_CODES = [''provider_unavailable'', ''policy_denied'', ''delivery_failed'', ''cancelled'',
     ''confirmation_required'']"

fun final_state :: "js \<Rightarrow> job_state option" where
  "final_state (JStr s) = (if s = ''completed'' then Some Completed
     else if s = ''failed'' then Some Failed else None)"
| "final_state _ = None"

text \<open>The checks on the encrypted result of a job.\<close>

definition result_envelope_ok :: "(js \<Rightarrow> string) \<Rightarrow> job \<Rightarrow> js \<Rightarrow> time \<Rightarrow> bool option" where
  "result_envelope_ok stringify row proof now =
     (let result = field ''resultEnvelope'' proof in
      if result = JUndefined then Some True
      else if j_writerId row = None \<or> \<not> truthy result \<or> field ''from'' result \<noteq> JStr ''machine''
         \<or> field ''to'' result \<noteq> JStr ''machine''
         \<or> \<not> strict_eq (field ''recipientKeyId'' result) (j_writerSourceKeyId row) then Some False
      else js_and (validEnvelope result (str_of (field ''room'' (j_envelope row))) now (Some JOB_TTL_MS))
        (Some (\<not> byteLength (stringify result) > 32000)))"

text \<open>The row of a finished job with its result code and envelope, where they are given.\<close>

definition finished_row :: "job \<Rightarrow> job_state \<Rightarrow> time \<Rightarrow> js \<Rightarrow> js \<Rightarrow> job" where
  "finished_row row st now code resultEnvelope =
     (let result = (if st = Completed then retireJob row st now
                    else row\<lparr>j_state := st, j_updatedAt := now\<rparr>);
          coded = (if truthy code then result\<lparr>j_resultCode := Some (str_of code)\<rparr> else result)
      in if truthy resultEnvelope then coded\<lparr>j_resultEnvelope := resultEnvelope\<rparr> else coded)"

definition finishJob :: "(js \<Rightarrow> string) \<Rightarrow> job \<Rightarrow> js \<Rightarrow> time \<Rightarrow> js \<Rightarrow> reply option" where
  "finishJob stringify row proof now proofHash = (case validProof row proof proofHash of
       None \<Rightarrow> None
     | Some False \<Rightarrow> Some (Fail 403 ''invalid acceptance proof'')
     | Some True \<Rightarrow>
        if j_claimId row = None then Some (Fail 409 ''job has not been accepted'')
        else if \<not> validJobId (field ''claimId'' proof)
             \<or> j_claimId row \<noteq> Some (str_of (field ''claimId'' proof))
          then Some (Fail 403 ''invalid receiver attempt'')
        else (case final_state (field ''state'' proof) of
            None \<Rightarrow> Some (Fail 400 ''invalid final state'')
          | Some st \<Rightarrow>
              let code = field ''resultCode'' proof in
              if code \<noteq> JUndefined \<and> \<not> (is_string code \<and> str_of code \<in> set RESULT_CODES)
                then Some (Fail 400 ''invalid result code'')
              else if j_state row = st then Some (Done 200 row)
              else if j_state row \<noteq> Accepted then Some (Fail 409 ''job has not been accepted'')
              else (case result_envelope_ok stringify row proof now of
                  None \<Rightarrow> None
                | Some False \<Rightarrow> Some (Fail 400 ''invalid encrypted task result'')
                | Some True \<Rightarrow>
                    Some (Done 200 (finished_row row st now code (field ''resultEnvelope'' proof))))))"

section \<open>Views\<close>

record public_job =
  pj_id :: string
  pj_state :: job_state
  pj_notBefore :: time
  pj_expiresAt :: time
  pj_createdAt :: time
  pj_updatedAt :: time
  pj_envelope :: js
  pj_resultCode :: "string option"
  pj_writerId :: "string option"
  pj_resultEnvelope :: "js option"

definition publicJob :: "job \<Rightarrow> public_job" where
  "publicJob row = \<lparr>pj_id = j_id row, pj_state = j_state row, pj_notBefore = j_notBefore row,
     pj_expiresAt = j_expiresAt row, pj_createdAt = j_createdAt row, pj_updatedAt = j_updatedAt row,
     pj_envelope = j_envelope row,
     pj_resultCode = (case j_resultCode row of Some (c # s) \<Rightarrow> Some (c # s) | _ \<Rightarrow> None),
     pj_writerId = (case j_writerId row of Some (c # s) \<Rightarrow> Some (c # s) | _ \<Rightarrow> None),
     pj_resultEnvelope = (if truthy (j_resultEnvelope row) then Some (j_resultEnvelope row) else None)\<rparr>"

definition taskJobMetadata :: "public_job \<Rightarrow> public_job" where
  "taskJobMetadata row = row\<lparr>pj_envelope := without [''box'', ''nonce''] (pj_envelope row)\<rparr>"

section \<open>The state machine\<close>

datatype job_op =
    Claim js time js
  | Cancel time
  | Finish js time js
  | Expire time

text \<open>The row after an operation: a failed or throwing operation leaves it alone.\<close>

fun reply_row :: "job \<Rightarrow> reply option \<Rightarrow> job" where
  "reply_row row (Some (Done _ r)) = r"
| "reply_row row _ = row"

fun job_apply :: "(js \<Rightarrow> string) \<Rightarrow> job_op \<Rightarrow> job \<Rightarrow> job" where
  "job_apply f (Claim proof now h) row = reply_row row (claimJob row proof now h)"
| "job_apply f (Cancel now) row = reply_row row (Some (cancelJob row now))"
| "job_apply f (Finish proof now h) row = reply_row row (finishJob f row proof now h)"
| "job_apply f (Expire now) row = expireJob row now"

text \<open>The permitted moves.\<close>

inductive moves :: "job_state \<Rightarrow> job_state \<Rightarrow> bool" where
  "moves Queued Accepted"
| "moves Queued Cancelled"
| "moves Queued Job_expired"
| "moves Accepted Completed"
| "moves Accepted Failed"
| "moves Failed Cancelled"

inductive_simps moves_simps [simp]:
  "moves Queued s" "moves Accepted s" "moves Failed s" "moves Completed s" "moves Cancelled s"
  "moves Job_expired s"

code_pred moves .

text \<open>The rows that operations reach from a row.\<close>

inductive job_reach :: "(js \<Rightarrow> string) \<Rightarrow> job \<Rightarrow> job \<Rightarrow> bool" for f r0 where
  start: "job_reach f r0 r0"
| step: "job_reach f r0 r \<Longrightarrow> job_reach f r0 (job_apply f x r)"

definition retired :: "job \<Rightarrow> bool" where
  "retired row \<longleftrightarrow> j_state row \<in> {Completed, Cancelled, Job_expired}"

lemma retired_iff: "retired row \<longleftrightarrow> \<not> retainsTaskPayload row"
  by (cases "j_state row") (simp_all add: retired_def retainsTaskPayload_def)

lemma retireJob_simps [simp]:
  "j_state (retireJob r s t) = s" "j_updatedAt (retireJob r s t) = t" "j_bytes (retireJob r s t) = 0"
  "j_id (retireJob r s t) = j_id r" "j_notBefore (retireJob r s t) = j_notBefore r"
  "j_expiresAt (retireJob r s t) = j_expiresAt r" "j_createdAt (retireJob r s t) = j_createdAt r"
  "j_acceptanceHash (retireJob r s t) = j_acceptanceHash r" "j_claimId (retireJob r s t) = j_claimId r"
  "j_writerId (retireJob r s t) = j_writerId r" "j_fingerprint (retireJob r s t) = j_fingerprint r"
  "j_writerSourceKeyId (retireJob r s t) = j_writerSourceKeyId r" "j_cipher (retireJob r s t) = j_cipher r"
  "j_envelope (retireJob r s t) = without [''box'', ''nonce''] (j_envelope r)"
  by (simp_all add: retireJob_def)

text \<open>The outcomes of each operation.\<close>

lemma claimJob_cases:
  assumes "claimJob row proof now h = Some (Done n r)"
  obtains "j_state row = Accepted" "r = row" "j_claimId row = Some (str_of (field ''claimId'' proof))"
      "validProof row proof h = Some True"
  | "j_state row = Queued" "j_notBefore row \<le> now" "now < j_expiresAt row"
    "r = row\<lparr>j_state := Accepted, j_claimId := Some (str_of (field ''claimId'' proof)), j_updatedAt := now\<rparr>"
    "validProof row proof h = Some True"
proof -
  have ok: "validProof row proof h = Some True"
    using assms by (simp add: claimJob_def split: option.splits bool.splits)
  have "j_state row = Accepted \<and> r = row \<and> j_claimId row = Some (str_of (field ''claimId'' proof))
    \<or> j_state row = Queued \<and> j_notBefore row \<le> now \<and> now < j_expiresAt row
      \<and> r = row\<lparr>j_state := Accepted, j_claimId := Some (str_of (field ''claimId'' proof)), j_updatedAt := now\<rparr>"
    using assms ok
    by (cases "j_state row") (simp_all add: claimJob_def expireJob_def Let_def split: if_splits)
  with ok that show thesis by blast
qed

lemma cancelJob_cases:
  assumes "cancelJob row now = Done n r"
  obtains "j_state row = Cancelled" "r = row"
  | "j_state row = Queued \<or> j_state row = Failed" "r = retireJob row Cancelled now"
proof -
  have "j_state row = Cancelled \<and> r = row
    \<or> (j_state row = Queued \<or> j_state row = Failed) \<and> r = retireJob row Cancelled now"
    using assms by (cases "j_state row") (auto simp: cancelJob_def expireJob_def Let_def split: if_splits)
  with that show thesis by blast
qed

lemma final_state_cases: "final_state v = Some s \<Longrightarrow> s = Completed \<or> s = Failed"
  by (cases v) (auto split: if_splits)

lemma finishJob_cases:
  assumes "finishJob f row proof now h = Some (Done n r)"
  obtains "r = row"
  | st code result where "j_state row = Accepted" "st = Completed \<or> st = Failed"
    "r = finished_row row st now code result"
proof -
  obtain st where st: "final_state (field ''state'' proof) = Some st"
    "j_state row = st \<and> r = row \<or> j_state row = Accepted
      \<and> r = finished_row row st now (field ''resultCode'' proof) (field ''resultEnvelope'' proof)"
    using assms by (simp add: finishJob_def Let_def split: option.splits bool.splits if_splits)
  with that final_state_cases [OF st(1)] show thesis by blast
qed

lemma finished_row_simps [simp]:
  "j_state (finished_row r s t c e) = s" "j_id (finished_row r s t c e) = j_id r"
  "j_notBefore (finished_row r s t c e) = j_notBefore r" "j_expiresAt (finished_row r s t c e) = j_expiresAt r"
  "j_createdAt (finished_row r s t c e) = j_createdAt r" "j_claimId (finished_row r s t c e) = j_claimId r"
  "j_acceptanceHash (finished_row r s t c e) = j_acceptanceHash r"
  "j_writerId (finished_row r s t c e) = j_writerId r" "j_fingerprint (finished_row r s t c e) = j_fingerprint r"
  "j_envelope (finished_row r s t c e) =
     (if s = Completed then without [''box'', ''nonce''] (j_envelope r) else j_envelope r)"
  "j_bytes (finished_row r s t c e) = (if s = Completed then 0 else j_bytes r)"
  by (simp_all add: finished_row_def Let_def)

text \<open>Every operation leaves a row alone or makes one permitted move.\<close>

lemma job_apply_cases:
  obtains "job_apply f x row = row"
  | c t where "j_state row = Queued" "j_notBefore row \<le> t" "t < j_expiresAt row"
    "job_apply f x row = row\<lparr>j_state := Accepted, j_claimId := Some c, j_updatedAt := t\<rparr>"
  | t where "j_state row = Queued \<or> j_state row = Failed" "job_apply f x row = retireJob row Cancelled t"
  | "j_state row = Queued" "job_apply f x row = retireJob row Job_expired (j_expiresAt row)"
  | s t c e where "j_state row = Accepted" "s = Completed \<or> s = Failed"
    "job_apply f x row = finished_row row s t c e"
proof (cases x)
  case (Claim pf now h)
  show thesis
  proof (cases "claimJob row pf now h")
    case None
    with Claim that(1) show thesis by simp
  next
    case (Some r)
    with Claim that(1,2) show thesis by (cases r) (auto elim!: claimJob_cases)
  qed
next
  case (Cancel now)
  with that(1,3) show thesis by (cases "cancelJob row now") (auto elim!: cancelJob_cases)
next
  case (Finish pf now h)
  show thesis
  proof (cases "finishJob f row pf now h")
    case None
    with Finish that(1) show thesis by simp
  next
    case (Some r)
    with Finish that(1,5) show thesis by (cases r) (auto elim!: finishJob_cases)
  qed
next
  case (Expire now)
  with that(1,4) show thesis
    by (cases "j_state row = Queued \<and> j_expiresAt row \<le> now") (auto simp: expireJob_def)
qed

text \<open>The invariant of a row that started as \<open>r0\<close>.\<close>

definition job_inv :: "job \<Rightarrow> job \<Rightarrow> bool" where
  "job_inv r0 row \<longleftrightarrow>
     j_id row = j_id r0 \<and> j_notBefore row = j_notBefore r0 \<and> j_expiresAt row = j_expiresAt r0
     \<and> j_createdAt row = j_createdAt r0 \<and> j_acceptanceHash row = j_acceptanceHash r0
     \<and> j_fingerprint row = j_fingerprint r0 \<and> j_writerId row = j_writerId r0
     \<and> (if retired row then j_envelope row = without [''box'', ''nonce''] (j_envelope r0) \<and> j_bytes row = 0
        else j_envelope row = j_envelope r0 \<and> j_bytes row = j_bytes r0)
     \<and> (j_state row \<in> {Queued, Job_expired} \<longrightarrow> j_claimId row = None)
     \<and> (j_state row \<in> {Accepted, Completed, Failed} \<longrightarrow> j_claimId row \<noteq> None)"

lemma job_inv_apply [relay_inv]: "job_inv r0 row \<Longrightarrow> job_inv r0 (job_apply f x row)"
  by (cases f x row rule: job_apply_cases) (auto simp: job_inv_def retired_def)

lemma job_inv_reach: "job_reach f r0 row \<Longrightarrow> job_inv r0 r0 \<Longrightarrow> job_inv r0 row"
  by (induction rule: job_reach.induct) (auto intro: job_inv_apply)

lemma job_inv_new: "job_inv (new_job n i fp t) (new_job n i fp t)"
  by (simp add: job_inv_def new_job_def retired_def)

lemma claimed_stays:
  "job_inv r0 row \<Longrightarrow> j_claimId row = Some c \<Longrightarrow> j_claimId (job_apply f x row) = Some c"
  by (cases f x row rule: job_apply_cases) (auto simp: job_inv_def)

section \<open>Runs\<close>

text \<open>The claims that succeed in a run: the receiver attempt, the time and the proof.\<close>

fun claim_here :: "job_op \<Rightarrow> job \<Rightarrow> (string \<times> time \<times> js \<times> js) list" where
  "claim_here (Claim pf now h) row = (case claimJob row pf now h of
       Some (Done _ _) \<Rightarrow> [(str_of (field ''claimId'' pf), now, pf, h)] | _ \<Rightarrow> [])"
| "claim_here _ row = []"

fun claims :: "(js \<Rightarrow> string) \<Rightarrow> job_op list \<Rightarrow> job \<Rightarrow> (string \<times> time \<times> js \<times> js) list" where
  "claims f [] row = []"
| "claims f (x # xs) row = claim_here x row @ claims f xs (job_apply f x row)"

lemma reply_row_other: "\<forall>n r. q \<noteq> Some (Done n r) \<Longrightarrow> reply_row row q = row"
  by (cases "(row, q)" rule: reply_row.cases) auto

lemma claim_here_none:
  "\<forall>pf now h n r. x = Claim pf now h \<longrightarrow> claimJob row pf now h \<noteq> Some (Done n r) \<Longrightarrow> claim_here x row = []"
  by (cases x) (auto split: option.split reply.split)

lemma no_claim_not_accepted:
  assumes "\<forall>pf now h n r. x = Claim pf now h \<longrightarrow> claimJob row pf now h \<noteq> Some (Done n r)"
    and "j_state row \<noteq> Accepted"
  shows "j_state (job_apply f x row) \<noteq> Accepted"
proof (cases x)
  case (Claim pf now h)
  with assms show ?thesis by (simp add: reply_row_other)
next
  case (Cancel now)
  with assms show ?thesis by (cases "cancelJob row now") (auto elim!: cancelJob_cases)
next
  case (Finish pf now h)
  with assms show ?thesis
    by (cases "(row, finishJob f row pf now h)" rule: reply_row.cases) (auto elim!: finishJob_cases)
next
  case (Expire now)
  with assms show ?thesis by (simp add: expireJob_def)
qed

lemma claims_ConsE:
  assumes "e \<in> set (claims f (x # xs) row)"
  obtains "e \<in> set (claims f xs (job_apply f x row))"
  | pf now h n r where "x = Claim pf now h" "claimJob row pf now h = Some (Done n r)"
    "e = (str_of (field ''claimId'' pf), now, pf, h)"
proof (cases "\<exists>pf now h n r. x = Claim pf now h \<and> claimJob row pf now h = Some (Done n r)")
  case True
  then obtain pf now h n r
    where x: "x = Claim pf now h" "claimJob row pf now h = Some (Done n r)" by blast
  with assms that show thesis by auto
next
  case False
  then have "claim_here x row = []" by (intro claim_here_none) blast
  with assms that(1) show thesis by simp
qed

lemma claims_of_claimed:
  "job_inv r0 row \<Longrightarrow> j_claimId row = Some c \<Longrightarrow> e \<in> set (claims f xs row) \<Longrightarrow> fst e = c"
proof (induction xs arbitrary: row)
  case (Cons x xs)
  have inv: "job_inv r0 (job_apply f x row)" and c: "j_claimId (job_apply f x row) = Some c"
    using Cons.prems by (simp_all add: job_inv_apply claimed_stays)
  from Cons.prems(3) show ?case
  proof (cases rule: claims_ConsE)
    case 1
    with Cons.IH inv c show ?thesis by blast
  next
    case 2
    from 2(2) show ?thesis
      by (cases rule: claimJob_cases) (use 2(3) Cons.prems in \<open>auto simp: job_inv_def\<close>)
  qed
qed simp

lemma claim_proved:
  assumes "validProof row pf h = Some True"
  shows "\<exists>s t. h = JStr s \<and> j_acceptanceHash row = JStr t \<and> utf16_codes s = utf16_codes t"
proof -
  have "is_string h" "constantTimeEqual h (j_acceptanceHash row)"
    using assms by (auto simp: validProof_def js_and_def split: if_splits option.splits bool.splits)
  then show ?thesis
    by (cases "(h, j_acceptanceHash row)" rule: constantTimeEqual.cases) (auto simp: code_units_eq)
qed

lemma claims_valid:
  "job_inv r0 row \<Longrightarrow> e \<in> set (claims f xs row) \<Longrightarrow>
     \<exists>s t. snd (snd (snd e)) = JStr s \<and> j_acceptanceHash r0 = JStr t \<and> utf16_codes s = utf16_codes t"
proof (induction xs arbitrary: row)
  case (Cons x xs)
  have inv: "job_inv r0 (job_apply f x row)" using Cons.prems by (simp add: job_inv_apply)
  from Cons.prems(2) show ?case
  proof (cases rule: claims_ConsE)
    case 1
    with Cons.IH inv show ?thesis by blast
  next
    case (2 pf now h n r)
    from 2(2) have "validProof row pf h = Some True" by (cases rule: claimJob_cases) auto
    from claim_proved [OF this] 2(3) Cons.prems(1) show ?thesis by (simp add: job_inv_def)
  qed
qed simp

lemma first_claim:
  "job_inv r0 row \<Longrightarrow> j_state row \<noteq> Accepted \<Longrightarrow> claims f xs row = e # es \<Longrightarrow>
     j_notBefore r0 \<le> fst (snd e) \<and> fst (snd e) < j_expiresAt r0 \<and> (\<forall>d \<in> set es. fst d = fst e)"
proof (induction xs arbitrary: row)
  case (Cons x xs)
  have inv: "job_inv r0 (job_apply f x row)" using Cons.prems by (simp add: job_inv_apply)
  show ?case
  proof (cases "\<exists>pf now h n r. x = Claim pf now h \<and> claimJob row pf now h = Some (Done n r)")
    case True
    then obtain pf now h n r
      where x: "x = Claim pf now h" "claimJob row pf now h = Some (Done n r)" by blast
    have e: "e = (str_of (field ''claimId'' pf), now, pf, h)" "es = claims f xs r"
      using Cons.prems(3) x by simp_all
    from x(2) show ?thesis
    proof (cases rule: claimJob_cases)
      case 2
      then have "j_claimId r = Some (fst e)" using e by simp
      then have "\<forall>d \<in> set es. fst d = fst e"
        using claims_of_claimed [of r0 r "fst e"] inv x e(2) by auto
      then show ?thesis using 2 e Cons.prems(1) by (auto simp: job_inv_def)
    qed (use Cons.prems(2) in simp)
  next
    case False
    then have "claim_here x row = []" by (intro claim_here_none) blast
    moreover have "j_state (job_apply f x row) \<noteq> Accepted"
      using False Cons.prems(2) by (intro no_claim_not_accepted) blast+
    ultimately show ?thesis using Cons.IH inv Cons.prems(3) by simp
  qed
qed simp

section \<open>The canonical form\<close>

text \<open>Two submissions of the same fields and values, in any order of the envelope's fields and of
  the body's.\<close>

definition same_submission :: "js \<Rightarrow> js \<Rightarrow> bool" where
  "same_submission b b' \<longleftrightarrow> (\<exists>kvs kvs' e e'. b = JObj kvs \<and> b' = JObj kvs'
     \<and> fst ` set kvs = fst ` set kvs' \<and> (\<forall>k. k \<noteq> ''envelope'' \<longrightarrow> field k b = field k b')
     \<and> field ''envelope'' b = JObj e \<and> field ''envelope'' b' = JObj e'
     \<and> mset e = mset e' \<and> distinct (map fst e))"

lemma same_submissionE:
  assumes "same_submission b b'"
  obtains kvs kvs' e e' where "b = JObj kvs" "b' = JObj kvs'" "fst ` set kvs = fst ` set kvs'"
    "\<forall>k. k \<noteq> ''envelope'' \<longrightarrow> field k b = field k b'" "field ''envelope'' b = JObj e"
    "field ''envelope'' b' = JObj e'" "mset e = mset e'" "distinct (map fst e)"
proof -
  from assms show thesis unfolding same_submission_def
    by (elim exE conjE) (rule that)
qed

lemma field_permuted:
  assumes "mset e = mset e'" "distinct (map fst e)"
  shows "field k (JObj e) = field k (JObj e')"
proof -
  have "distinct (map fst e')" using assms by (metis mset_eq_imp_distinct_iff mset_map)
  then have "map_of e = map_of e'"
    using assms by (intro map_of_inject_set [THEN iffD2]) (auto dest: mset_eq_setD)
  then show ?thesis by simp
qed

lemma envelopeProblem_fields:
  assumes "\<And>k. field k e = field k e'" "set (object_keys e) = set (object_keys e')"
    "is_object e = is_object e'"
  shows "envelopeProblem e room now m = envelopeProblem e' room now m"
  by (simp only: envelopeProblem_def envelope_header_ok_def list_all_iff validRetainedState_def
      no_retained_fields_def retained_numbers_ok_def ttl_limit_def extended_submission_def
      valid_nonce_box_def assms)

lemma field_rank_inj: "inj_on field_rank (set ENVELOPE_FIELDS)"
  by (auto simp: inj_on_def ENVELOPE_FIELDS_def field_rank_def SORTED_FIELDS_def)

lemma filter_eq_one:
  "distinct xs \<Longrightarrow> inj_on f (set xs) \<Longrightarrow> k \<in> set xs \<Longrightarrow> filter (\<lambda>x. f k = f x) xs = [k]"
proof (induction xs)
  case (Cons x xs)
  show ?case
  proof (cases "x = k")
    case True
    with Cons.prems have "filter (\<lambda>y. f k = f y) xs = []"
      by (auto simp: filter_empty_conv inj_on_def)
    with True show ?thesis by simp
  next
    case False
    with Cons show ?thesis by (auto simp: inj_on_def)
  qed
qed simp

text \<open>Sorting by an injective rank forgets the order.\<close>

lemma sort_key_permuted:
  assumes "mset xs = mset ys" "inj_on f (set xs)" "distinct xs"
  shows "sort_key f xs = sort_key f ys"
proof (rule properties_for_sort_key)
  show "mset (sort_key f ys) = mset xs" using assms(1) by simp
  show "sorted (map f (sort_key f ys))" by simp
  fix k
  assume k: "k \<in> set (sort_key f ys)"
  have sets: "set ys = set xs" using assms(1) by (metis mset_eq_setD)
  have "distinct ys" using assms(1,3) by (metis mset_eq_imp_distinct_iff)
  then have one: "filter (\<lambda>x. f k = f x) ys = [k]" "filter (\<lambda>x. f k = f x) xs = [k]"
    using k sets assms(2,3) filter_eq_one [of xs f k] filter_eq_one [of ys f k] by simp_all
  show "filter (\<lambda>x. f k = f x) (sort_key f ys) = filter (\<lambda>x. f k = f x) xs"
    using one by (simp add: filter_sort)
qed

lemma ordered_permuted:
  assumes "mset e = mset e'" "distinct (map fst e)" "list_all (\<lambda>k. k \<in> set ENVELOPE_FIELDS) (map fst e)"
  shows "ordered_envelope (JObj e) = ordered_envelope (JObj e')"
proof -
  have "inj_on (\<lambda>x. field_rank (fst x)) (set e)"
    using assms(2,3) field_rank_inj
    by (auto simp: inj_on_def list_all_iff distinct_map)
  then show ?thesis
    using assms(1,2) by (simp add: sort_key_permuted distinct_map)
qed

lemma validEnvelope_keys:
  "validEnvelope (JObj e) room now m = Some True \<Longrightarrow> list_all (\<lambda>k. k \<in> set ENVELOPE_FIELDS) (map fst e)"
  by (simp add: validEnvelope_def envelopeProblem_def checked_def envelope_header_ok_def
      split: verdict.splits if_splits)

lemma job_envelope_valid:
  "job_envelope_ok room i b now = Some True \<Longrightarrow>
     validEnvelope (field ''envelope'' b) room now (Some JOB_TTL_MS) = Some True"
  by (simp add: job_envelope_ok_def Let_def js_and_def split: if_splits option.splits bool.splits)

lemma job_checks_same:
  assumes "same_submission b b'"
  shows "job_header_ok r i b = job_header_ok r i b'" "job_writer_ok b = job_writer_ok b'"
    "job_times_ok b now = job_times_ok b' now" "job_envelope_ok room j b now = job_envelope_ok room j b' now"
proof -
  from assms obtain kvs kvs' e e' where b: "b = JObj kvs" "b' = JObj kvs'" "fst ` set kvs = fst ` set kvs'"
    and f0: "\<forall>k. k \<noteq> ''envelope'' \<longrightarrow> field k b = field k b'"
    and e: "field ''envelope'' b = JObj e" "field ''envelope'' b' = JObj e'" "mset e = mset e'"
      "distinct (map fst e)"
    by (rule same_submissionE)
  note f = f0 [rule_format]
  have fe: "field k (JObj e) = field k (JObj e')" for k using e by (intro field_permuted)
  have keys: "set (object_keys (JObj e)) = set (object_keys (JObj e'))"
    using e(3) by (metis mset_eq_setD mset_map object_keys.simps(1))
  have valid: "validEnvelope (JObj e) room now m = validEnvelope (JObj e') room now m" for m
    unfolding validEnvelope_def
    using envelopeProblem_fields [of "JObj e" "JObj e'" room now m, OF fe keys] by simp
  have obj: "is_object b = is_object b'" "truthy b = truthy b'" "set (object_keys b) = set (object_keys b')"
    using b by simp_all
  show "job_header_ok r i b = job_header_ok r i b'"
    unfolding job_header_ok_def list_all_iff obj by (simp add: f)
  show "job_writer_ok b = job_writer_ok b'" unfolding job_writer_ok_def by (simp add: f)
  show "job_times_ok b now = job_times_ok b' now" unfolding job_times_ok_def by (simp add: f)
  show "job_envelope_ok room j b now = job_envelope_ok room j b' now"
    unfolding job_envelope_ok_def e Let_def fe valid by (simp add: f)
qed

section \<open>Properties\<close>

text \<open>C1: a job is accepted by at most one receiver: in every run of claims, cancellations,
  reports and expiries all successful claims carry the same receiver attempt and a token with the
  hash the submitter chose, and the first of them happens within the job's time window.\<close>

theorem one_receiver:
  assumes "claims f xs (new_job n i fp t0) = e # es"
  shows "nj_notBefore n \<le> fst (snd e) \<and> fst (snd e) < nj_expiresAt n
    \<and> (\<forall>d \<in> set es. fst d = fst e)
    \<and> (\<forall>d \<in> set (e # es). \<exists>s t. snd (snd (snd d)) = JStr s \<and> nj_acceptanceHash n = JStr t
          \<and> utf16_codes s = utf16_codes t)"
proof -
  let ?r = "new_job n i fp t0"
  have r: "j_state ?r \<noteq> Accepted" "j_notBefore ?r = nj_notBefore n" "j_expiresAt ?r = nj_expiresAt n"
    "j_acceptanceHash ?r = nj_acceptanceHash n" by (simp_all add: new_job_def)
  from first_claim [OF job_inv_new r(1) assms] claims_valid [OF job_inv_new, of _ f xs n i fp t0]
  show ?thesis unfolding r assms by blast
qed

text \<open>C25: whatever happens to a job, its identity and window never change, its state only makes
  the permitted moves, and as soon as it is completed, cancelled or expired its ciphertext is gone
  from the record and no operation changes it again; until then the record keeps it.\<close>

theorem job_lifecycle:
  assumes "job_reach f (new_job n i fp t0) row"
  shows "j_id row = i \<and> j_expiresAt row = nj_expiresAt n \<and> j_notBefore row = nj_notBefore n
    \<and> (j_state (job_apply f x row) = j_state row \<or> moves (j_state row) (j_state (job_apply f x row)))
    \<and> (if retainsTaskPayload row then j_envelope row = nj_envelope n \<and> j_bytes row = nj_bytes n
       else j_envelope row = without [''box'', ''nonce''] (nj_envelope n) \<and> j_bytes row = 0
         \<and> job_apply f x row = row)"
proof -
  let ?r = "new_job n i fp t0"
  have inv: "job_inv ?r row" by (rule job_inv_reach [OF assms job_inv_new])
  have r: "j_id ?r = i" "j_expiresAt ?r = nj_expiresAt n" "j_notBefore ?r = nj_notBefore n"
    "j_envelope ?r = nj_envelope n" "j_bytes ?r = nj_bytes n" by (simp_all add: new_job_def)
  have "j_state (job_apply f x row) = j_state row \<or> moves (j_state row) (j_state (job_apply f x row))"
    by (cases f x row rule: job_apply_cases) auto
  moreover have "retired row \<Longrightarrow> job_apply f x row = row"
    by (cases f x row rule: job_apply_cases) (auto simp: retired_def)
  ultimately show ?thesis using inv unfolding job_inv_def r by (auto simp: retired_iff)
qed

text \<open>repeating a submission is idempotent whatever the order of its fields: two bodies with
  the same fields and values normalise to the same job with the same canonical text.\<close>

theorem normalizeJob_order:
  assumes "same_submission b b'"
  shows "normalizeJob f room i b now = normalizeJob f room i b' now"
proof -
  from assms obtain kvs kvs' e e' where "b = JObj kvs" "b' = JObj kvs'" "fst ` set kvs = fst ` set kvs'"
    and f0: "\<forall>k. k \<noteq> ''envelope'' \<longrightarrow> field k b = field k b'"
    and e: "field ''envelope'' b = JObj e" "field ''envelope'' b' = JObj e'" "mset e = mset e'"
      "distinct (map fst e)"
    by (rule same_submissionE)
  note f = f0 [rule_format]
  have "ordered_envelope (JObj e) = ordered_envelope (JObj e')"
    if "job_envelope_ok (str_of room) (str_of i) b' now = Some True"
    using job_envelope_valid [OF that] e job_checks_same(4) [OF assms, of "str_of room" "str_of i" now]
      job_envelope_valid [of "str_of room" "str_of i" b now] that
    by (intro ordered_permuted validEnvelope_keys) auto
  then show ?thesis
    unfolding normalizeJob_def job_checks_same [OF assms] normal_object_def e
    by (auto simp: f Let_def js_and_def split: option.splits bool.splits)
qed

section \<open>Witnesses\<close>

definition sample_job :: normal_job where
  "sample_job = \<lparr>nj_notBefore = 100, nj_expiresAt = 1000, nj_acceptanceHash = JStr ''h'',
     nj_envelope = JObj [(''box'', JStr ''b''), (''recipientKeyId'', JStr ''k'')], nj_writerId = None,
     nj_writerSourceKeyId = JUndefined, nj_canonical = ''c'', nj_bytes = 7\<rparr>"

definition sample_proof :: js where
  "sample_proof = JObj [(''recipientKeyId'', JStr ''k''), (''token'', JStr (replicate 64 CHR ''a'')),
     (''claimId'', JStr ''attempt-1'')]"

lemmas job_eval = sample_job_def sample_proof_def new_job_def claimJob_def validProof_def strict_eq_def
  or_empty_def is_hex64_def hex_char_def char_between_def expireJob_def Let_def js_and_def code_units_eq
  id_char_def alnum_char_def class_repeat_def

theorem one_receiver_witness:
  "claims (\<lambda>_. []) [Claim sample_proof 200 (JStr ''h''), Claim sample_proof 300 (JStr ''h'')]
     (new_job sample_job ''job-0001'' ''fp'' 0)
   = [(''attempt-1'', 200, sample_proof, JStr ''h''), (''attempt-1'', 300, sample_proof, JStr ''h'')]
   \<and> nj_notBefore sample_job \<le> 200 \<and> 200 < nj_expiresAt sample_job"
proof -
  have c: "claims (\<lambda>_. []) [Claim sample_proof 200 (JStr ''h''), Claim sample_proof 300 (JStr ''h'')]
     (new_job sample_job ''job-0001'' ''fp'' 0)
    = [(''attempt-1'', 200, sample_proof, JStr ''h''), (''attempt-1'', 300, sample_proof, JStr ''h'')]"
    by (simp add: job_eval)
  from one_receiver [OF c] c show ?thesis by simp
qed

theorem job_lifecycle_witness:
  "job_apply (\<lambda>_. []) (Expire 3000) (job_apply (\<lambda>_. []) (Cancel 150) (new_job sample_job ''job-0001'' ''fp'' 0))
     = job_apply (\<lambda>_. []) (Cancel 150) (new_job sample_job ''job-0001'' ''fp'' 0)"
proof -
  let ?row = "job_apply (\<lambda>_. []) (Cancel 150) (new_job sample_job ''job-0001'' ''fp'' 0)"
  have "job_reach (\<lambda>_. []) (new_job sample_job ''job-0001'' ''fp'' 0) ?row"
    by (intro job_reach.step job_reach.start)
  from job_lifecycle [OF this, of "Expire 3000"] show ?thesis
    by (simp add: job_eval cancelJob_def retireJob_def retainsTaskPayload_def)
qed

definition sample_body :: "(string \<times> js) list \<Rightarrow> js" where
  "sample_body envelope = JObj [(''notBefore'', JInt 0), (''envelope'', JObj envelope)]"

theorem normalizeJob_order_witness:
  "normalizeJob (\<lambda>_. []) (JStr ''r'') (JStr ''i'') (sample_body [(''v'', JInt 1), (''to'', JStr ''machine'')]) 0
     = normalizeJob (\<lambda>_. []) (JStr ''r'') (JStr ''i'') (sample_body [(''to'', JStr ''machine''), (''v'', JInt 1)]) 0"
proof -
  have "same_submission (sample_body [(''v'', JInt 1), (''to'', JStr ''machine'')])
      (sample_body [(''to'', JStr ''machine''), (''v'', JInt 1)])"
    by (auto simp: same_submission_def sample_body_def add_mset_commute)
  from normalizeJob_order [OF this] show ?thesis by blast
qed

end
