(* ===== verification/Task_Store.thy ===== *)
theory Task_Store
  imports Task_Policy
begin

text \<open>
  The job stores of both runtimes: \<open>NodeTaskDispatchStore\<close> (\<open>src/taskDispatch/node.js\<close>) over a
  table, and \<open>WorkerTaskDispatchStore\<close> (\<open>src/taskDispatch/worker.js\<close>) over Durable Object storage,
  where the ciphertext of a job lives in chunks under keys of their own
  (\<open>src/taskDispatch/worker-ciphertext.js\<close>). The locale \<open>job_store\<close> states what the dispatch relies
  on; both stores are interpretations. Shows: an accepted job stays with its receiver through any
  operations of the store; capacity is respected; chunks are put together to the text they were
  made of; no ciphertext is left behind by a retired or purged job.

  \<open>sha\<close> stands for the hexadecimal SHA-256 digest, \<open>stringify\<close> for \<open>JSON.stringify\<close>. An operation
  that throws inside a transaction leaves the store unchanged; its result is \<open>None\<close>.
\<close>

type_synonym job_key = "string \<times> string"

text \<open>What an operation answers: an error, or a status with the public view of the job.\<close>

datatype store_reply = Rejected nat string | Answer nat public_job

definition RETENTION_MS :: int where "RETENTION_MS = 604800000"

datatype action = Claim_action | Finish_action | Cancel_action

text \<open>The transition of a row for an action of the HTTP interface.\<close>

definition act :: "(js \<Rightarrow> string) \<Rightarrow> action \<Rightarrow> job \<Rightarrow> js \<Rightarrow> time \<Rightarrow> string \<Rightarrow> reply option" where
  "act stringify a row proof now hash = (case a of
       Claim_action \<Rightarrow> claimJob row proof now (JStr hash)
     | Finish_action \<Rightarrow> finishJob stringify row proof now (JStr hash)
     | Cancel_action \<Rightarrow> Some (cancelJob row now))"

section \<open>The Node store\<close>

type_synonym task_table = "(job_key, job) jmap"

definition task_rows :: "task_table \<Rightarrow> string \<Rightarrow> job list" where
  "task_rows ts room = map snd (filter (\<lambda>e. fst (fst e) = room) ts)"

definition expireQueued :: "task_table \<Rightarrow> string \<Rightarrow> time \<Rightarrow> task_table" where
  "expireQueued ts room now = map (\<lambda>(k, r). (k, if fst k = room then expireJob r now else r)) ts"

text \<open>\<open>list\<close> and \<open>rows\<close>: every row of the room, expired ones written back.\<close>

definition node_list :: "task_table \<Rightarrow> string \<Rightarrow> time \<Rightarrow> public_job list \<times> task_table" where
  "node_list ts room now =
     (let ts1 = expireQueued ts room now in (map publicJob (task_rows ts1 room), ts1))"

text \<open>\<open>json_remove(record, '$.envelope.box', '$.envelope.nonce')\<close>.\<close>

definition stripped :: "job \<Rightarrow> job" where
  "stripped r = r\<lparr>j_envelope := without [''box'', ''nonce''] (j_envelope r)\<rparr>"

definition node_getPublic ::
  "task_table \<Rightarrow> string \<Rightarrow> string \<Rightarrow> time \<Rightarrow> bool \<Rightarrow> public_job option \<times> task_table" where
  "node_getPublic ts room jobId now metadataOnly =
     (let ts1 = expireQueued ts room now
      in (map_option (\<lambda>r. publicJob (if metadataOnly then stripped r else r)) (jm_get ts1 (room, jobId)), ts1))"

definition node_listActive :: "task_table \<Rightarrow> string \<Rightarrow> time \<Rightarrow> public_job list \<times> task_table" where
  "node_listActive ts room now =
     (let ts1 = expireQueued ts room now
      in (map (publicJob \<circ> stripped) (filter retainsTaskPayload (task_rows ts1 room)), ts1))"

definition node_due ::
  "task_table \<Rightarrow> string \<Rightarrow> js \<Rightarrow> time \<Rightarrow> string list \<Rightarrow> public_job list \<times> task_table" where
  "node_due ts room recipientKeyId now excluded =
     (let ts1 = expireQueued ts room now;
          ready = filter (\<lambda>r. j_state r = Queued \<and> field ''recipientKeyId'' (j_envelope r) = recipientKeyId
             \<and> j_notBefore r \<le> now \<and> j_expiresAt r > now \<and> j_id r \<notin> set excluded) (task_rows ts1 room)
      in (map publicJob (take 1 (sort_key (\<lambda>r. j_notBefore r) (sort_key (\<lambda>r. j_updatedAt r) ready))), ts1))"

definition node_put ::
  "(js \<Rightarrow> string) \<Rightarrow> (string \<Rightarrow> string) \<Rightarrow> task_table \<Rightarrow> string \<Rightarrow> string \<Rightarrow> js \<Rightarrow> time
     \<Rightarrow> store_reply option \<times> task_table" where
  "node_put stringify sha ts room jobId v now =
     (let existing = jm_get ts (room, jobId) in
      case normalizeJob stringify (JStr room) (JStr jobId) v
             (case existing of Some r \<Rightarrow> j_createdAt r | None \<Rightarrow> now) of
        Thrown \<Rightarrow> (None, ts)
      | Refused \<Rightarrow> (Some (Rejected 400 ''invalid encrypted task job''), ts)
      | Value n \<Rightarrow>
         (case existing of
            Some r \<Rightarrow>
              (Some (if j_fingerprint r = sha (nj_canonical n) then Answer 200 (publicJob (expireJob r now))
                     else Rejected 409 ''job identity already exists''), ts)
          | None \<Rightarrow>
              (let ts1 = expireQueued ts room now; rows = task_rows ts1 room;
                   active = filter retainsTaskPayload rows
               in if length rows \<ge> ROOM_RECEIPT_LIMIT \<or> length active \<ge> ROOM_JOB_LIMIT
                     \<or> sum_list (map j_bytes active) + nj_bytes n > ROOM_JOB_BYTES
                  then (Some (Rejected 429 ''task queue capacity reached''), ts1)
                  else let row = new_job n jobId (sha (nj_canonical n)) now
                       in (Some (Answer 201 (publicJob row)), jm_set ts1 (room, jobId) row))))"

definition node_transition ::
  "(js \<Rightarrow> string) \<Rightarrow> (string \<Rightarrow> string) \<Rightarrow> task_table \<Rightarrow> string \<Rightarrow> string \<Rightarrow> action \<Rightarrow> js \<Rightarrow> time
     \<Rightarrow> store_reply option \<times> task_table" where
  "node_transition stringify sha ts room jobId a v now =
     (case jm_get ts (room, jobId) of
        None \<Rightarrow> (Some (Rejected 404 ''unknown task job''), ts)
      | Some row \<Rightarrow>
          if a \<noteq> Cancel_action \<and> to_string_throws (or_empty (field ''token'' v)) then (None, ts)
          else (case act stringify a row v now (sha (proof_text (or_empty (field ''token'' v)))) of
              None \<Rightarrow> (None, ts)
            | Some (Fail s e) \<Rightarrow> (Some (Rejected s e), ts)
            | Some (Done s r) \<Rightarrow> (Some (Answer s (publicJob r)), jm_set ts (room, jobId) r)))"

text \<open>\<open>purgeInTransaction\<close> on the table: the rows its query selects are expired, then dropped a
  week after their expiry and last update, unless a receiver holds them.\<close>

definition purge_selects :: "time \<Rightarrow> job \<Rightarrow> bool" where
  "purge_selects now r \<longleftrightarrow> (j_state r = Queued \<and> j_expiresAt r \<le> now)
     \<or> (j_state r \<noteq> Accepted \<and> j_expiresAt r < now - RETENTION_MS \<and> j_updatedAt r < now - RETENTION_MS)"

definition outdated :: "time \<Rightarrow> job \<Rightarrow> bool" where
  "outdated now r \<longleftrightarrow> j_state r \<noteq> Accepted \<and> now > max (j_expiresAt r) (j_updatedAt r) + RETENTION_MS"

fun node_purge :: "task_table \<Rightarrow> time \<Rightarrow> task_table" where
  "node_purge [] now = []"
| "node_purge ((k, saved) # ts) now =
     (if purge_selects now saved then
        (let row = expireJob saved now
         in if outdated now row then node_purge ts now else (k, row) # node_purge ts now)
      else (k, saved) # node_purge ts now)"

section \<open>The Durable Object store\<close>

definition CHUNK_BYTES :: nat where "CHUNK_BYTES = 64000"

text \<open>Rows under \<open>task-job:<room>:<id>\<close>, chunks under \<open>task-box:<room>:<id>:<index>\<close>.\<close>

record task_storage =
  ts_rows :: "(job_key, job) jmap"
  ts_chunks :: "job_key \<times> nat \<rightharpoonup> string"

definition chunk :: "string \<Rightarrow> nat \<Rightarrow> string" where
  "chunk box index = take CHUNK_BYTES (drop (index * CHUNK_BYTES) box)"

fun put_chunks :: "job_key \<Rightarrow> string \<Rightarrow> nat \<Rightarrow> (job_key \<times> nat \<rightharpoonup> string) \<Rightarrow> (job_key \<times> nat \<rightharpoonup> string)" where
  "put_chunks k box 0 m = m"
| "put_chunks k box (Suc n) m = (put_chunks k box n m)((k, n) \<mapsto> chunk box n)"

fun deleteCiphertext :: "job_key \<Rightarrow> nat \<Rightarrow> (job_key \<times> nat \<rightharpoonup> string) \<Rightarrow> (job_key \<times> nat \<rightharpoonup> string)" where
  "deleteCiphertext k 0 m = m"
| "deleteCiphertext k (Suc n) m = (deleteCiphertext k n m)((k, n) := None)"

definition drop_cipher :: "job_key \<Rightarrow> job \<Rightarrow> (job_key \<times> nat \<rightharpoonup> string) \<Rightarrow> (job_key \<times> nat \<rightharpoonup> string)" where
  "drop_cipher k row m = (case j_cipher row of None \<Rightarrow> m | Some c \<Rightarrow> deleteCiphertext k (ci_count c) m)"

definition writeTaskJob :: "(string \<Rightarrow> string) \<Rightarrow> task_storage \<Rightarrow> job_key \<Rightarrow> job \<Rightarrow> task_storage" where
  "writeTaskJob sha s k input =
     (let boxed = field ''box'' (j_envelope input);
          (cipher, chunks) =
            (if \<not> retainsTaskPayload input then (None, drop_cipher k input (ts_chunks s))
             else if j_cipher input = None \<and> is_string boxed then
               (let text = str_of boxed; count = ceil_div (js_length text) CHUNK_BYTES
                in (Some \<lparr>ci_count = count, ci_digest = sha text, ci_bytes = js_length text\<rparr>,
                    put_chunks k text count (ts_chunks s)))
             else (j_cipher input, ts_chunks s));
          row = input\<lparr>j_cipher := cipher, j_envelope := without [''box''] (j_envelope input)\<rparr>
      in \<lparr>ts_rows = jm_set (ts_rows s) k row, ts_chunks = chunks\<rparr>)"

fun collect_chunks :: "job_key \<Rightarrow> nat \<Rightarrow> (job_key \<times> nat \<rightharpoonup> string) \<Rightarrow> string option" where
  "collect_chunks k 0 m = Some []"
| "collect_chunks k (Suc n) m = (case collect_chunks k n m of
       None \<Rightarrow> None
     | Some front \<Rightarrow> (case m (k, n) of
           None \<Rightarrow> None
         | Some c \<Rightarrow> if js_length c > CHUNK_BYTES then None else Some (front @ c)))"

fun with_box :: "string \<Rightarrow> js \<Rightarrow> js" where
  "with_box box (JObj kvs) = JObj (jm_set kvs ''box'' (JStr box))"
| "with_box box v = v"

text \<open>\<open>hydrateTaskJob\<close>; \<open>None\<close> when the stored chunks are invalid, incomplete or corrupt.\<close>

definition hydrateTaskJob :: "(string \<Rightarrow> string) \<Rightarrow> task_storage \<Rightarrow> job_key \<Rightarrow> job \<Rightarrow> job option" where
  "hydrateTaskJob sha s k input = (case j_cipher input of
       None \<Rightarrow> Some input
     | Some c \<Rightarrow>
         if ci_count c < 1 \<or> ci_count c > 350 \<or> ci_bytes c < 24 \<or> ci_bytes c > 22000000 then None
         else (case collect_chunks k (ci_count c) (ts_chunks s) of
             None \<Rightarrow> None
           | Some box \<Rightarrow>
               if js_length box \<noteq> ci_bytes c \<or> sha box \<noteq> ci_digest c then None
               else Some (input\<lparr>j_envelope := with_box box (j_envelope input)\<rparr>)))"

text \<open>\<open>rows\<close>: the rows of a room, expired ones written back.\<close>

fun write_expired ::
  "(string \<Rightarrow> string) \<Rightarrow> time \<Rightarrow> (job_key \<times> job) list \<Rightarrow> task_storage \<Rightarrow> job list \<times> task_storage" where
  "write_expired sha now [] s = ([], s)"
| "write_expired sha now ((k, saved) # es) s =
     (let row = expireJob saved now;
          s1 = (if row \<noteq> saved then writeTaskJob sha s k row else s)
      in case write_expired sha now es s1 of (rows, s2) \<Rightarrow> (row # rows, s2))"

definition worker_rows_of :: "(string \<Rightarrow> string) \<Rightarrow> task_storage \<Rightarrow> string \<Rightarrow> time \<Rightarrow> job list \<times> task_storage" where
  "worker_rows_of sha s room now =
     write_expired sha now (filter (\<lambda>e. fst (fst e) = room) (ts_rows s)) s"

definition worker_getPublic ::
  "(string \<Rightarrow> string) \<Rightarrow> task_storage \<Rightarrow> string \<Rightarrow> string \<Rightarrow> time \<Rightarrow> bool
     \<Rightarrow> public_job option option \<times> task_storage" where
  "worker_getPublic sha s room jobId now metadataOnly =
     (case jm_get (ts_rows s) (room, jobId) of
        None \<Rightarrow> (Some None, s)
      | Some saved \<Rightarrow>
          (let row = expireJob saved now;
               s1 = (if row \<noteq> saved then writeTaskJob sha s (room, jobId) row else s)
           in (if metadataOnly then Some (Some (publicJob row))
               else map_option (\<lambda>r. Some (publicJob r)) (hydrateTaskJob sha s1 (room, jobId) row), s1)))"

definition worker_due ::
  "(string \<Rightarrow> string) \<Rightarrow> task_storage \<Rightarrow> string \<Rightarrow> js \<Rightarrow> time \<Rightarrow> string list
     \<Rightarrow> public_job list option \<times> task_storage" where
  "worker_due sha s room recipientKeyId now excluded =
     (case worker_rows_of sha s room now of (rows, s1) \<Rightarrow>
        let ready = filter (\<lambda>r. j_state r = Queued \<and> j_notBefore r \<le> now
              \<and> field ''recipientKeyId'' (j_envelope r) = recipientKeyId \<and> j_id r \<notin> set excluded) rows
        in (case sort_key (\<lambda>r. j_notBefore r) (sort_key (\<lambda>r. j_createdAt r) ready) of
              [] \<Rightarrow> (Some [], s1)
            | r # _ \<Rightarrow> (map_option (\<lambda>h. [publicJob h]) (hydrateTaskJob sha s1 (room, j_id r) r), s1)))"

definition worker_put ::
  "(js \<Rightarrow> string) \<Rightarrow> (string \<Rightarrow> string) \<Rightarrow> task_storage \<Rightarrow> string \<Rightarrow> string \<Rightarrow> js \<Rightarrow> time
     \<Rightarrow> store_reply option \<times> task_storage" where
  "worker_put stringify sha s room jobId v now =
     (let existing = jm_get (ts_rows s) (room, jobId) in
      case normalizeJob stringify (JStr room) (JStr jobId) v
             (case existing of Some r \<Rightarrow> j_createdAt r | None \<Rightarrow> now) of
        Thrown \<Rightarrow> (None, s)
      | Refused \<Rightarrow> (Some (Rejected 400 ''invalid encrypted task job''), s)
      | Value n \<Rightarrow>
         (case existing of
            Some r \<Rightarrow>
              (Some (if j_fingerprint r = sha (nj_canonical n) then Answer 200 (publicJob (expireJob r now))
                     else Rejected 409 ''job identity already exists''), s)
          | None \<Rightarrow>
              (case worker_rows_of sha s room now of (rows, s1) \<Rightarrow>
                 let active = filter retainsTaskPayload rows
                 in if length rows \<ge> ROOM_RECEIPT_LIMIT \<or> length active \<ge> ROOM_JOB_LIMIT
                       \<or> sum_list (map j_bytes active) + nj_bytes n > ROOM_JOB_BYTES
                    then (Some (Rejected 429 ''task queue capacity reached''), s1)
                    else let row = new_job n jobId (sha (nj_canonical n)) now
                         in (Some (Answer 201 (publicJob row)), writeTaskJob sha s1 (room, jobId) row))))"

definition worker_transition ::
  "(js \<Rightarrow> string) \<Rightarrow> (string \<Rightarrow> string) \<Rightarrow> task_storage \<Rightarrow> string \<Rightarrow> string \<Rightarrow> action \<Rightarrow> js \<Rightarrow> time
     \<Rightarrow> store_reply option \<times> task_storage" where
  "worker_transition stringify sha s room jobId a v now =
     (case jm_get (ts_rows s) (room, jobId) of
        None \<Rightarrow> (Some (Rejected 404 ''unknown task job''), s)
      | Some row \<Rightarrow>
          (case act stringify a row v now
                  (sha (if is_string (field ''token'' v) then str_of (field ''token'' v) else [])) of
             None \<Rightarrow> (None, s)
           | Some (Fail st e) \<Rightarrow> (Some (Rejected st e), s)
           | Some (Done st r) \<Rightarrow> (Some (Answer st (publicJob r)), writeTaskJob sha s (room, jobId) r)))"

text \<open>\<open>maintain\<close>: expiry, removal of outdated rows with their chunks, and the time of the next
  alarm. \<open>connected\<close> are the recipients with a socket, when the caller knows them.\<close>

definition job_deadline :: "time \<Rightarrow> js list option \<Rightarrow> job \<Rightarrow> time option" where
  "job_deadline now connected row =
     (if j_state row = Queued then
        Some (case connected of
            Some c \<Rightarrow> if field ''recipientKeyId'' (j_envelope row) \<notin> set c then j_expiresAt row
              else min (j_expiresAt row) (if j_notBefore row > now then j_notBefore row else now + 15000)
          | None \<Rightarrow> min (j_expiresAt row) (if j_notBefore row > now then j_notBefore row else now + 15000))
      else if j_state row = Accepted then None
      else Some (max (j_expiresAt row) (j_updatedAt row) + RETENTION_MS))"

definition earlier :: "time option \<Rightarrow> time option \<Rightarrow> time option" where
  "earlier a b = (case b of None \<Rightarrow> a | Some t \<Rightarrow> (case a of None \<Rightarrow> Some t | Some u \<Rightarrow> Some (min u t)))"

fun maintain_loop ::
  "(string \<Rightarrow> string) \<Rightarrow> time \<Rightarrow> js list option \<Rightarrow> (job_key \<times> job) list \<Rightarrow> time option \<Rightarrow> task_storage
     \<Rightarrow> time option \<times> task_storage" where
  "maintain_loop sha now connected [] deadline s = (deadline, s)"
| "maintain_loop sha now connected ((k, saved) # es) deadline s =
     (let row = expireJob saved now in
      if outdated now row then
        maintain_loop sha now connected es deadline
          \<lparr>ts_rows = jm_delete (ts_rows s) k, ts_chunks = drop_cipher k row (ts_chunks s)\<rparr>
      else maintain_loop sha now connected es (earlier deadline (job_deadline now connected row))
        (if row \<noteq> saved then writeTaskJob sha s k row else s))"

definition maintain ::
  "(string \<Rightarrow> string) \<Rightarrow> time \<Rightarrow> js list option \<Rightarrow> time option \<Rightarrow> task_storage \<Rightarrow> time option \<times> task_storage" where
  "maintain sha now connected configurationsNext s =
     maintain_loop sha now connected (ts_rows s) configurationsNext s"

section \<open>What the dispatch relies on\<close>

text \<open>A row without its ciphertext and the place where that is kept.\<close>

definition core :: "job \<Rightarrow> job" where
  "core r = r\<lparr>j_envelope := without [''box''] (j_envelope r), j_cipher := None\<rparr>"

datatype store_op =
    SPut string string js time
  | SAct string string action js time
  | SRows string time
  | SGet string string time
  | SPurge time

fun action_op :: "action \<Rightarrow> js \<Rightarrow> time \<Rightarrow> js \<Rightarrow> job_op" where
  "action_op Claim_action v now h = Claim v now h"
| "action_op Finish_action v now h = Finish v now h"
| "action_op Cancel_action v now h = Cancel now"

text \<open>
  The interface. \<open>view\<close> reads the row of a job, \<open>step\<close> is an operation with its answer. A row only
  changes by an operation of the job policy on it, by an action only if the operation is that
  action on this job, and only a purge removes a row, once it is outdated.
\<close>

locale job_store =
  fixes view :: "'s \<Rightarrow> job_key \<Rightarrow> job option"
    and step :: "store_op \<Rightarrow> 's \<Rightarrow> store_reply option \<times> 's"
    and ok :: "'s \<Rightarrow> bool"
    and f :: "js \<Rightarrow> string"
  assumes ok_step: "ok s \<Longrightarrow> ok (snd (step x s))"
    and row_step: "ok s \<Longrightarrow> view s k = Some r \<Longrightarrow>
      view (snd (step x s)) k = Some r
      \<or> (\<exists>now. view (snd (step x s)) k = Some (expireJob r now))
      \<or> (\<exists>a v now h. x = SAct (fst k) (snd k) a v now
           \<and> view (snd (step x s)) k = Some (job_apply f (action_op a v now h) r))
      \<or> (\<exists>now. x = SPurge now \<and> view (snd (step x s)) k = None \<and> outdated now (expireJob r now))"
    and claim_answer: "ok s \<Longrightarrow> view s (room, i) = Some r \<Longrightarrow>
      fst (step (SAct room i Claim_action v now) s) = Some (Answer n pj) \<Longrightarrow>
      \<exists>h m r'. claimJob r v now h = Some (Done m r')"
begin

fun run :: "store_op list \<Rightarrow> 's \<Rightarrow> 's" where
  "run [] s = s"
| "run (x # xs) s = run xs (snd (step x s))"

lemma run_fold: "run xs s = fold (\<lambda>x s. snd (step x s)) xs s"
  by (induction xs arbitrary: s) simp_all

lemma accepted_step:
  assumes "ok s" "view s k = Some r" "j_state r = Accepted" "j_claimId r = Some c"
    and "\<forall>v now. x \<noteq> SAct (fst k) (snd k) Finish_action v now"
  shows "\<exists>r'. view (snd (step x s)) k = Some r' \<and> j_state r' = Accepted \<and> j_claimId r' = Some c"
proof -
  have same: "expireJob r now = r" for now using assms(3) by (simp add: expireJob_def)
  have act: "job_apply f (action_op a v now h) r = r" if "a \<noteq> Finish_action" for a v now h
  proof (cases a)
    case Claim_action
    then show ?thesis using assms(3)
      by (cases "(r, claimJob r v now h)" rule: reply_row.cases) (auto elim!: claimJob_cases)
  next
    case Cancel_action
    then show ?thesis using assms(3) by (simp add: cancelJob_def same Let_def)
  qed (use that in simp)
  show ?thesis using row_step [OF assms(1,2), of x] assms(3-5) same act
    by (auto simp: outdated_def)
qed

lemma accepted_run:
  "ok s \<Longrightarrow> view s k = Some r \<Longrightarrow> j_state r = Accepted \<Longrightarrow> j_claimId r = Some c \<Longrightarrow>
   \<forall>x \<in> set xs. \<forall>v now. x \<noteq> SAct (fst k) (snd k) Finish_action v now \<Longrightarrow>
   \<exists>r'. ok (run xs s) \<and> view (run xs s) k = Some r' \<and> j_state r' = Accepted \<and> j_claimId r' = Some c"
proof (induction xs arbitrary: s r)
  case (Cons x xs)
  from Cons.prems(5) have x: "\<forall>v now. x \<noteq> SAct (fst k) (snd k) Finish_action v now" by simp
  from accepted_step [OF Cons.prems(1-4) x] obtain r'
    where "view (snd (step x s)) k = Some r'" "j_state r' = Accepted" "j_claimId r' = Some c" by blast
  with Cons.IH [of "snd (step x s)" r'] Cons.prems ok_step show ?case by simp
qed auto

lemma second_receiver_refused:
  assumes "ok s" "view s (room, i) = Some r" "j_state r = Accepted" "j_claimId r = Some c"
    and "fst (step (SAct room i Claim_action v now) s) = Some (Answer n pj)"
  shows "field ''claimId'' v = JStr c"
proof -
  from claim_answer [OF assms(1,2,5)] obtain h m r' where "claimJob r v now h = Some (Done m r')" by blast
  then have "str_of (field ''claimId'' v) = c \<and> validJobId (field ''claimId'' v)"
    using assms(3,4)
    by (auto simp: claimJob_def expireJob_def Let_def split: option.splits bool.splits if_splits)
  then show ?thesis by (cases "field ''claimId'' v") auto
qed

end

section \<open>Rows without ciphertext\<close>

lemma field_without_other [simp]: "k \<notin> set ks \<Longrightarrow> field k (without ks v) = field k v"
proof (cases v)
  case (JObj kvs)
  assume "k \<notin> set ks"
  then have "map_of (filter (\<lambda>e. fst e \<notin> set ks) kvs) k = map_of kvs k"
    by (induction kvs) auto
  with JObj show ?thesis by simp
qed simp_all

lemma without_without [simp]: "without ks (without js v) = without (js @ ks) v"
  by (cases v) (auto simp: conj_commute)

lemma without_set: "set ks = set js \<Longrightarrow> without ks v = without js v"
  by (cases v) auto

lemma core_simps [simp]:
  "j_state (core r) = j_state r" "j_expiresAt (core r) = j_expiresAt r" "j_notBefore (core r) = j_notBefore r"
  "j_updatedAt (core r) = j_updatedAt r" "j_claimId (core r) = j_claimId r" "j_writerId (core r) = j_writerId r"
  "j_writerSourceKeyId (core r) = j_writerSourceKeyId r" "j_acceptanceHash (core r) = j_acceptanceHash r"
  "k \<noteq> ''box'' \<Longrightarrow> field k (j_envelope (core r)) = field k (j_envelope r)"
  by (simp_all add: core_def)

lemma core_retire: "retireJob (core r) s t = core (retireJob r s t)"
  by (rule job.equality) (auto simp: core_def retireJob_def intro!: without_set)

lemma core_expire: "expireJob (core r) t = core (expireJob r t)"
  by (simp add: expireJob_def core_retire)

lemma core_outdated [simp]: "outdated t (core r) = outdated t r"
  by (simp add: outdated_def)

fun reply_core :: "reply \<Rightarrow> reply" where
  "reply_core (Fail n e) = Fail n e"
| "reply_core (Done n r) = Done n (core r)"

lemma core_proof: "validProof (core r) v h = validProof r v h"
  by (simp add: validProof_def)

lemma core_claim: "claimJob (core r) v t h = map_option reply_core (claimJob r v t h)"
proof -
  have "(core q)\<lparr>j_state := a, j_claimId := b, j_updatedAt := c\<rparr>
      = core (q\<lparr>j_state := a, j_claimId := b, j_updatedAt := c\<rparr>)" for q a b c
    by (simp add: core_def)
  then show ?thesis
    by (simp add: claimJob_def core_proof core_expire Let_def split: option.split bool.split)
qed

lemma core_cancel: "cancelJob (core r) t = reply_core (cancelJob r t)"
  by (simp add: cancelJob_def core_expire core_retire Let_def)

lemma core_finished: "finished_row (core r) s t c e = core (finished_row r s t c e)"
proof -
  have "(core q)\<lparr>j_state := a, j_updatedAt := b\<rparr> = core (q\<lparr>j_state := a, j_updatedAt := b\<rparr>)"
    "(core q)\<lparr>j_resultCode := d\<rparr> = core (q\<lparr>j_resultCode := d\<rparr>)"
    "(core q)\<lparr>j_resultEnvelope := e\<rparr> = core (q\<lparr>j_resultEnvelope := e\<rparr>)" for q a b d e
    by (simp_all add: core_def)
  then show ?thesis by (simp add: finished_row_def core_retire Let_def)
qed

lemma core_finish: "finishJob f (core r) v t h = map_option reply_core (finishJob f r v t h)"
  by (simp add: finishJob_def core_proof core_finished result_envelope_ok_def Let_def
      split: option.split bool.split)

lemma core_act: "act f a (core r) v t h = map_option reply_core (act f a r v t h)"
  by (cases a) (simp_all add: act_def core_claim core_finish core_cancel)

lemma reply_row_core: "reply_row (core r) (map_option reply_core q) = core (reply_row r q)"
  by (cases "(r, q)" rule: reply_row.cases) simp_all

lemma act_row: "reply_row r (act f a r v t h) = job_apply f (action_op a v t (JStr h)) r"
  by (cases a) (simp_all add: act_def)

lemma core_apply: "job_apply f (action_op a v t (JStr h)) (core r) = core (job_apply f (action_op a v t (JStr h)) r)"
  by (simp only: act_row [symmetric] core_act reply_row_core)

section \<open>The Node store is a job store\<close>

definition node_job_view :: "task_table \<Rightarrow> job_key \<Rightarrow> job option" where
  "node_job_view ts k = map_option core (jm_get ts k)"

fun node_store ::
  "(js \<Rightarrow> string) \<Rightarrow> (string \<Rightarrow> string) \<Rightarrow> store_op \<Rightarrow> task_table \<Rightarrow> store_reply option \<times> task_table" where
  "node_store stringify sha (SPut room i v now) ts = node_put stringify sha ts room i v now"
| "node_store stringify sha (SAct room i a v now) ts = node_transition stringify sha ts room i a v now"
| "node_store stringify sha (SRows room now) ts = (None, snd (node_list ts room now))"
| "node_store stringify sha (SGet room i now) ts = (None, snd (node_getPublic ts room i now False))"
| "node_store stringify sha (SPurge now) ts = (None, node_purge ts now)"

lemma jm_get_map_values: "jm_get (map (\<lambda>(k, r). (k, g k r)) m) k = map_option (g k) (jm_get m k)"
  by (induction m) (auto simp: jm_get_def)

lemma jm_wf_map_values: "jm_wf (map (\<lambda>(k, r). (k, g k r)) m) = jm_wf m"
  by (simp add: jm_wf_def o_def case_prod_beta)

lemma expireQueued_get:
  "jm_get (expireQueued ts room now) k =
     map_option (\<lambda>r. if fst k = room then expireJob r now else r) (jm_get ts k)"
  unfolding expireQueued_def by (rule jm_get_map_values)

lemma expireQueued_wf [simp]: "jm_wf (expireQueued ts room now) = jm_wf ts"
  unfolding expireQueued_def by (rule jm_wf_map_values)

lemma node_purge_keys: "set (map fst (node_purge ts now)) \<subseteq> set (map fst ts)"
  by (induction ts now rule: node_purge.induct) (auto simp: Let_def)

lemma node_purge_wf: "jm_wf ts \<Longrightarrow> jm_wf (node_purge ts now)"
proof (induction ts now rule: node_purge.induct)
  case (2 k r ts now)
  then show ?case using node_purge_keys [of ts now] by (auto simp: jm_wf_def Let_def)
qed simp

lemma node_purge_get:
  "jm_wf ts \<Longrightarrow> jm_get (node_purge ts now) k = Option.bind (jm_get ts k) (\<lambda>r.
     if purge_selects now r then (if outdated now (expireJob r now) then None else Some (expireJob r now))
     else Some r)"
proof (induction ts now rule: node_purge.induct)
  case (2 k' r ts now)
  then have "k' \<notin> set (map fst (node_purge ts now))"
    using node_purge_keys [of ts now] by (auto simp: jm_wf_def)
  then have "jm_get (node_purge ts now) k' = None" by (simp add: jm_get_def map_of_eq_None_iff)
  with 2 show ?case by (auto simp: jm_get_def jm_wf_def Let_def)
qed simp

lemma node_put_rows:
  "node_put f sha ts room i v now = (a, ts') \<Longrightarrow> ts' = ts \<or> ts' = expireQueued ts room now
     \<or> jm_get ts (room, i) = None \<and> (\<exists>r. ts' = jm_set (expireQueued ts room now) (room, i) r)"
  by (auto simp: node_put_def Let_def split: outcome.splits option.splits if_splits)

lemma node_transition_cases:
  assumes "node_transition f sha ts room i a v now = (ans, ts')"
  obtains "ts' = ts" "\<And>n pj. ans \<noteq> Some (Answer n pj)"
  | row r h n where "jm_get ts (room, i) = Some row" "act f a row v now h = Some (Done n r)"
    "ts' = jm_set ts (room, i) r" "ans = Some (Answer n (publicJob r))"
  using assms
  by (auto simp: node_transition_def split: option.splits if_splits reply.splits)

lemma done_row:
  "act f a row v now h = Some (Done n r) \<Longrightarrow> core r = job_apply f (action_op a v now (JStr h)) (core row)"
  by (subst core_apply, subst act_row [symmetric]) simp

interpretation node_jobs: job_store node_job_view "node_store f sha" jm_wf f for f sha
proof (unfold_locales, goal_cases)
  case (1 s x)
  then show ?case
  proof (cases x)
    case (SPut room i v now)
    obtain a s' where p: "node_put f sha s room i v now = (a, s')" by fastforce
    from node_put_rows [OF this] 1 SPut p show ?thesis by auto
  next
    case (SAct room i a v now)
    obtain ans s' where p: "node_transition f sha s room i a v now = (ans, s')" by fastforce
    then have "jm_wf s'" using 1 by (cases rule: node_transition_cases) auto
    with SAct p show ?thesis by simp
  qed (simp_all add: node_list_def node_getPublic_def Let_def node_purge_wf)
next
  case (2 s k r x)
  then obtain row where row: "jm_get s k = Some row" "r = core row" by (auto simp: node_job_view_def)
  have exp: "node_job_view (expireQueued s room now) k = Some (if fst k = room then expireJob r now else r)"
    for room now using row by (simp add: node_job_view_def expireQueued_get core_expire)
  show ?case
  proof (cases x)
    case (SPut room i v now)
    obtain a s' where p: "node_put f sha s room i v now = (a, s')" by fastforce
    from node_put_rows [OF p] row exp [of room now] 2(2)
    have "node_job_view s' k = Some r \<or> node_job_view s' k = Some (expireJob r now)"
      by (auto simp: node_job_view_def split: if_splits)
    with SPut p show ?thesis by auto
  next
    case (SAct room i a v now)
    obtain ans s' where p: "node_transition f sha s room i a v now = (ans, s')" by fastforce
    then show ?thesis
    proof (cases rule: node_transition_cases)
      case 1
      with SAct p 2 show ?thesis by simp
    next
      case (2 row' r' h n)
      show ?thesis
      proof (cases "k = (room, i)")
        case True
        with row 2 have "node_job_view s' k = Some (job_apply f (action_op a v now (JStr h)) r)"
          using done_row [OF 2(2)] by (simp add: node_job_view_def)
        with SAct p True show ?thesis by auto
      next
        case False
        with row 2 SAct p show ?thesis by (simp add: node_job_view_def)
      qed
    qed
  next
    case (SPurge now)
    then show ?thesis using row 2(1)
      by (auto simp: node_job_view_def node_purge_get core_expire split: if_splits)
  qed (use exp in \<open>auto simp: node_list_def node_getPublic_def Let_def split: if_splits\<close>)
next
  case (3 s room i r v now n pj)
  then obtain row where row: "jm_get s (room, i) = Some row" "r = core row" by (auto simp: node_job_view_def)
  obtain ans s' where p: "node_transition f sha s room i Claim_action v now = (ans, s')" by fastforce
  then show ?case
  proof (cases rule: node_transition_cases)
    case 1
    with 3 p show ?thesis by simp
  next
    case (2 row' r' h n')
    with row have "claimJob r v now (JStr h) = Some (Done n' (core r'))"
      by (simp add: act_def core_claim)
    then show ?thesis by blast
  qed
qed

section \<open>The Durable Object store is a job store\<close>

definition worker_job_view :: "task_storage \<Rightarrow> job_key \<Rightarrow> job option" where
  "worker_job_view s k = map_option core (jm_get (ts_rows s) k)"

fun worker_store ::
  "(js \<Rightarrow> string) \<Rightarrow> (string \<Rightarrow> string) \<Rightarrow> store_op \<Rightarrow> task_storage \<Rightarrow> store_reply option \<times> task_storage" where
  "worker_store stringify sha (SPut room i v now) s = worker_put stringify sha s room i v now"
| "worker_store stringify sha (SAct room i a v now) s = worker_transition stringify sha s room i a v now"
| "worker_store stringify sha (SRows room now) s = (None, snd (worker_rows_of sha s room now))"
| "worker_store stringify sha (SGet room i now) s = (None, snd (worker_getPublic sha s room i now False))"
| "worker_store stringify sha (SPurge now) s = (None, snd (maintain sha now None None s))"

text \<open>The ciphertext index: exactly the chunks that a row's index covers are stored, and only a row
  that still needs its ciphertext has an index.\<close>

definition cipher_count :: "task_storage \<Rightarrow> job_key \<Rightarrow> nat" where
  "cipher_count s k = (case jm_get (ts_rows s) k of
     Some r \<Rightarrow> (case j_cipher r of Some c \<Rightarrow> ci_count c | None \<Rightarrow> 0) | None \<Rightarrow> 0)"

definition storage_ok :: "task_storage \<Rightarrow> bool" where
  "storage_ok s \<longleftrightarrow> jm_wf (ts_rows s)
     \<and> (\<forall>k i. ts_chunks s (k, i) \<noteq> None \<longleftrightarrow> i < cipher_count s k)
     \<and> (\<forall>k r. jm_get (ts_rows s) k = Some r \<longrightarrow> j_cipher r \<noteq> None \<longrightarrow> retainsTaskPayload r)"

lemma storage_okD:
  assumes "storage_ok s"
  shows "jm_wf (ts_rows s)" "ts_chunks s (k, i) \<noteq> None \<longleftrightarrow> i < cipher_count s k"
    "jm_get (ts_rows s) k = Some r \<Longrightarrow> j_cipher r \<noteq> None \<Longrightarrow> retainsTaskPayload r"
  using assms unfolding storage_ok_def by blast+

lemma storage_okI:
  assumes "jm_wf (ts_rows s)" "\<And>k i. ts_chunks s (k, i) \<noteq> None \<longleftrightarrow> i < cipher_count s k"
    "\<And>k r. jm_get (ts_rows s) k = Some r \<Longrightarrow> j_cipher r \<noteq> None \<Longrightarrow> retainsTaskPayload r"
  shows "storage_ok s"
  using assms unfolding storage_ok_def by blast

lemma put_chunks_get:
  "put_chunks k box n m (k', i) = (if k' = k \<and> i < n then Some (chunk box i) else m (k', i))"
  by (induction n) (auto simp: less_Suc_eq)

lemma deleteCiphertext_get:
  "deleteCiphertext k n m (k', i) = (if k' = k \<and> i < n then None else m (k', i))"
  by (induction n) (auto simp: less_Suc_eq)

lemma drop_cipher_get:
  "drop_cipher k r m (k', i) =
     (if k' = k \<and> i < (case j_cipher r of Some c \<Rightarrow> ci_count c | None \<Rightarrow> 0) then None else m (k', i))"
  by (simp add: drop_cipher_def deleteCiphertext_get split: option.splits)

lemma writeTaskJob_rows:
  "\<exists>row. ts_rows (writeTaskJob sha s k input) = jm_set (ts_rows s) k row \<and> core row = core input
     \<and> j_state row = j_state input"
  by (auto simp: writeTaskJob_def Let_def core_def without_set [of "[''box'', ''box'']" "[''box'']"])

lemma writeTaskJob_view:
  "worker_job_view (writeTaskJob sha s k input) k' = (if k' = k then Some (core input) else worker_job_view s k')"
  using writeTaskJob_rows [of sha s k input] by (auto simp: worker_job_view_def)

lemma writeTaskJob_other:
  "k' \<noteq> k \<Longrightarrow> jm_get (ts_rows (writeTaskJob sha s k input)) k' = jm_get (ts_rows s) k'"
  using writeTaskJob_rows [of sha s k input] by auto

lemma writeTaskJob_ok:
  assumes "storage_ok s"
    and "j_cipher input = (case jm_get (ts_rows s) k of Some r \<Rightarrow> j_cipher r | None \<Rightarrow> None)"
  shows "storage_ok (writeTaskJob sha s k input)"
proof -
  have count: "cipher_count s k = (case j_cipher input of Some c \<Rightarrow> ci_count c | None \<Rightarrow> 0)"
    using assms(2) by (simp add: cipher_count_def split: option.splits)
  note ch = storage_okD(2) [OF assms(1)]
  show ?thesis
  proof (rule storage_okI)
    show "jm_wf (ts_rows (writeTaskJob sha s k input))"
      using storage_okD(1) [OF assms(1)] by (simp add: writeTaskJob_def Let_def case_prod_beta)
  next
    fix k' i
    show "ts_chunks (writeTaskJob sha s k input) (k', i) \<noteq> None \<longleftrightarrow>
        i < cipher_count (writeTaskJob sha s k input) k'"
    proof (cases "k' = k")
      case True
      then show ?thesis using ch [of k i] count
        by (auto simp: writeTaskJob_def Let_def case_prod_beta drop_cipher_get put_chunks_get
            cipher_count_def retainsTaskPayload_def)
    next
      case False
      then show ?thesis using ch [of k' i]
        by (auto simp: writeTaskJob_def Let_def case_prod_beta drop_cipher_get put_chunks_get
            cipher_count_def retainsTaskPayload_def)
    qed
  next
    fix k' r
    assume "jm_get (ts_rows (writeTaskJob sha s k input)) k' = Some r" "j_cipher r \<noteq> None"
    then show "retainsTaskPayload r"
      using storage_okD(3) [OF assms(1), of k' r]
      by (auto simp: writeTaskJob_def Let_def case_prod_beta retainsTaskPayload_def split: if_splits)
  qed
qed

lemma expireJob_cipher [simp]: "j_cipher (expireJob r t) = j_cipher r"
  by (simp add: expireJob_def)

lemma act_cipher: "act f a row v now h = Some (Done n r) \<Longrightarrow> j_cipher r = j_cipher row"
proof (cases a)
  case Claim_action
  assume "act f a row v now h = Some (Done n r)"
  with Claim_action show ?thesis by (auto simp: act_def elim!: claimJob_cases)
next
  case Finish_action
  assume "act f a row v now h = Some (Done n r)"
  with Finish_action show ?thesis
    by (auto simp: act_def finished_row_def Let_def elim!: finishJob_cases)
next
  case Cancel_action
  assume "act f a row v now h = Some (Done n r)"
  with Cancel_action show ?thesis by (auto simp: act_def elim!: cancelJob_cases)
qed

lemma write_expired_props:
  "storage_ok s \<Longrightarrow> distinct (map fst es) \<Longrightarrow> \<forall>(k, r) \<in> set es. jm_get (ts_rows s) k = Some r \<Longrightarrow>
   write_expired sha now es s = (rows, s') \<Longrightarrow>
   rows = map (\<lambda>e. expireJob (snd e) now) es \<and> storage_ok s'
   \<and> (\<forall>k. worker_job_view s' k = (if k \<in> fst ` set es
        then map_option (\<lambda>r. expireJob r now) (worker_job_view s k) else worker_job_view s k))"
proof (induction es arbitrary: s rows)
  case (Cons e es)
  obtain k saved where e: "e = (k, saved)" by (cases e)
  define s1 where "s1 = (if expireJob saved now \<noteq> saved then writeTaskJob sha s k (expireJob saved now) else s)"
  obtain rows1 where w: "write_expired sha now es s1 = (rows1, s')" "rows = expireJob saved now # rows1"
    using Cons.prems(4) e by (auto simp: s1_def Let_def split: prod.splits)
  have saved: "jm_get (ts_rows s) k = Some saved" using Cons.prems(3) e by auto
  then have vs: "worker_job_view s k = Some (core saved)" by (simp add: worker_job_view_def)
  have ok: "storage_ok s1"
    using Cons.prems(1) saved by (simp add: s1_def writeTaskJob_ok)
  have view: "worker_job_view s1 k' = (if k' = k then Some (expireJob (core saved) now) else worker_job_view s k')"
    for k' using vs by (auto simp: s1_def writeTaskJob_view core_expire)
  have other: "k' \<noteq> k \<Longrightarrow> jm_get (ts_rows s1) k' = jm_get (ts_rows s) k'" for k'
    by (simp add: s1_def writeTaskJob_other)
  have "\<forall>(k', r) \<in> set es. jm_get (ts_rows s1) k' = Some r"
    using Cons.prems(2,3) e other by (force simp: image_iff)
  with Cons.IH [OF ok _ _ w(1)] Cons.prems(2) e w(2) view saved show ?case
    by (auto simp: worker_job_view_def core_expire)
qed simp

lemma maintain_loop_props:
  "storage_ok s \<Longrightarrow> distinct (map fst es) \<Longrightarrow> \<forall>(k, r) \<in> set es. jm_get (ts_rows s) k = Some r \<Longrightarrow>
   maintain_loop sha now connected es deadline s = (d, s') \<Longrightarrow>
   storage_ok s' \<and> (\<forall>k. worker_job_view s' k = (if k \<in> fst ` set es
     then Option.bind (worker_job_view s k) (\<lambda>r. if outdated now (expireJob r now) then None else Some (expireJob r now))
     else worker_job_view s k))"
proof (induction es arbitrary: s deadline)
  case (Cons e es)
  obtain k saved where e: "e = (k, saved)" by (cases e)
  let ?row = "expireJob saved now"
  define s1 where "s1 = (if outdated now ?row
     then \<lparr>ts_rows = jm_delete (ts_rows s) k, ts_chunks = drop_cipher k ?row (ts_chunks s)\<rparr>
     else if ?row \<noteq> saved then writeTaskJob sha s k ?row else s)"
  obtain deadline1 where w: "maintain_loop sha now connected es deadline1 s1 = (d, s')"
    using Cons.prems(4) e by (auto simp: s1_def Let_def split: if_splits)
  have saved: "jm_get (ts_rows s) k = Some saved" using Cons.prems(3) e by auto
  then have vs: "worker_job_view s k = Some (core saved)" by (simp add: worker_job_view_def)
  have "storage_ok \<lparr>ts_rows = jm_delete (ts_rows s) k, ts_chunks = drop_cipher k ?row (ts_chunks s)\<rparr>"
  proof (rule storage_okI, goal_cases)
    case (2 k' i)
    show ?case using storage_okD(2) [OF Cons.prems(1), of k' i] saved
      by (cases "k' = k") (auto simp: cipher_count_def drop_cipher_get)
  next
    case (3 k' r)
    then show ?case using storage_okD(3) [OF Cons.prems(1), of k' r] by (simp split: if_splits)
  qed (use storage_okD(1) [OF Cons.prems(1)] in simp)
  then have ok: "storage_ok s1"
    using Cons.prems(1) saved by (simp add: s1_def writeTaskJob_ok)
  have deleted: "worker_job_view \<lparr>ts_rows = jm_delete (ts_rows s) k, ts_chunks = m\<rparr> k' =
      (if k' = k then None else worker_job_view s k')" for m k'
    by (simp add: worker_job_view_def)
  have view: "worker_job_view s1 k' = (if k' = k then
      (if outdated now ?row then None else Some (expireJob (core saved) now)) else worker_job_view s k')"
    for k' using vs deleted by (auto simp: s1_def writeTaskJob_view core_expire)
  have other: "k' \<noteq> k \<Longrightarrow> jm_get (ts_rows s1) k' = jm_get (ts_rows s) k'" for k'
    by (simp add: s1_def writeTaskJob_other)
  have "\<forall>(k', r) \<in> set es. jm_get (ts_rows s1) k' = Some r"
    using Cons.prems(2,3) e other by (force simp: image_iff)
  with Cons.IH [OF ok _ _ w] Cons.prems(2) e view saved show ?case
    by (auto simp: worker_job_view_def core_expire)
qed simp

lemma room_rows_listed:
  assumes "storage_ok s"
  shows "distinct (map fst (filter p (ts_rows s)))" "\<forall>(k, r) \<in> set (filter p (ts_rows s)). jm_get (ts_rows s) k = Some r"
  using storage_okD(1) [OF assms] by (auto simp: jm_wf_def distinct_map_filter jm_get_mem [unfolded jm_wf_def])

lemma worker_rows_of_props:
  assumes "storage_ok s" "worker_rows_of sha s room now = (rows, s')"
  shows "storage_ok s'"
    "worker_job_view s k = Some r \<Longrightarrow>
       worker_job_view s' k = Some (expireJob r now) \<or> worker_job_view s' k = Some r"
    "worker_job_view s k = None \<Longrightarrow> worker_job_view s' k = None"
  using write_expired_props [OF assms(1) room_rows_listed [OF assms(1)] assms(2) [unfolded worker_rows_of_def]]
  by (auto simp del: split_paired_All split: if_splits)

lemma worker_put_rows:
  "worker_put f sha s room i v now = (a, s') \<Longrightarrow> s' = s \<or> s' = snd (worker_rows_of sha s room now)
     \<or> jm_get (ts_rows s) (room, i) = None
       \<and> (\<exists>r. j_cipher r = None \<and> s' = writeTaskJob sha (snd (worker_rows_of sha s room now)) (room, i) r)"
  by (force simp: worker_put_def new_job_def Let_def split: outcome.splits option.splits if_splits prod.splits)

lemma worker_transition_cases:
  assumes "worker_transition f sha s room i a v now = (ans, s')"
  obtains "s' = s" "\<And>n pj. ans \<noteq> Some (Answer n pj)"
  | row r h n where "jm_get (ts_rows s) (room, i) = Some row" "act f a row v now h = Some (Done n r)"
    "s' = writeTaskJob sha s (room, i) r" "ans = Some (Answer n (publicJob r))"
  using assms
  by (auto simp: worker_transition_def split: option.splits reply.splits)

lemma worker_get_rows:
  "snd (worker_getPublic sha s room i now m) = s \<or> (\<exists>r. jm_get (ts_rows s) (room, i) = Some r
     \<and> snd (worker_getPublic sha s room i now m) = writeTaskJob sha s (room, i) (expireJob r now))"
  by (auto simp: worker_getPublic_def Let_def split: option.splits)

lemma worker_jobs_ok:
  assumes "storage_ok s"
  shows "storage_ok (snd (worker_store f sha x s))"
proof (cases x)
  case (SPut room i v now)
  obtain a s' where p: "worker_put f sha s room i v now = (a, s')" by fastforce
  obtain rows s1 where w: "worker_rows_of sha s room now = (rows, s1)" by fastforce
  note s1 = worker_rows_of_props [OF assms w]
  have "jm_get (ts_rows s) (room, i) = None \<Longrightarrow> jm_get (ts_rows s1) (room, i) = None"
    using s1(3) [of "(room, i)"] by (simp add: worker_job_view_def)
  then have "storage_ok s'" using worker_put_rows [OF p] s1(1) assms w
    by (auto intro!: writeTaskJob_ok)
  with SPut p show ?thesis by simp
next
  case (SAct room i a v now)
  obtain ans s' where p: "worker_transition f sha s room i a v now = (ans, s')" by fastforce
  then have "storage_ok s'"
    by (cases rule: worker_transition_cases) (use assms in \<open>auto intro!: writeTaskJob_ok dest: act_cipher\<close>)
  with SAct p show ?thesis by simp
next
  case (SRows room now)
  obtain rows s1 where w: "worker_rows_of sha s room now = (rows, s1)" by fastforce
  with SRows worker_rows_of_props(1) [OF assms w] show ?thesis by simp
next
  case (SGet room i now)
  then show ?thesis using worker_get_rows [of sha s room i now False] assms
    by (auto intro!: writeTaskJob_ok)
next
  case (SPurge now)
  obtain d s' where m: "maintain_loop sha now None (ts_rows s) None s = (d, s')" by fastforce
  have "storage_ok s'"
    using maintain_loop_props [OF assms _ _ m] room_rows_listed [OF assms, of "\<lambda>_. True"] by simp
  with SPurge m show ?thesis by (simp add: maintain_def)
qed

interpretation worker_jobs: job_store worker_job_view "worker_store f sha" storage_ok f for f sha
proof (unfold_locales, goal_cases)
  case (1 s x)
  then show ?case by (rule worker_jobs_ok)
next
  case (2 s k r x)
  then obtain row where row: "jm_get (ts_rows s) k = Some row" "r = core row"
    by (auto simp: worker_job_view_def)
  note view = 2(2)
  show ?case
  proof (cases x)
    case (SPut room i v now)
    obtain a s' where p: "worker_put f sha s room i v now = (a, s')" by fastforce
    obtain rows s1 where w: "worker_rows_of sha s room now = (rows, s1)" by fastforce
    note s1 = worker_rows_of_props(2) [OF 2(1) w 2(2)]
    from worker_put_rows [OF p] s1 w row 2(2)
    have "worker_job_view s' k = Some r \<or> worker_job_view s' k = Some (expireJob r now)"
      by (auto simp: writeTaskJob_view)
    with SPut p show ?thesis by auto
  next
    case (SAct room i a v now)
    obtain ans s' where p: "worker_transition f sha s room i a v now = (ans, s')" by fastforce
    then show ?thesis
    proof (cases rule: worker_transition_cases)
      case 1
      with SAct p 2 show ?thesis by simp
    next
      case (2 row' r' h n)
      show ?thesis
      proof (cases "k = (room, i)")
        case True
        with row 2 have "worker_job_view s' k = Some (job_apply f (action_op a v now (JStr h)) r)"
          using done_row [OF 2(2)] by (simp add: writeTaskJob_view)
        with SAct p True show ?thesis by auto
      next
        case False
        with view 2 SAct p show ?thesis by (simp add: writeTaskJob_view)
      qed
    qed
  next
    case (SRows room now)
    obtain rows s1 where w: "worker_rows_of sha s room now = (rows, s1)" by fastforce
    with SRows worker_rows_of_props(2) [OF 2(1) w 2(2)] show ?thesis by auto
  next
    case (SGet room i now)
    then have "worker_job_view (snd (worker_store f sha x s)) k = Some r
        \<or> worker_job_view (snd (worker_store f sha x s)) k = Some (expireJob r now)"
      using worker_get_rows [of sha s room i now False] row 2(2)
      by (auto simp: writeTaskJob_view core_expire)
    then show ?thesis by blast
  next
    case (SPurge now)
    obtain d s' where m: "maintain_loop sha now None (ts_rows s) None s = (d, s')" by fastforce
    have "worker_job_view s' k = (if outdated now (expireJob r now) then None else Some (expireJob r now))
        \<or> worker_job_view s' k = Some r"
      using maintain_loop_props [OF 2(1) _ _ m] room_rows_listed [OF 2(1), of "\<lambda>_. True"] 2(2)
      by (auto simp del: split_paired_All split: if_splits)
    with SPurge m show ?thesis by (auto simp: maintain_def split: if_splits)
  qed
next
  case (3 s room i r v now n pj)
  then obtain row where row: "jm_get (ts_rows s) (room, i) = Some row" "r = core row"
    by (auto simp: worker_job_view_def)
  obtain ans s' where p: "worker_transition f sha s room i Claim_action v now = (ans, s')" by fastforce
  then show ?case
  proof (cases rule: worker_transition_cases)
    case 1
    with 3 p show ?thesis by simp
  next
    case (2 row' r' h n')
    with row have "claimJob r v now (JStr h) = Some (Done n' (core r'))"
      by (simp add: act_def core_claim)
    then show ?thesis by blast
  qed
qed

section \<open>Capacity and the round trip of ciphertext\<close>

lemma task_rows_set_new:
  "jm_get ts (room, i) = None \<Longrightarrow> task_rows (jm_set ts (room, i) r) room = task_rows ts room @ [r]"
  by (simp add: task_rows_def jm_set_absent)

lemma chunks_append: "concat (map (chunk box) [0..<n]) = take (n * CHUNK_BYTES) box"
  unfolding chunk_def by (rule pieces_append)

lemma collect_chunks_stored:
  assumes "\<And>i. i < n \<Longrightarrow> m (k, i) = Some (chunk box i)" "ascii_string box"
  shows "collect_chunks k n m = Some (concat (map (chunk box) [0..<n]))"
  using assms(1)
proof (induction n)
  case (Suc n)
  have "ascii_string (chunk box n)" using assms(2)
    by (auto simp: ascii_string_def chunk_def list_all_iff dest!: in_set_takeD in_set_dropD)
  then have "js_length (chunk box n) \<le> CHUNK_BYTES" by (simp add: js_length_ascii chunk_def)
  with Suc show ?case by simp
qed simp

text \<open>A sum over the rows of a room; the three measures of its capacity are such sums.\<close>

definition room_weight :: "(job \<Rightarrow> nat) \<Rightarrow> string \<Rightarrow> task_table \<Rightarrow> nat" where
  "room_weight w room ts = sum_list (map (\<lambda>e. if fst (fst e) = room then w (snd e) else 0) ts)"

definition active_weight :: "job \<Rightarrow> nat" where
  "active_weight r = (if retainsTaskPayload r then 1 else 0)"

definition bytes_weight :: "job \<Rightarrow> nat" where
  "bytes_weight r = (if retainsTaskPayload r then j_bytes r else 0)"

lemma capacity_weights:
  "length (task_rows ts room) = room_weight (\<lambda>_. 1) room ts"
  "length (filter retainsTaskPayload (task_rows ts room)) = room_weight active_weight room ts"
  "sum_list (map j_bytes (filter retainsTaskPayload (task_rows ts room))) = room_weight bytes_weight room ts"
  by (induction ts) (auto simp: room_weight_def task_rows_def active_weight_def bytes_weight_def)

text \<open>Weights that no operation on a row increases.\<close>

definition falling :: "(job \<Rightarrow> nat) \<Rightarrow> bool" where
  "falling w \<longleftrightarrow> (\<forall>f x r. w (job_apply f x r) \<le> w r)"

lemma falling_weights: "falling (\<lambda>_. 1)" "falling active_weight" "falling bytes_weight"
proof -
  have "active_weight (job_apply f x r) \<le> active_weight r" for f x r
    by (cases f x r rule: job_apply_cases) (auto simp: active_weight_def retainsTaskPayload_def)
  moreover have "bytes_weight (job_apply f x r) \<le> bytes_weight r" for f x r
    by (cases f x r rule: job_apply_cases) (auto simp: bytes_weight_def retainsTaskPayload_def)
  ultimately show "falling (\<lambda>_. 1)" "falling active_weight" "falling bytes_weight"
    by (simp_all add: falling_def)
qed

lemma falling_expire: "falling w \<Longrightarrow> w (expireJob r now) \<le> w r"
  unfolding falling_def by (metis job_apply.simps(4))

lemma falling_act: "falling w \<Longrightarrow> act f a row v now h = Some (Done n r) \<Longrightarrow> w r \<le> w row"
  unfolding falling_def using act_row [of row f a v now h] by (metis reply_row.simps(1))

lemma weight_expireQueued: "falling w \<Longrightarrow> room_weight w room (expireQueued ts room' now) \<le> room_weight w room ts"
  by (induction ts) (auto simp: room_weight_def expireQueued_def falling_expire add_mono)

lemma weight_set: "jm_get ts k = Some r \<Longrightarrow> w r' \<le> w r \<Longrightarrow>
    room_weight w room (jm_set ts k r') \<le> room_weight w room ts"
  by (induction ts) (auto simp: room_weight_def jm_get_def)

lemma weight_purge: "falling w \<Longrightarrow> room_weight w room (node_purge ts now) \<le> room_weight w room ts"
proof (induction ts now rule: node_purge.induct)
  case (2 k r ts now)
  then show ?case using falling_expire [of w r now]
    by (auto simp: room_weight_def Let_def intro: le_SucI trans_le_add2 add_mono)
qed (simp add: room_weight_def)

lemma weight_transition:
  "falling w \<Longrightarrow> room_weight w room (snd (node_transition f sha ts room' i a v now)) \<le> room_weight w room ts"
proof -
  assume w: "falling w"
  obtain ans ts' where p: "node_transition f sha ts room' i a v now = (ans, ts')" by fastforce
  then have "room_weight w room ts' \<le> room_weight w room ts"
    by (cases rule: node_transition_cases) (auto intro!: weight_set dest: falling_act [OF w])
  with p show ?thesis by simp
qed

definition capacity_ok :: "string \<Rightarrow> task_table \<Rightarrow> bool" where
  "capacity_ok room ts \<longleftrightarrow> room_weight (\<lambda>_. 1) room ts \<le> ROOM_RECEIPT_LIMIT
     \<and> room_weight active_weight room ts \<le> ROOM_JOB_LIMIT
     \<and> room_weight bytes_weight room ts \<le> ROOM_JOB_BYTES"

lemma capacity_shrinks:
  "capacity_ok room ts \<Longrightarrow> (\<And>w. falling w \<Longrightarrow> room_weight w room ts' \<le> room_weight w room ts) \<Longrightarrow>
     capacity_ok room ts'"
  unfolding capacity_ok_def using falling_weights by (meson le_trans)

lemma capacity_put:
  assumes "capacity_ok room ts"
  shows "capacity_ok room (snd (node_put f sha ts room' i v now))"
proof -
  have e: "capacity_ok room (expireQueued ts room' now)"
    using assms by (rule capacity_shrinks) (rule weight_expireQueued)
  have new: "room_weight w room (jm_set (expireQueued ts room' now) (room', i) (new_job n i fp now)) =
      room_weight w room (expireQueued ts room' now) + (if room' = room then w (new_job n i fp now) else 0)"
    if "jm_get ts (room', i) = None" for w n fp
    using that by (simp add: jm_set_absent expireQueued_get room_weight_def)
  have w: "active_weight (new_job n i fp now) = 1" "bytes_weight (new_job n i fp now) = nj_bytes n" for n fp
    by (simp_all add: active_weight_def bytes_weight_def retainsTaskPayload_def new_job_def)
  show ?thesis
  proof (cases "normalizeJob f (JStr room') (JStr i) v
      (case jm_get ts (room', i) of Some r \<Rightarrow> j_createdAt r | None \<Rightarrow> now)")
    case (Value n)
    show ?thesis
    proof (cases "jm_get ts (room', i)")
      case None
      then show ?thesis
        using Value e new [OF None] w
        by (auto simp: node_put_def Let_def capacity_weights capacity_ok_def)
    next
      case (Some r)
      then show ?thesis using Value assms by (simp add: node_put_def Let_def)
    qed
  qed (use assms in \<open>simp_all add: node_put_def Let_def\<close>)
qed

lemma capacity_step:
  assumes "capacity_ok room ts"
  shows "capacity_ok room (snd (node_store f sha x ts))"
proof (cases "\<exists>room' i v now. x = SPut room' i v now")
  case True
  then show ?thesis using capacity_put [OF assms] by auto
next
  case False
  with assms show ?thesis
    by (intro capacity_shrinks [OF assms], cases x)
      (auto simp: node_list_def node_getPublic_def Let_def weight_expireQueued weight_purge weight_transition)
qed

section \<open>Properties\<close>



text \<open>whatever requests and purges the Node store has served, a room never holds more than
  10000 job records, 100 jobs with ciphertext and 48 MB of it.\<close>

theorem node_capacity:
  "let rows = task_rows (fold (\<lambda>x t. snd (node_store f sha x t)) xs []) room in
     length rows \<le> 10000 \<and> length (filter retainsTaskPayload rows) \<le> 100
     \<and> sum_list (map j_bytes (filter retainsTaskPayload rows)) \<le> 48000000"
proof -
  have "capacity_ok room ts \<Longrightarrow> capacity_ok room (fold (\<lambda>x t. snd (node_store f sha x t)) xs ts)" for ts
    by (induction xs arbitrary: ts) (simp_all add: capacity_step)
  moreover have "capacity_ok room []" by (simp add: capacity_ok_def room_weight_def)
  ultimately have "capacity_ok room (fold (\<lambda>x t. snd (node_store f sha x t)) xs [])" by blast
  then show ?thesis
    unfolding Let_def capacity_weights by (simp add: capacity_ok_def relay_limits)
qed

text \<open>C16: no ciphertext outlives its job: from an empty Durable Object storage, after any requests
  and maintenance, every stored chunk belongs to a job that is queued, accepted or failed.\<close>

theorem no_orphan_ciphertext:
  assumes "s = fold (\<lambda>x t. snd (worker_store f sha x t)) xs \<lparr>ts_rows = [], ts_chunks = Map.empty\<rparr>"
    and "ts_chunks s (k, n) \<noteq> None"
  shows "\<exists>r. jm_get (ts_rows s) k = Some r \<and> j_state r \<in> {Queued, Accepted, Failed}"
proof -
  have step: "storage_ok t \<Longrightarrow> storage_ok (fold (\<lambda>x t. snd (worker_store f sha x t)) xs t)" for t
    by (induction xs arbitrary: t) (simp_all add: worker_jobs_ok)
  have "storage_ok \<lparr>ts_rows = [], ts_chunks = Map.empty\<rparr>"
    by (rule storage_okI) (simp_all add: cipher_count_def)
  with step assms(1) have ok: "storage_ok s" by simp
  with assms(2) have "n < cipher_count s k" using storage_okD(2) by blast
  then obtain r where "jm_get (ts_rows s) k = Some r" "j_cipher r \<noteq> None"
    by (auto simp: cipher_count_def split: option.splits)
  with storage_okD(3) [OF ok] show ?thesis by (auto simp: retainsTaskPayload_def)
qed

text \<open>C27: splitting a ciphertext into chunks and putting it together again gives it back: the
  stored record has no ciphertext, and reading the job restores every field of its envelope.\<close>

theorem ciphertext_roundtrip:
  assumes "retainsTaskPayload row" "j_cipher row = None" "j_envelope row = JObj kvs"
    and "field ''box'' (j_envelope row) = JStr box" "ascii_string box"
    and "24 \<le> length box" "length box \<le> 22000000"
  shows "\<exists>stored h. jm_get (ts_rows (writeTaskJob sha s k row)) k = Some stored
    \<and> field ''box'' (j_envelope stored) = JUndefined
    \<and> hydrateTaskJob sha (writeTaskJob sha s k row) k stored = Some h
    \<and> (\<forall>name. field name (j_envelope h) = field name (j_envelope row))"
proof -
  define n where "n = ceil_div (length box) CHUNK_BYTES"
  let ?c = "\<lparr>ci_count = n, ci_digest = sha box, ci_bytes = length box\<rparr>"
  let ?stored = "row\<lparr>j_cipher := Some ?c, j_envelope := without [''box''] (j_envelope row)\<rparr>"
  have len: "js_length box = length box" using assms(5) by (rule js_length_ascii)
  have w: "writeTaskJob sha s k row =
      \<lparr>ts_rows = jm_set (ts_rows s) k ?stored, ts_chunks = put_chunks k box n (ts_chunks s)\<rparr>"
    using assms len by (simp add: writeTaskJob_def Let_def n_def)
  have bounds: "1 \<le> n" "n \<le> 350"
    using assms(6,7) by (auto simp: n_def ceil_div_def CHUNK_BYTES_def)
  have "length box \<le> n * CHUNK_BYTES" using ceil_div_covers [of CHUNK_BYTES "length box"]
    by (simp add: n_def CHUNK_BYTES_def)
  then have box: "collect_chunks k n (put_chunks k box n (ts_chunks s)) = Some box"
    using collect_chunks_stored [of n "put_chunks k box n (ts_chunks s)" k box] assms(5)
    by (simp add: put_chunks_get chunks_append)
  have h: "hydrateTaskJob sha (writeTaskJob sha s k row) k ?stored
      = Some (?stored\<lparr>j_envelope := with_box box (j_envelope ?stored)\<rparr>)"
    using box bounds assms(6,7) len by (simp add: hydrateTaskJob_def w)
  have fields: "field name (with_box box (without [''box''] (JObj kvs))) = field name (JObj kvs)" for name
  proof (cases "name = ''box''")
    case True
    then show ?thesis using assms(3,4) jm_get_set [of "filter (\<lambda>e. fst e \<notin> {''box''}) kvs" "''box''" "JStr box" name]
      by (simp add: jm_get_def)
  next
    case False
    then show ?thesis using jm_get_set [of "filter (\<lambda>e. fst e \<notin> {''box''}) kvs" "''box''" "JStr box" name]
        field_without_other [of name "[''box'']" "JObj kvs"]
      by (simp add: jm_get_def)
  qed
  have gone: "field ''box'' (without [''box''] (JObj kvs)) = JUndefined"
    by (simp add: map_of_eq_None_iff [THEN iffD2] image_iff split: option.splits)
  show ?thesis
    using h fields gone assms(3) by (intro exI [of _ ?stored] exI conjI) (auto simp: w)
qed

section \<open>Witnesses\<close>

definition sample_accepted :: job where
  "sample_accepted = (new_job sample_job ''job-0001'' ''fp'' 0)\<lparr>j_state := Accepted, j_claimId := Some ''attempt-1''\<rparr>"

lemma sample_accepted_simps [simp]:
  "j_state sample_accepted = Accepted" "j_claimId sample_accepted = Some ''attempt-1''"
  "j_cipher sample_accepted = None"
  by (simp_all add: sample_accepted_def new_job_def)

definition sample_store_ops :: "store_op list" where
  "sample_store_ops = [SAct ''r'' ''job-0001'' Cancel_action JUndefined 200, SPurge 9000000000, SRows ''r'' 300]"



text \<open>A submission that the Durable Object stores, with its ciphertext in one chunk.\<close>

definition sample_submission :: js where
  "sample_submission = JObj [(''notBefore'', JInt 0), (''expiresAt'', JInt 5000),
     (''acceptanceHash'', JStr (replicate 64 CHR ''b'')),
     (''envelope'', sample_envelope ''00112233445566aa'' ''phone'' ''machine''
        [(''expiresAt'', JInt 5000), (''deliveryId'', JStr ''job-0001''),
         (''recipientKeyId'', JStr (replicate 64 CHR ''a''))])]"

definition sample_task_storage :: task_storage where
  "sample_task_storage = fold (\<lambda>x t. snd (worker_store (\<lambda>_. []) (\<lambda>s. s) x t))
     [SPut ''00112233445566aa'' ''job-0001'' sample_submission 1000] \<lparr>ts_rows = [], ts_chunks = Map.empty\<rparr>"

lemma sample_normal:
  "\<exists>n. normalizeJob (\<lambda>_. []) (JStr ''00112233445566aa'') (JStr ''job-0001'') sample_submission 1000 = Value n
     \<and> field ''box'' (nj_envelope n) = JStr (replicate 24 CHR ''A'') \<and> nj_bytes n = 0"
proof -
  let ?e = "sample_envelope ''00112233445566aa'' ''phone'' ''machine''
        [(''expiresAt'', JInt 5000), (''deliveryId'', JStr ''job-0001''),
         (''recipientKeyId'', JStr (replicate 64 CHR ''a''))]"
  have v: "validEnvelope ?e ''00112233445566aa'' 1000 (Some JOB_TTL_MS) = Some True"
    by (simp add: validEnvelope_def sample_eval extended_submission_def relay_limits max_safe_integer_def
        is_hex64_def)
  have hdr: "job_header_ok (JStr ''00112233445566aa'') (JStr ''job-0001'') sample_submission"
    by (simp add: job_header_ok_def sample_submission_def class_repeat_def hex_char_def char_between_def
        JOB_FIELDS_def id_char_def alnum_char_def)
  have env: "job_envelope_ok ''00112233445566aa'' ''job-0001'' sample_submission 1000 = Some True"
    using v by (simp add: job_envelope_ok_def sample_submission_def js_and_def or_empty_def is_hex64_def)
      (simp add: sample_envelope_def is_hex64_def)
  have rest: "job_writer_ok sample_submission = Some True" "job_times_ok sample_submission 1000"
    "hex64_test (or_empty (field ''acceptanceHash'' sample_submission)) = Some True"
    by (simp_all add: job_writer_ok_def job_times_ok_def sample_submission_def or_empty_def is_hex64_def
        relay_limits max_safe_integer_def)
  have box: "field ''box'' (ordered_envelope ?e) = JStr (replicate 24 CHR ''A'')"
    by (simp add: sample_envelope_def field_rank_def SORTED_FIELDS_def)
  show ?thesis
    using box
    by (simp add: normalizeJob_def hdr env rest js_and_def byteLength_def Let_def)
      (simp add: sample_submission_def)
qed

theorem no_orphan_ciphertext_witness:
  "\<exists>r. jm_get (ts_rows sample_task_storage) (''00112233445566aa'', ''job-0001'') = Some r
     \<and> j_state r \<in> {Queued, Accepted, Failed}"
proof -
  from sample_normal obtain n where n:
    "normalizeJob (\<lambda>_. []) (JStr ''00112233445566aa'') (JStr ''job-0001'') sample_submission 1000 = Value n"
    "field ''box'' (nj_envelope n) = JStr (replicate 24 CHR ''A'')" "nj_bytes n = 0" by blast
  have "ts_chunks sample_task_storage ((''00112233445566aa'', ''job-0001''), 0) \<noteq> None"
    using n by (simp add: sample_task_storage_def worker_put_def worker_rows_of_def relay_limits new_job_def
        writeTaskJob_def retainsTaskPayload_def ceil_div_def CHUNK_BYTES_def put_chunks_get
        utf16_units_ascii Let_def)
  from no_orphan_ciphertext [OF sample_task_storage_def this] show ?thesis .
qed

theorem ciphertext_roundtrip_witness:
  "\<exists>stored h. jm_get (ts_rows (writeTaskJob (\<lambda>s. s) \<lparr>ts_rows = [], ts_chunks = Map.empty\<rparr> (''r'', ''i'')
       (sample_accepted\<lparr>j_envelope := JObj [(''box'', JStr (replicate 24 CHR ''A''))]\<rparr>))) (''r'', ''i'') = Some stored
     \<and> field ''box'' (j_envelope stored) = JUndefined
     \<and> hydrateTaskJob (\<lambda>s. s) (writeTaskJob (\<lambda>s. s) \<lparr>ts_rows = [], ts_chunks = Map.empty\<rparr> (''r'', ''i'')
         (sample_accepted\<lparr>j_envelope := JObj [(''box'', JStr (replicate 24 CHR ''A''))]\<rparr>)) (''r'', ''i'') stored = Some h
     \<and> field ''box'' (j_envelope h) = JStr (replicate 24 CHR ''A'')"
proof -
  let ?row = "sample_accepted\<lparr>j_envelope := JObj [(''box'', JStr (replicate 24 CHR ''A''))]\<rparr>"
  have "retainsTaskPayload ?row" "j_cipher ?row = None"
    "j_envelope ?row = JObj [(''box'', JStr (replicate 24 CHR ''A''))]"
    "field ''box'' (j_envelope ?row) = JStr (replicate 24 CHR ''A'')" "ascii_string (replicate 24 CHR ''A'')"
    by (simp_all add: retainsTaskPayload_def ascii_string_def)
  from ciphertext_roundtrip [OF this, of "\<lambda>s. s" "\<lparr>ts_rows = [], ts_chunks = Map.empty\<rparr>" "(''r'', ''i'')"]
  show ?thesis by fastforce
qed

end
