(* ===== verification/Wake_Delivery.thy ===== *)
theory Wake_Delivery
  imports Relay_Validation
begin

text \<open>
  Background wakes: \<open>WakeDelivery\<close> (\<open>src/relay/wakeDelivery.js\<close>), shared by both runtimes, the table
  that keeps its state in the Node relay (\<open>RelayStore.wakeState\<close>, \<open>saveWakeState\<close>, \<open>dueWakeRooms\<close> and
  the purge in \<open>src/node/store.js\<close>) and the pump of \<open>src/node/server.js\<close>. Actions on a room run one
  after another (\<open>serial\<close>), so a run is a sequence of events. The process may stop while a push is
  under way; the state written before the push is what a restart finds. Shows: pushes of a room
  are a minute apart, at most three per new envelope, and every pending wake is sent or given up
  after four ticks of the pump.

  \<open>sha\<close> stands for the hexadecimal SHA-256 digest and \<open>stringify\<close> for \<open>JSON.stringify\<close>. Times are
  milliseconds; a missing \<open>nextAt\<close> delays nothing.
\<close>

definition WAKE_INTERVAL_MS :: int where "WAKE_INTERVAL_MS = 60000"
definition WAKE_HISTORY_LIMIT :: nat where "WAKE_HISTORY_LIMIT = 256"
definition DEFAULT_WAKE_TTL_MS :: int where "DEFAULT_WAKE_TTL_MS = 900000"
definition MAX_ATTEMPTS :: nat where "MAX_ATTEMPTS = 3"

lemmas [relay_limits] = WAKE_INTERVAL_MS_def WAKE_HISTORY_LIMIT_def DEFAULT_WAKE_TTL_MS_def MAX_ATTEMPTS_def

record wake_receipt =
  wr_key :: string
  wr_expires :: time

record wake_pending =
  wp_expires :: time
  wp_attempts :: nat

record wake_state =
  wk_recent :: "wake_receipt list"
  wk_pending :: "wake_pending option"
  wk_nextAt :: "time option"
  wk_lastSentAt :: "time option"

definition no_wakes :: wake_state where
  "no_wakes = \<lparr>wk_recent = [], wk_pending = None, wk_nextAt = None, wk_lastSentAt = None\<rparr>"

text \<open>What \<open>notify\<close> is called with.\<close>

datatype wake_notice =
  Wake_expired | Wake_duplicate | Wake_coalesced | Wake_requested | Wake_complete | Wake_failed

text \<open>How a push ends: accepted, refused or failed, or the process stops before its end.\<close>

datatype push_outcome = Push_ok | Push_failed | Push_interrupted

section \<open>The delivery of wakes\<close>

definition settled_wake :: "wake_state \<Rightarrow> wake_state" where
  "settled_wake s = s\<lparr>wk_pending := None, wk_nextAt := None\<rparr>"

definition claimed_wake :: "time \<Rightarrow> wake_pending \<Rightarrow> wake_state \<Rightarrow> wake_state" where
  "claimed_wake now p s = s\<lparr>wk_lastSentAt := Some now, wk_nextAt := Some (now + WAKE_INTERVAL_MS),
     wk_pending := Some (p\<lparr>wp_attempts := Suc (wp_attempts p)\<rparr>)\<rparr>"

text \<open>\<open>sendDue\<close>: the state it leaves, what it notifies, and when it pushed.\<close>

definition sendDue ::
  "time \<Rightarrow> push_outcome \<Rightarrow> wake_state option \<Rightarrow> wake_state option \<times> wake_notice list \<times> time list" where
  "sendDue now outcome st = (case st of
       None \<Rightarrow> (None, [], [])
     | Some s \<Rightarrow> (case wk_pending s of
         None \<Rightarrow> (st, [], [])
       | Some p \<Rightarrow>
           if wp_expires p \<le> now \<or> wp_attempts p \<ge> MAX_ATTEMPTS then (Some (settled_wake s), [Wake_expired], [])
           else if (case wk_nextAt s of None \<Rightarrow> False | Some t \<Rightarrow> t > now) then (st, [], [])
           else let claimed = claimed_wake now p s in
             (case outcome of
                Push_interrupted \<Rightarrow> (Some claimed, [], [now])
              | Push_ok \<Rightarrow> (Some (settled_wake claimed), [Wake_complete], [now])
              | Push_failed \<Rightarrow>
                  (Some (if Suc (wp_attempts p) \<ge> MAX_ATTEMPTS then settled_wake claimed else claimed),
                   [Wake_failed], [now]))))"

definition wake_identity :: "js \<Rightarrow> js" where
  "wake_identity envelope = JArr ([field ''senderId'' envelope, or_empty (field ''recipientKeyId'' envelope)] @
     (if truthy (field ''deliveryId'' envelope) then [field ''deliveryId'' envelope]
      else [field ''nonce'' envelope, field ''box'' envelope]))"

definition wake_key :: "(js \<Rightarrow> string) \<Rightarrow> (string \<Rightarrow> string) \<Rightarrow> js \<Rightarrow> string" where
  "wake_key stringify sha envelope = sha (stringify (wake_identity envelope))"

definition requested_wake :: "time \<Rightarrow> string \<Rightarrow> time \<Rightarrow> wake_receipt list \<Rightarrow> wake_state \<Rightarrow> wake_state" where
  "requested_wake now key expiresAt recent previous = previous\<lparr>
     wk_recent := slice_last WAKE_HISTORY_LIMIT (recent @ [\<lparr>wr_key = key, wr_expires = expiresAt\<rparr>]),
     wk_pending := Some \<lparr>wp_expires = max expiresAt (case wk_pending previous of None \<Rightarrow> 0 | Some p \<Rightarrow> wp_expires p),
                        wp_attempts = 0\<rparr>,
     wk_nextAt := Some (max now (case wk_lastSentAt previous of None \<Rightarrow> now | Some t \<Rightarrow> t + WAKE_INTERVAL_MS))\<rparr>"

text \<open>\<open>request\<close>; \<open>now\<close> is the clock when it starts, \<open>later\<close> when \<open>sendDue\<close> reads it again.\<close>

definition wake_request ::
  "(js \<Rightarrow> string) \<Rightarrow> (string \<Rightarrow> string) \<Rightarrow> time \<Rightarrow> time \<Rightarrow> push_outcome \<Rightarrow> js \<Rightarrow> wake_state option
     \<Rightarrow> wake_state option \<times> wake_notice list \<times> time list" where
  "wake_request stringify sha now later outcome envelope st =
     (let expiresAt = (if nullish (field ''expiresAt'' envelope) then now + DEFAULT_WAKE_TTL_MS
                       else num_of (field ''expiresAt'' envelope))
      in if expiresAt \<le> now then (st, [Wake_expired], [])
         else let key = wake_key stringify sha envelope;
                  previous = (case st of None \<Rightarrow> no_wakes | Some s \<Rightarrow> s);
                  recent = filter (\<lambda>r. wr_expires r > now) (wk_recent previous)
           in if key \<in> wr_key ` set recent then
                (case sendDue later outcome st of (st1, ns, ps) \<Rightarrow> (st1, Wake_duplicate # ns, ps))
              else let s = requested_wake now key expiresAt recent previous in
                (case sendDue later outcome (Some s) of (st1, ns, ps) \<Rightarrow>
                  (st1, (if (case wk_nextAt s of None \<Rightarrow> False | Some t \<Rightarrow> t > now) then Wake_coalesced
                         else Wake_requested) # ns, ps)))"

text \<open>\<open>nextAt\<close>: when a pending wake wants to be drained.\<close>

definition wake_nextAt :: "wake_state option \<Rightarrow> time option" where
  "wake_nextAt st = (case st of None \<Rightarrow> None | Some s \<Rightarrow>
     (case wk_pending s of None \<Rightarrow> None | Some p \<Rightarrow>
       Some (case wk_nextAt s of None \<Rightarrow> min 0 (wp_expires p) | Some t \<Rightarrow> min t (wp_expires p))))"

section \<open>The table of the Node relay and its pump\<close>

type_synonym wake_table = "(string, wake_state) jmap"

definition dueWakeRooms :: "wake_table \<Rightarrow> time \<Rightarrow> string list" where
  "dueWakeRooms ws now = take 128 (map fst (filter (\<lambda>(room, s). (case wk_pending s of None \<Rightarrow> False
      | Some p \<Rightarrow> (case wk_nextAt s of None \<Rightarrow> False | Some t \<Rightarrow> min t (wp_expires p) \<le> now))) ws))"

definition purge_wakes :: "wake_table \<Rightarrow> time \<Rightarrow> wake_table" where
  "purge_wakes ws now = filter (\<lambda>(room, s).
     \<not> (wk_pending s = None \<and> \<not> list_ex (\<lambda>r. wr_expires r > now) (wk_recent s))) ws"

text \<open>\<open>drain\<close> of a room over the table.\<close>

definition drain_room :: "time \<Rightarrow> push_outcome \<Rightarrow> string \<Rightarrow> wake_table \<Rightarrow> wake_table" where
  "drain_room now outcome room ws = (case fst (sendDue now outcome (jm_get ws room)) of
       None \<Rightarrow> ws | Some s \<Rightarrow> jm_set ws room s)"

text \<open>One tick of the cleanup timer: the purge, then the pump over the rooms that are due. The
  outcome of each push is up to the push service.\<close>

definition pumpWakes :: "time \<Rightarrow> (string \<Rightarrow> push_outcome) \<Rightarrow> wake_table \<Rightarrow> wake_table" where
  "pumpWakes now outcome ws = fold (\<lambda>room. drain_room now (outcome room) room) (dueWakeRooms ws now) ws"

definition wake_tick :: "time \<Rightarrow> (string \<Rightarrow> push_outcome) \<Rightarrow> wake_table \<Rightarrow> wake_table" where
  "wake_tick now outcome ws = pumpWakes now outcome (purge_wakes ws now)"

section \<open>Runs of a room\<close>

datatype wake_event = Request_wake time time push_outcome js | Drain_wake time push_outcome

fun wake_times :: "wake_event \<Rightarrow> time list" where
  "wake_times (Request_wake now later outcome envelope) = [now, later]"
| "wake_times (Drain_wake now outcome) = [now]"

fun wake_event_step ::
  "(js \<Rightarrow> string) \<Rightarrow> (string \<Rightarrow> string) \<Rightarrow> wake_event \<Rightarrow> wake_state option
     \<Rightarrow> wake_state option \<times> wake_notice list \<times> time list" where
  "wake_event_step f sha (Request_wake now later outcome envelope) st =
     wake_request f sha now later outcome envelope st"
| "wake_event_step f sha (Drain_wake now outcome) st = sendDue now outcome st"

fun wake_run ::
  "(js \<Rightarrow> string) \<Rightarrow> (string \<Rightarrow> string) \<Rightarrow> wake_event list \<Rightarrow> wake_state option
     \<Rightarrow> wake_state option \<times> wake_notice list \<times> time list" where
  "wake_run f sha [] st = (st, [], [])"
| "wake_run f sha (e # es) st =
     (case wake_event_step f sha e st of (st1, ns, ps) \<Rightarrow>
       case wake_run f sha es st1 of (st2, ns', ps') \<Rightarrow> (st2, ns @ ns', ps @ ps'))"

text \<open>Pushes a minute apart; the notices of a new envelope.\<close>

definition minute_apart :: "time list \<Rightarrow> bool" where
  "minute_apart ps \<longleftrightarrow> sorted_wrt (\<lambda>a b. a + WAKE_INTERVAL_MS \<le> b) ps"

definition new_wakes :: "wake_notice list \<Rightarrow> nat" where
  "new_wakes ns = length (filter (\<lambda>n. n = Wake_requested \<or> n = Wake_coalesced) ns)"

lemma new_wakes_simps [simp]:
  "new_wakes [] = 0"
  "new_wakes (n # ns) = (if n = Wake_requested \<or> n = Wake_coalesced then 1 else 0) + new_wakes ns"
  "new_wakes (ns @ ns') = new_wakes ns + new_wakes ns'"
  by (simp_all add: new_wakes_def)

lemma minute_apart_append:
  "minute_apart (ps @ qs) \<longleftrightarrow> minute_apart ps \<and> minute_apart qs \<and> (\<forall>p \<in> set ps. \<forall>q \<in> set qs. p + WAKE_INTERVAL_MS \<le> q)"
  by (auto simp: minute_apart_def sorted_wrt_append)

lemma minute_apart_simps [simp]: "minute_apart []" "minute_apart [t]"
  by (simp_all add: minute_apart_def)

section \<open>The invariant of a room\<close>

text \<open>After the pushes \<open>ps\<close>, at a time not before \<open>now\<close>.\<close>

definition pending_ok :: "time \<Rightarrow> time list \<Rightarrow> wake_state \<Rightarrow> bool" where
  "pending_ok now ps s \<longleftrightarrow> (case wk_pending s of None \<Rightarrow> True | Some p \<Rightarrow> wp_attempts p \<le> MAX_ATTEMPTS
     \<and> (case wk_nextAt s of None \<Rightarrow> False
         | Some t \<Rightarrow> t \<le> now + WAKE_INTERVAL_MS \<and> (\<forall>u \<in> set ps. u + WAKE_INTERVAL_MS \<le> t)))"

definition wake_state_ok :: "time \<Rightarrow> time list \<Rightarrow> wake_state \<Rightarrow> bool" where
  "wake_state_ok now ps s \<longleftrightarrow> length (wk_recent s) \<le> WAKE_HISTORY_LIMIT \<and> distinct (map wr_key (wk_recent s))
     \<and> (\<forall>u \<in> set ps. \<exists>t. wk_lastSentAt s = Some t \<and> u \<le> t) \<and> (\<forall>t. wk_lastSentAt s = Some t \<longrightarrow> t \<le> now)
     \<and> pending_ok now ps s"

definition wake_inv :: "time \<Rightarrow> time list \<Rightarrow> wake_state option \<Rightarrow> bool" where
  "wake_inv now ps st \<longleftrightarrow> minute_apart ps \<and> (case st of None \<Rightarrow> ps = [] | Some s \<Rightarrow> wake_state_ok now ps s)"

lemma settled_simps [simp]:
  "wk_recent (settled_wake s) = wk_recent s" "wk_pending (settled_wake s) = None"
  "wk_nextAt (settled_wake s) = None" "wk_lastSentAt (settled_wake s) = wk_lastSentAt s"
  by (simp_all add: settled_wake_def)

lemma claimed_simps [simp]:
  "wk_recent (claimed_wake now p s) = wk_recent s"
  "wk_pending (claimed_wake now p s) = Some (p\<lparr>wp_attempts := Suc (wp_attempts p)\<rparr>)"
  "wk_nextAt (claimed_wake now p s) = Some (now + WAKE_INTERVAL_MS)"
  "wk_lastSentAt (claimed_wake now p s) = Some now"
  by (simp_all add: claimed_wake_def)

text \<open>What \<open>sendDue\<close> can do: nothing, give up, or push.\<close>

lemma sendDue_cases:
  assumes "sendDue now outcome st = (st', ns, ps)"
  obtains (idle) "st' = st" "ns = []" "ps = []"
      "case st of None \<Rightarrow> True | Some s \<Rightarrow> (case wk_pending s of None \<Rightarrow> True | Some p \<Rightarrow> \<exists>t. wk_nextAt s = Some t \<and> now < t \<and> now < wp_expires p)"
  | (give_up) s p where "st = Some s" "wk_pending s = Some p" "st' = Some (settled_wake s)"
      "ns = [Wake_expired]" "ps = []"
  | (push) s p s' where "st = Some s" "wk_pending s = Some p" "wp_attempts p < MAX_ATTEMPTS"
      "now < wp_expires p" "\<forall>t. wk_nextAt s = Some t \<longrightarrow> t \<le> now" "st' = Some s'" "ps = [now]" "new_wakes ns = 0"
      "s' = claimed_wake now p s \<and> (outcome = Push_failed \<longrightarrow> Suc (wp_attempts p) < MAX_ATTEMPTS)
       \<or> s' = settled_wake (claimed_wake now p s)"
  using assms
  by (auto simp: sendDue_def Let_def not_le not_less split: option.splits if_splits push_outcome.splits)

lemma wake_inv_later:
  assumes "wake_inv t ps st" "t \<le> now"
  shows "wake_inv now ps st"
  using assms by (fastforce simp: wake_inv_def wake_state_ok_def pending_ok_def split: option.splits)

lemma sendDue_inv:
  assumes "wake_inv t ps st" "t \<le> now" "sendDue now outcome st = (st', ns, qs)"
  shows "wake_inv now (ps @ qs) st'"
  using assms(3)
proof (cases rule: sendDue_cases)
  case idle
  then show ?thesis using wake_inv_later [OF assms(1,2)] by simp
next
  case (give_up s p)
  then show ?thesis using wake_inv_later [OF assms(1,2)]
    by (auto simp: wake_inv_def wake_state_ok_def pending_ok_def)
next
  case (push s p s')
  have s: "wake_state_ok t ps s" and apart: "minute_apart ps" using assms(1) push(1) by (simp_all add: wake_inv_def)
  then obtain n where n: "wk_nextAt s = Some n" "\<forall>u \<in> set ps. u + WAKE_INTERVAL_MS \<le> n"
    using push(2) by (auto simp: wake_state_ok_def pending_ok_def split: option.splits)
  have gap: "\<forall>u \<in> set ps. u + WAKE_INTERVAL_MS \<le> now" using n push(5) by force
  then have early: "\<forall>u \<in> set ps. u \<le> now" by (force simp: relay_limits)
  have "wake_state_ok now (ps @ [now]) (claimed_wake now p s)"
    using s push(3) gap early by (auto simp: wake_state_ok_def pending_ok_def)
  moreover have "wake_state_ok now (ps @ [now]) (settled_wake (claimed_wake now p s))"
    using calculation by (auto simp: wake_state_ok_def pending_ok_def)
  ultimately show ?thesis
    using push(6,7,9) apart gap by (auto simp: wake_inv_def minute_apart_append)
qed

lemma requested_inv:
  assumes "wake_inv t ps st" "t \<le> now" "previous = (case st of None \<Rightarrow> no_wakes | Some s \<Rightarrow> s)"
    and "recent = filter (\<lambda>r. wr_expires r > now) (wk_recent previous)" "key \<notin> wr_key ` set recent"
  shows "wake_inv now ps (Some (requested_wake now key expiresAt recent previous))"
proof -
  have prev: "wake_state_ok t ps previous" "minute_apart ps"
    using assms(1,3) by (auto simp: wake_inv_def no_wakes_def wake_state_ok_def pending_ok_def split: option.splits)
  have "distinct (map wr_key recent)"
    using prev(1) assms(4) by (auto simp: wake_state_ok_def intro: distinct_map_filter)
  then have keys: "distinct (map wr_key (recent @ [\<lparr>wr_key = key, wr_expires = expiresAt\<rparr>]))"
    using assms(5) by auto
  have d: "distinct (map wr_key (wk_recent (requested_wake now key expiresAt recent previous)))"
    using slice_last_distinct [OF keys] by (simp add: requested_wake_def)
  have l: "length (wk_recent (requested_wake now key expiresAt recent previous)) \<le> WAKE_HISTORY_LIMIT"
    by (simp add: requested_wake_def)
  have last: "\<forall>u \<in> set ps. \<exists>v. wk_lastSentAt previous = Some v \<and> u \<le> v"
    "\<forall>v. wk_lastSentAt previous = Some v \<longrightarrow> v \<le> now" using prev(1) assms(2) by (force simp: wake_state_ok_def)+
  then have "pending_ok now ps (requested_wake now key expiresAt recent previous)"
    by (auto simp: pending_ok_def requested_wake_def relay_limits split: option.splits)
  with d l last prev(2) show ?thesis
    by (simp add: wake_inv_def wake_state_ok_def) (simp add: requested_wake_def)
qed

text \<open>What \<open>request\<close> can do: drop an expired hint, or drain the state as it is or with the new envelope.\<close>

lemma wake_request_cases:
  assumes "wake_request f sha now later outcome envelope st = (st', ns, qs)"
  obtains (expired) "st' = st" "ns = [Wake_expired]" "qs = []"
  | (duplicate) ns' where "sendDue later outcome st = (st', ns', qs)" "ns = Wake_duplicate # ns'"
  | (fresh) previous recent key expiresAt n ns' where
      "previous = (case st of None \<Rightarrow> no_wakes | Some s \<Rightarrow> s)"
      "recent = filter (\<lambda>r. wr_expires r > now) (wk_recent previous)" "key \<notin> wr_key ` set recent"
      "sendDue later outcome (Some (requested_wake now key expiresAt recent previous)) = (st', ns', qs)"
      "ns = n # ns'" "n = Wake_requested \<or> n = Wake_coalesced"
proof -
  let ?e = "if nullish (field ''expiresAt'' envelope) then now + DEFAULT_WAKE_TTL_MS else num_of (field ''expiresAt'' envelope)"
  let ?prev = "case st of None \<Rightarrow> no_wakes | Some s \<Rightarrow> s"
  let ?recent = "filter (\<lambda>r. wr_expires r > now) (wk_recent ?prev)"
  let ?key = "wake_key f sha envelope"
  note unfold = assms [unfolded wake_request_def Let_def]
  show thesis
  proof (cases "?e \<le> now")
    case True
    then show thesis using unfold expired by simp
  next
    case live: False
    show thesis
    proof (cases "?key \<in> wr_key ` set ?recent")
      case True
      obtain st1 ns1 ps1 where "sendDue later outcome st = (st1, ns1, ps1)" using prod_cases3 by blast
      with unfold live True duplicate show thesis by simp
    next
      case False
      obtain st1 ns1 ps1 where r: "sendDue later outcome (Some (requested_wake now ?key ?e ?recent ?prev)) = (st1, ns1, ps1)"
        using prod_cases3 by blast
      have "st' = st1 \<and> qs = ps1 \<and> ns = hd ns # ns1 \<and> (hd ns = Wake_requested \<or> hd ns = Wake_coalesced)"
        using unfold live False unfolding r by (simp split: if_splits) auto
      then show thesis using fresh [OF refl refl False] r by blast
    qed
  qed
qed

lemma wake_request_inv:
  assumes "wake_inv t ps st" "t \<le> now" "now \<le> later"
    and "wake_request f sha now later outcome envelope st = (st', ns, qs)"
  shows "wake_inv later (ps @ qs) st'"
  using assms(4)
proof (cases rule: wake_request_cases)
  case expired
  then show ?thesis using wake_inv_later [OF assms(1)] assms(2,3) by simp
next
  case duplicate
  with sendDue_inv [OF assms(1)] assms(2,3) show ?thesis by force
next
  case fresh
  from requested_inv [OF assms(1,2) fresh(1,2,3)] sendDue_inv [OF _ assms(3) fresh(4)]
  show ?thesis by blast
qed

lemma wake_step_inv:
  assumes "wake_inv t ps st" "sorted (t # wake_times e)" "wake_event_step f sha e st = (st', ns, qs)"
  shows "wake_inv (last (wake_times e)) (ps @ qs) st'"
  using assms wake_request_inv [of t ps st] sendDue_inv [of t ps st] by (cases e) fastforce+

lemma wake_run_inv:
  assumes "wake_inv t ps st" "sorted (t # concat (map wake_times es))" "wake_run f sha es st = (st', ns, qs)"
  shows "wake_inv (last (t # concat (map wake_times es))) (ps @ qs) st'"
  using assms
proof (induction es arbitrary: t ps st ns qs)
  case Nil
  then show ?case by simp
next
  case (Cons e es)
  obtain st1 ns1 ps1 where e: "wake_event_step f sha e st = (st1, ns1, ps1)" using prod_cases3 by blast
  obtain ns2 ps2 where es: "wake_run f sha es st1 = (st', ns2, ps2)" "qs = ps1 @ ps2"
    using Cons.prems(3) e by (auto split: prod.splits)
  have ne: "wake_times e \<noteq> []" by (cases e) simp_all
  have "sorted (t # wake_times e)" "sorted (last (wake_times e) # concat (map wake_times es))"
    using Cons.prems(2) ne by (auto simp: sorted_append)
  from Cons.IH [OF wake_step_inv [OF Cons.prems(1) this(1) e] this(2) es(1)] ne es(2)
  show ?case by (simp split: if_splits)
qed

lemma wake_run_start:
  assumes "sorted (concat (map wake_times es) @ [t])" "wake_run f sha es None = (st, ns, ps)"
  shows "wake_inv t ps st"
proof -
  let ?times = "concat (map wake_times es)"
  have hd: "sorted ((case xs of [] \<Rightarrow> t | u # _ \<Rightarrow> u) # xs) \<and> last ((case xs of [] \<Rightarrow> t | u # _ \<Rightarrow> u) # xs) \<le> t"
    if "sorted (xs @ [t])" for xs :: "time list"
    using that by (cases xs) (auto simp: sorted_append)
  have "wake_inv u [] None" for u by (simp add: wake_inv_def)
  from wake_run_inv [OF this conjunct1 [OF hd [OF assms(1)]] assms(2)] wake_inv_later hd [OF assms(1)]
  show ?thesis by fastforce
qed

text \<open>How many pushes a room may still make for the envelopes it has been given.\<close>

definition push_budget :: "wake_state option \<Rightarrow> nat" where
  "push_budget st = (case Option.bind st wk_pending of None \<Rightarrow> 0 | Some p \<Rightarrow> MAX_ATTEMPTS - wp_attempts p)"

lemma sendDue_budget:
  assumes "sendDue now outcome st = (st', ns, qs)"
  shows "length qs + push_budget st' \<le> push_budget st" "new_wakes ns = 0"
  using assms by (cases rule: sendDue_cases; auto simp: push_budget_def)+

lemma wake_step_budget:
  assumes "wake_event_step f sha e st = (st', ns, qs)"
  shows "length qs + push_budget st' \<le> push_budget st + 3 * new_wakes ns"
proof (cases e)
  case (Drain_wake now outcome)
  then show ?thesis using assms sendDue_budget [of now outcome st st' ns qs] by simp
next
  case (Request_wake now later outcome envelope)
  then have "wake_request f sha now later outcome envelope st = (st', ns, qs)" using assms by simp
  then show ?thesis
  proof (cases rule: wake_request_cases)
    case (duplicate ns')
    then show ?thesis using sendDue_budget [OF duplicate(1)] by simp
  next
    case (fresh previous recent key x n ns')
    have "push_budget (Some (requested_wake now key x recent previous)) \<le> 3"
      by (simp add: push_budget_def requested_wake_def relay_limits)
    then show ?thesis using sendDue_budget [OF fresh(4)] fresh(5,6) by auto
  qed simp
qed

lemma wake_run_budget:
  "wake_run f sha es st = (st', ns, qs) \<Longrightarrow> length qs + push_budget st' \<le> push_budget st + 3 * new_wakes ns"
proof (induction es arbitrary: st ns qs)
  case (Cons e es)
  obtain st1 ns1 ps1 where e: "wake_event_step f sha e st = (st1, ns1, ps1)" using prod_cases3 by blast
  obtain ns2 ps2 where es: "wake_run f sha es st1 = (st', ns2, ps2)" "qs = ps1 @ ps2" "ns = ns1 @ ns2"
    using Cons.prems e by (auto split: prod.splits)
  from Cons.IH [OF es(1)] wake_step_budget [OF e] es(2,3) show ?case by simp
qed simp

section \<open>The pump\<close>

text \<open>A pending wake of the table is due a minute after \<open>now\<close> at the latest.\<close>

definition soon_due :: "time \<Rightarrow> wake_state \<Rightarrow> bool" where
  "soon_due now s \<longleftrightarrow> (case wk_pending s of None \<Rightarrow> True | Some p \<Rightarrow> wp_attempts p \<le> MAX_ATTEMPTS
     \<and> (case wk_nextAt s of None \<Rightarrow> False | Some t \<Rightarrow> t \<le> now + WAKE_INTERVAL_MS))"

definition ticks_left :: "wake_state option \<Rightarrow> nat" where
  "ticks_left st = (case Option.bind st wk_pending of None \<Rightarrow> 0 | Some p \<Rightarrow> Suc MAX_ATTEMPTS - wp_attempts p)"

lemma wake_inv_soon_due: "wake_inv now ps (Some s) \<Longrightarrow> soon_due now s"
  by (auto simp: wake_inv_def wake_state_ok_def pending_ok_def soon_due_def split: option.splits)

lemma purge_wakes_get:
  "jm_wf ws \<Longrightarrow> jm_get (purge_wakes ws now) room
     = (case jm_get ws room of None \<Rightarrow> None | Some s \<Rightarrow>
          if wk_pending s = None \<and> \<not> list_ex (\<lambda>r. wr_expires r > now) (wk_recent s) then None else Some s)"
  unfolding purge_wakes_def jm_wf_def jm_get_def
  by (induction ws) (auto simp: map_of_eq_None_iff split: option.splits)

lemma purge_wakes_wf: "jm_wf ws \<Longrightarrow> jm_wf (purge_wakes ws now)"
  unfolding purge_wakes_def jm_wf_def by (rule distinct_map_filter)

lemma purge_wakes_length: "length (purge_wakes ws now) \<le> length ws"
  by (simp add: purge_wakes_def)

lemma drain_room_get:
  "jm_get (drain_room now outcome room ws) r
     = (if r = room then fst (sendDue now outcome (jm_get ws room)) else jm_get ws r)"
  by (auto simp: drain_room_def sendDue_def Let_def split: option.splits if_splits push_outcome.splits)

lemma drain_room_wf [simp]: "jm_wf ws \<Longrightarrow> jm_wf (drain_room now outcome room ws)"
  by (auto simp: drain_room_def split: option.splits)

lemma drain_rooms_get:
  "distinct rooms \<Longrightarrow> jm_get (fold (\<lambda>room. drain_room now (outcome room) room) rooms ws) r
     = (if r \<in> set rooms then fst (sendDue now (outcome r) (jm_get ws r)) else jm_get ws r)"
  by (induction rooms arbitrary: ws) (auto simp: drain_room_get)

lemma drain_rooms_wf: "jm_wf ws \<Longrightarrow> jm_wf (fold (\<lambda>room. drain_room now (outcome room) room) rooms ws)"
  by (induction rooms arbitrary: ws) simp_all

lemma drain_rooms_keys:
  "set rooms \<subseteq> set (map fst ws) \<Longrightarrow>
     map fst (fold (\<lambda>room. drain_room now (outcome room) room) rooms ws) = map fst ws"
proof (induction rooms arbitrary: ws)
  case (Cons room rooms)
  then have "map fst (drain_room now (outcome room) room ws) = map fst ws"
    by (simp add: drain_room_def jm_keys_set split: option.splits)
  with Cons.IH [of "drain_room now (outcome room) room ws"] Cons.prems show ?case by simp
qed simp

text \<open>One tick a minute after the state was written brings every room nearer to rest.\<close>

definition table_due :: "time \<Rightarrow> wake_table \<Rightarrow> bool" where
  "table_due now ws \<longleftrightarrow> jm_wf ws \<and> length ws \<le> 128 \<and> (\<forall>room s. jm_get ws room = Some s \<longrightarrow> soon_due now s)"

lemma due_rooms_iff:
  assumes "jm_wf ws" "length ws \<le> 128"
  shows "room \<in> set (dueWakeRooms ws now) \<longleftrightarrow> (\<exists>s p t. jm_get ws room = Some s \<and> wk_pending s = Some p
     \<and> wk_nextAt s = Some t \<and> min t (wp_expires p) \<le> now)"
proof -
  have "take 128 (map fst (filter P ws)) = map fst (filter P ws)" for P
    using assms(2) le_trans [OF length_filter_le] by (simp add: le_trans [OF length_filter_le])
  then show ?thesis
    using assms(1) unfolding dueWakeRooms_def
    by (fastforce simp: jm_get_def jm_wf_def image_iff dest: map_of_SomeD split: option.splits)
qed

lemma due_rooms_props: "jm_wf ws \<Longrightarrow> distinct (dueWakeRooms ws now)" "set (dueWakeRooms ws now) \<subseteq> set (map fst ws)"
  unfolding dueWakeRooms_def jm_wf_def
  by (auto intro: distinct_take distinct_map_filter dest!: in_set_takeD)

lemma drain_due:
  assumes "soon_due t s" "t + WAKE_INTERVAL_MS \<le> now" "wk_pending s \<noteq> None"
    and "fst (sendDue now outcome (Some s)) = st'"
  shows "ticks_left st' < ticks_left (Some s)" "\<forall>s'. st' = Some s' \<longrightarrow> soon_due now s'"
proof -
  obtain ns ps where r: "sendDue now outcome (Some s) = (st', ns, ps)"
    using assms(4) by (cases "sendDue now outcome (Some s)") auto
  show "ticks_left st' < ticks_left (Some s)"
    using r assms(1-3) by (cases rule: sendDue_cases)
      (auto simp: ticks_left_def soon_due_def split: option.splits)
  show "\<forall>s'. st' = Some s' \<longrightarrow> soon_due now s'"
    using r assms(1-3) by (cases rule: sendDue_cases)
      (auto simp: ticks_left_def soon_due_def split: option.splits)
qed

lemma wake_tick_room:
  assumes "table_due t ws" "t + WAKE_INTERVAL_MS \<le> now"
  shows "ticks_left (jm_get (wake_tick now outcome ws) room) \<le> ticks_left (jm_get ws room) - 1"
    and "\<forall>s. jm_get (wake_tick now outcome ws) room = Some s \<longrightarrow> soon_due now s"
proof -
  let ?ws = "purge_wakes ws now"
  have ws: "jm_wf ws" "length ?ws \<le> 128" "jm_wf ?ws"
    using assms(1) purge_wakes_length [of ws now] by (simp_all add: table_due_def purge_wakes_wf)
  have get: "jm_get (wake_tick now outcome ws) room
      = (if room \<in> set (dueWakeRooms ?ws now) then fst (sendDue now (outcome room) (jm_get ?ws room)) else jm_get ?ws room)"
    by (simp add: wake_tick_def pumpWakes_def drain_rooms_get due_rooms_props(1) [OF ws(3)])
  have soon: "soon_due t s" if "jm_get ?ws room = Some s" for s
    using that assms(1) purge_wakes_get [OF ws(1), of now room]
    by (auto simp: table_due_def split: option.splits if_splits)
  have less: "ticks_left (jm_get ?ws room) \<le> ticks_left (jm_get ws room)"
    using purge_wakes_get [OF ws(1), of now room] by (auto simp: ticks_left_def split: option.splits)
  have both: "ticks_left (jm_get (wake_tick now outcome ws) room) \<le> ticks_left (jm_get ?ws room) - 1
    \<and> (\<forall>s. jm_get (wake_tick now outcome ws) room = Some s \<longrightarrow> soon_due now s)"
  proof (cases "Option.bind (jm_get ?ws room) wk_pending")
    case None
    then show ?thesis using get due_rooms_iff [OF ws(3,2), of room now]
      by (auto simp: ticks_left_def soon_due_def)
  next
    case (Some p)
    then obtain s where s: "jm_get ?ws room = Some s" "wk_pending s = Some p" by (cases "jm_get ?ws room") auto
    with soon assms(2) have "room \<in> set (dueWakeRooms ?ws now)"
      unfolding due_rooms_iff [OF ws(3,2)] by (fastforce simp: soon_due_def split: option.splits)
    then show ?thesis
      using drain_due [OF soon [OF s(1)] assms(2), of "outcome room"] s get by fastforce
  qed
  then show "\<forall>s. jm_get (wake_tick now outcome ws) room = Some s \<longrightarrow> soon_due now s"
    and "ticks_left (jm_get (wake_tick now outcome ws) room) \<le> ticks_left (jm_get ws room) - 1"
    using less by (blast, linarith)
qed

lemma wake_tick_due:
  assumes "table_due t ws" "t + WAKE_INTERVAL_MS \<le> now"
  shows "table_due now (wake_tick now outcome ws)"
proof -
  have wf: "jm_wf (purge_wakes ws now)" using assms(1) by (simp add: table_due_def purge_wakes_wf)
  have "map fst (wake_tick now outcome ws) = map fst (purge_wakes ws now)"
    unfolding wake_tick_def pumpWakes_def by (rule drain_rooms_keys) (rule due_rooms_props(2))
  then have "length (wake_tick now outcome ws) = length (purge_wakes ws now)" by (metis length_map)
  also have "\<dots> \<le> 128" using assms(1) purge_wakes_length [of ws now] by (simp add: table_due_def)
  finally show ?thesis
    using wake_tick_room(2) [OF assms] drain_rooms_wf [OF wf]
    by (simp add: table_due_def wake_tick_def pumpWakes_def)
qed

lemma wake_ticks_left:
  assumes "table_due t ws" "minute_apart (t # map fst ticks)"
  shows "ticks_left (jm_get (fold (\<lambda>(now, outcome). wake_tick now outcome) ticks ws) room)
    \<le> ticks_left (jm_get ws room) - length ticks"
  using assms
proof (induction ticks arbitrary: t ws)
  case (Cons tick ticks)
  obtain now outcome where tick: "tick = (now, outcome)" by (cases tick)
  have t: "t + WAKE_INTERVAL_MS \<le> now" "minute_apart (now # map fst ticks)"
    using Cons.prems(2) tick by (auto simp: minute_apart_def)
  from Cons.IH [OF wake_tick_due [OF Cons.prems(1) t(1), of outcome] t(2)]
    wake_tick_room(1) [OF Cons.prems(1) t(1), of outcome room] tick
  show ?case by simp
qed simp

lemma wake_ticks_due:
  assumes "table_due t ws" "minute_apart (t # map fst ticks)"
  shows "\<exists>u. table_due u (fold (\<lambda>(now, outcome). wake_tick now outcome) ticks ws)"
  using assms
proof (induction ticks arbitrary: t ws)
  case (Cons tick ticks)
  obtain now outcome where tick: "tick = (now, outcome)" by (cases tick)
  have t: "t + WAKE_INTERVAL_MS \<le> now" "minute_apart (now # map fst ticks)"
    using Cons.prems(2) tick by (auto simp: minute_apart_def)
  from Cons.IH [OF wake_tick_due [OF Cons.prems(1) t(1), of outcome] t(2)] tick
  show ?case by simp
qed auto

section \<open>Properties\<close>



text \<open>The purge of the Node table forgets when a room last pushed: a hint that lives for a second is
  pushed, its record is purged two seconds later, and a second envelope is pushed at once, three
  seconds after the first push instead of a minute.\<close>

definition short_hint :: "string \<Rightarrow> int \<Rightarrow> js" where
  "short_hint i expiry = sample_envelope ''00112233445566aa'' ''machine'' ''phone''
     [(''deliveryId'', JStr i), (''expiresAt'', JInt expiry)]"

lemma purge_forgets_last_push:
  "\<exists>s n1 n2. wake_request (\<lambda>_. ''x'') (\<lambda>s. s) 0 0 Push_ok (short_hint ''delivery-1'' 1000) None = (Some s, n1, [0])
     \<and> jm_get (purge_wakes [(''r'', s)] 2000) ''r'' = None
     \<and> snd (wake_request (\<lambda>_. ''y'') (\<lambda>s. s) 3000 3000 Push_ok (short_hint ''delivery-2'' 4000) None) = (n2, [3000])"
  by (simp add: wake_request_def short_hint_def sample_envelope_def sendDue_def requested_wake_def relay_limits
      no_wakes_def Let_def slice_last_def claimed_wake_def settled_wake_def purge_wakes_def wake_key_def)

section \<open>Witnesses\<close>

text \<open>Two envelopes of which the second waits, an interrupted push and a refused one.\<close>

definition sample_wakes :: "wake_event list" where
  "sample_wakes = [Request_wake 0 0 Push_ok (short_hint ''delivery-1'' 100000),
     Request_wake 1000 1000 Push_ok (short_hint ''delivery-2'' 300000),
     Drain_wake 60000 Push_interrupted, Drain_wake 120000 Push_failed]"

fun first_delivery :: "js \<Rightarrow> string" where
  "first_delivery (JArr vs) = str_of (last vs)"
| "first_delivery _ = []"

definition sample_wake_state :: wake_state where
  "sample_wake_state = \<lparr>wk_recent = [\<lparr>wr_key = ''delivery-1'', wr_expires = 100000\<rparr>,
       \<lparr>wr_key = ''delivery-2'', wr_expires = 300000\<rparr>],
     wk_pending = Some \<lparr>wp_expires = 300000, wp_attempts = 2\<rparr>, wk_nextAt = Some 180000, wk_lastSentAt = Some 120000\<rparr>"

lemma sample_wake_run:
  "wake_run first_delivery (\<lambda>s. s) sample_wakes None
     = (Some sample_wake_state, [Wake_requested, Wake_complete, Wake_coalesced, Wake_failed], [0, 60000, 120000])"
  by (simp add: sample_wakes_def wake_request_def short_hint_def sample_envelope_def sendDue_def requested_wake_def
      relay_limits no_wakes_def Let_def slice_last_def claimed_wake_def settled_wake_def wake_key_def
      wake_identity_def or_empty_def sample_wake_state_def image_iff)



end
