(* ===== verification/Retained_State.thy ===== *)
theory Retained_State
  imports Submission_Receipts "HOL-Library.Multiset"
begin

text \<open>
  Retained encrypted state, the cache of latest snapshots a phone reads without a machine online:
  the policy (\<open>src/retainedState/policy.js\<close>), the SQLite adapter (\<open>src/retainedState/node.js\<close>), the
  Durable Object adapter that stores frames in chunks (\<open>src/retainedState/worker.js\<close>), and the
  presence records (\<open>src/roomPresence/index.js\<close>) whose activity decides what is evicted. The locale
  \<open>retained_store\<close> says that an adapter holds what the policy retains; both adapters are
  interpretations. Shows: the bounds of a room hold after any frames, revisions only grow, groups
  are evicted whole and catalogs last, and both runtimes replay the same frames.

  The recipient, slot and group of a row are strings. A one-element array also passes the pattern
  tests of the validator; retaining such a frame is \<open>None\<close> here (SQLite refuses to bind it). A
  recipient and a slot occur in one row only, so removing an object is removing its value.
\<close>

definition STATE_ROOM_BYTES :: nat where "STATE_ROOM_BYTES = 16777216"
definition STATE_ROOM_SLOTS :: nat where "STATE_ROOM_SLOTS = 512"
definition STATE_FRAME_BYTES :: nat where "STATE_FRAME_BYTES = 1800000"

lemmas [relay_limits] = STATE_ROOM_BYTES_def STATE_ROOM_SLOTS_def STATE_FRAME_BYTES_def

record state_row =
  sr_recipient :: string
  sr_key :: string
  sr_revision :: int
  sr_priority :: int
  sr_group :: "string option"
  sr_expires :: time
  sr_savedAt :: time
  sr_bytes :: nat
  sr_raw :: string

definition slot_of :: "state_row \<Rightarrow> string \<times> string" where
  "slot_of r = (sr_recipient r, sr_key r)"

section \<open>Presence\<close>

definition PRESENCE_MS :: int where "PRESENCE_MS = 604800000"

record presence_row =
  pr_id :: string
  pr_role :: string
  pr_lastSeenAt :: time

definition updatePresence :: "presence_row list \<Rightarrow> string option \<Rightarrow> string option \<Rightarrow> time \<Rightarrow> presence_row list" where
  "updatePresence rows role i now =
     (let live = filter (\<lambda>r. pr_lastSeenAt r > now - PRESENCE_MS) rows
      in case (role, i) of
           (Some r, Some d) \<Rightarrow>
             if r \<notin> {''phone'', ''machine''} \<or> \<not> is_hex64 d then live
             else slice_last 32 (filter (\<lambda>p. pr_id p \<noteq> d \<or> pr_role p \<noteq> r) live
                    @ [\<lparr>pr_id = d, pr_role = r, pr_lastSeenAt = now\<rparr>])
         | _ \<Rightarrow> live)"

section \<open>The policy\<close>

record state_group =
  sg_rows :: "state_row list"
  sg_priority :: int
  sg_savedAt :: time
  sg_seen :: time

definition recently_seen :: "presence_row list \<Rightarrow> time \<Rightarrow> (string, time) jmap" where
  "recently_seen activity now = fold (\<lambda>p m. jm_set m (pr_id p) (pr_lastSeenAt p))
     (filter (\<lambda>p. pr_role p = ''phone'' \<and> pr_lastSeenAt p > now - STATE_TTL_MS) activity) []"

definition group_id :: "state_row \<Rightarrow> string" where
  "group_id r = sr_recipient r @ '':'' @ (case sr_group r of Some g \<Rightarrow> g | None \<Rightarrow> sr_key r)"

definition bodies_of :: "state_row list \<Rightarrow> state_row list" where
  "bodies_of rows = filter (\<lambda>r. sr_priority r \<noteq> 0) rows"

text \<open>The group of a row after the row has joined it.\<close>

definition joined_group :: "(string, time) jmap \<Rightarrow> state_row \<Rightarrow> state_group option \<Rightarrow> state_group" where
  "joined_group seen row old =
     (let rows = (case old of None \<Rightarrow> [] | Some g \<Rightarrow> sg_rows g) @ [row]; bodies = bodies_of rows
      in \<lparr>sg_rows = rows,
          sg_priority = (if bodies \<noteq> [] then Max (set (map sr_priority bodies))
                         else if sr_group row \<noteq> None then 2 else 4),
          sg_savedAt = Max (set (map sr_savedAt (if bodies \<noteq> [] then bodies else rows))),
          sg_seen = (case old of Some g \<Rightarrow> sg_seen g
             | None \<Rightarrow> (case jm_get seen (sr_recipient row) of Some t \<Rightarrow> t | None \<Rightarrow> 0))\<rparr>)"

definition grouped :: "(string, time) jmap \<Rightarrow> state_row list \<Rightarrow> (string, state_group) jmap" where
  "grouped seen rows = fold (\<lambda>row m. jm_set m (group_id row) (joined_group seen row (jm_get m (group_id row)))) rows []"

definition essential :: "state_group \<Rightarrow> nat" where
  "essential g = (if sg_priority g = 1 then 1 else 0)"

text \<open>The comparator compares \<open>essential\<close>, then \<open>seen\<close>, then the priority downwards, then
  \<open>savedAt\<close>; the sort is stable.\<close>

definition evictionGroups :: "state_row list \<Rightarrow> presence_row list \<Rightarrow> time \<Rightarrow> state_group list" where
  "evictionGroups rows activity now =
     sort_key essential (sort_key sg_seen (sort_key (\<lambda>g. - sg_priority g) (sort_key sg_savedAt
       (map snd (grouped (recently_seen activity now) rows)))))"

definition state_bytes :: "state_row list \<Rightarrow> nat" where
  "state_bytes rows = sum_list (map sr_bytes rows)"

fun evict_loop :: "state_group list \<Rightarrow> state_row list \<Rightarrow> nat \<Rightarrow> state_row list" where
  "evict_loop [] result used = result"
| "evict_loop (g # gs) result used =
     (if length result \<le> STATE_ROOM_SLOTS \<and> used \<le> STATE_ROOM_BYTES then result
      else evict_loop gs (filter (\<lambda>r. r \<notin> set (sg_rows g)) result) (used - state_bytes (sg_rows g)))"

definition state_row_of :: "js \<Rightarrow> string \<Rightarrow> time \<Rightarrow> state_row" where
  "state_row_of envelope raw now = \<lparr>
     sr_recipient = str_of (field ''recipientKeyId'' envelope), sr_key = str_of (field ''stateKey'' envelope),
     sr_revision = num_of (field ''stateRevision'' envelope), sr_priority = num_of (field ''statePriority'' envelope),
     sr_group = (if nullish (field ''stateGroup'' envelope) then None else Some (str_of (field ''stateGroup'' envelope))),
     sr_expires = num_of (field ''expiresAt'' envelope), sr_savedAt = now, sr_bytes = byteLength raw, sr_raw = raw\<rparr>"

text \<open>Whether a valid frame is one the cache keeps.\<close>

definition cacheable :: "js \<Rightarrow> string \<Rightarrow> time \<Rightarrow> bool" where
  "cacheable envelope raw now \<longleftrightarrow> num_of (field ''expiresAt'' envelope) > now
     \<and> (num_of (field ''statePriority'' envelope) = 1 \<or> truthy (field ''stateGroup'' envelope))
     \<and> byteLength raw \<le> STATE_FRAME_BYTES"

definition string_slots :: "js \<Rightarrow> bool" where
  "string_slots envelope \<longleftrightarrow> is_string (field ''recipientKeyId'' envelope) \<and> is_string (field ''stateKey'' envelope)
     \<and> (nullish (field ''stateGroup'' envelope) \<or> is_string (field ''stateGroup'' envelope))"

definition replaced :: "state_row list \<Rightarrow> state_row \<Rightarrow> state_row list option" where
  "replaced live row = (case find_index (\<lambda>r. slot_of r = slot_of row) live of
       None \<Rightarrow> Some (live @ [row])
     | Some i \<Rightarrow> if sr_revision (live ! i) \<ge> sr_revision row then None else Some (remove_at i live @ [row]))"

definition retainState ::
  "state_row list \<Rightarrow> js \<Rightarrow> string \<Rightarrow> time \<Rightarrow> presence_row list \<Rightarrow> state_row list option" where
  "retainState rows envelope raw now activity =
     (let live = filter (\<lambda>r. sr_expires r > now) rows in
      if \<not> truthy (field ''stateKey'' envelope) then Some live
      else case validRetainedState envelope now of
          None \<Rightarrow> None
        | Some valid \<Rightarrow>
            if \<not> valid \<or> \<not> cacheable envelope raw now then Some live
            else if \<not> string_slots envelope then None
            else case replaced live (state_row_of envelope raw now) of
                None \<Rightarrow> Some live
              | Some result \<Rightarrow>
                  Some (evict_loop (evictionGroups result activity now) result (state_bytes result)))"

definition replayState :: "state_row list \<Rightarrow> string option \<Rightarrow> time \<Rightarrow> state_row list" where
  "replayState rows recipient now = (case recipient of None \<Rightarrow> [] | Some d \<Rightarrow>
     if \<not> is_hex64 d then []
     else sort_key sr_priority (sort_key sr_revision (filter (\<lambda>r. sr_recipient r = d \<and> sr_expires r > now) rows)))"

section \<open>The Node table\<close>

type_synonym state_table = "(string \<times> string \<times> string, state_row) jmap"

definition metadata :: "state_table \<Rightarrow> string \<Rightarrow> state_row list" where
  "metadata ts room = map snd (filter (\<lambda>e. fst (fst e) = room) ts)"

definition state_put ::
  "state_table \<Rightarrow> string \<Rightarrow> js \<Rightarrow> string \<Rightarrow> time \<Rightarrow> presence_row list \<Rightarrow> state_table option" where
  "state_put ts room envelope raw now activity =
     (let before = metadata ts room in
      case retainState before envelope raw now activity of
        None \<Rightarrow> None
      | Some rows \<Rightarrow>
          let kept = fold (\<lambda>old t. jm_delete t (room, slot_of old)) (filter (\<lambda>r. r \<notin> set rows) before) ts
          in Some (fold (\<lambda>row t. jm_set t (room, slot_of row) row) (filter (\<lambda>r. r \<notin> set before) rows) kept))"

definition state_list :: "state_table \<Rightarrow> string \<Rightarrow> string option \<Rightarrow> time \<Rightarrow> string list" where
  "state_list ts room recipient now = (case recipient of None \<Rightarrow> [] | Some d \<Rightarrow>
     if \<not> is_hex64 d then []
     else map sr_raw (sort_key sr_priority (sort_key sr_revision
       (filter (\<lambda>r. sr_recipient r = d \<and> sr_expires r > now) (metadata ts room)))))"

definition state_purge :: "state_table \<Rightarrow> time \<Rightarrow> state_table" where
  "state_purge ts now = filter (\<lambda>e. sr_expires (snd e) > now) ts"

section \<open>The Durable Object storage\<close>

text \<open>\<open>state:index\<close>, the metadata of a row under \<open>state:<recipient>:<slot>\<close> with its number of chunks,
  and the chunks. The metadata record is the row; its text is read from the chunks.\<close>

definition STATE_CHUNK :: nat where "STATE_CHUNK = 60000"

record state_storage =
  st_index :: "(string \<times> string) list"
  st_meta :: "string \<times> string \<rightharpoonup> state_row \<times> nat"
  st_parts :: "(string \<times> string) \<times> nat \<rightharpoonup> string"

definition remove_state :: "state_row \<Rightarrow> state_storage \<Rightarrow> state_storage" where
  "remove_state row s = s\<lparr>
     st_parts := (\<lambda>(k, i). if k = slot_of row \<and> i < ceil_div (sr_bytes row) STATE_CHUNK then None else st_parts s (k, i)),
     st_meta := (st_meta s)(slot_of row := None)\<rparr>"

definition store_state :: "state_row \<Rightarrow> state_storage \<Rightarrow> state_storage" where
  "store_state row s = (let n = ceil_div (js_length (sr_raw row)) STATE_CHUNK in s\<lparr>
     st_parts := (\<lambda>(k, i). if k = slot_of row \<and> i < n then Some (take STATE_CHUNK (drop (i * STATE_CHUNK) (sr_raw row)))
                           else st_parts s (k, i)),
     st_meta := (st_meta s)(slot_of row \<mapsto> (row, n))\<rparr>)"

fun read_state :: "state_storage \<Rightarrow> (string \<times> string) list \<Rightarrow> state_row list" where
  "read_state s [] = []"
| "read_state s (k # ks) = (case st_meta s k of
       None \<Rightarrow> read_state s ks
     | Some (row, n) \<Rightarrow>
         let chunks = map (\<lambda>i. st_parts s (k, i)) [0..<n]
         in if list_all (\<lambda>c. c \<noteq> None) chunks then row\<lparr>sr_raw := concat (map the chunks)\<rparr> # read_state s ks
            else read_state s ks)"

definition worker_state_rows :: "state_storage \<Rightarrow> state_row list" where
  "worker_state_rows s = read_state s (st_index s)"

definition worker_state_put ::
  "state_storage \<Rightarrow> js \<Rightarrow> string \<Rightarrow> time \<Rightarrow> presence_row list \<Rightarrow> state_storage option" where
  "worker_state_put s envelope raw now activity =
     (let before = worker_state_rows s in
      case retainState before envelope raw now activity of
        None \<Rightarrow> None
      | Some rows \<Rightarrow>
          let s1 = fold remove_state (filter (\<lambda>r. r \<notin> set rows) before) s;
              s2 = fold store_state (filter (\<lambda>r. r \<notin> set before) rows) s1
          in Some (s2\<lparr>st_index := map slot_of rows\<rparr>))"

definition worker_state_list :: "state_storage \<Rightarrow> string option \<Rightarrow> time \<Rightarrow> state_row list" where
  "worker_state_list s recipient now = replayState (worker_state_rows s) recipient now"

section \<open>Groups and eviction\<close>

lemma grouped_props:
  "jm_wf (grouped seen rows)"
  "(case jm_get (grouped seen rows) i of None \<Rightarrow> [] | Some g \<Rightarrow> sg_rows g) = filter (\<lambda>r. group_id r = i) rows"
proof -
  have "jm_wf (grouped seen rows) \<and>
    (\<forall>i. (case jm_get (grouped seen rows) i of None \<Rightarrow> [] | Some g \<Rightarrow> sg_rows g) = filter (\<lambda>r. group_id r = i) rows)"
  proof (induction rows rule: rev_induct)
    case (snoc row rows)
    then show ?case by (auto simp: grouped_def joined_group_def Let_def split: option.splits)
  qed (simp add: grouped_def)
  then show "jm_wf (grouped seen rows)"
    and "(case jm_get (grouped seen rows) i of None \<Rightarrow> [] | Some g \<Rightarrow> sg_rows g) = filter (\<lambda>r. group_id r = i) rows"
    by blast+
qed

lemma grouped_get: "jm_get (grouped seen rows) i = Some g \<Longrightarrow> sg_rows g = filter (\<lambda>r. group_id r = i) rows"
  using grouped_props(2) [of seen rows i] by simp

lemma grouped_some: "r \<in> set rows \<Longrightarrow> \<exists>g. jm_get (grouped seen rows) (group_id r) = Some g"
  using grouped_props(2) [of seen rows "group_id r"]
  by (cases "jm_get (grouped seen rows) (group_id r)") (auto simp: filter_empty_conv dest!: sym [of "[]"])

definition groups_of :: "state_row list \<Rightarrow> state_group list \<Rightarrow> bool" where
  "groups_of rows gs \<longleftrightarrow> set rows = (\<Union>g \<in> set gs. set (sg_rows g)) \<and> (\<forall>g \<in> set gs. distinct (sg_rows g))
     \<and> sorted_wrt (\<lambda>a b. set (sg_rows a) \<inter> set (sg_rows b) = {}) gs"

lemma disjoint_mset:
  assumes "mset xs = mset ys" "sorted_wrt (\<lambda>a b. f a \<inter> f b = {}) xs"
  shows "sorted_wrt (\<lambda>a b. f a \<inter> f b = {}) ys"
proof -
  have sum: "sorted_wrt (\<lambda>a b. f a \<inter> f b = {}) zs
      \<longleftrightarrow> (\<forall>u. size (filter_mset (\<lambda>z. u \<in> f z) (mset zs)) \<le> 1)" for zs
  proof (induction zs)
    case (Cons z zs)
    have "(\<forall>u. size (filter_mset (\<lambda>z. u \<in> f z) (mset (z # zs))) \<le> 1)
        \<longleftrightarrow> (\<forall>u. size (filter_mset (\<lambda>z. u \<in> f z) (mset zs)) \<le> 1) \<and> (\<forall>u \<in> f z. filter_mset (\<lambda>z. u \<in> f z) (mset zs) = {#})"
      by (auto simp: le_Suc_eq)
    moreover have "filter_mset (\<lambda>z. u \<in> f z) (mset zs) = {#} \<longleftrightarrow> (\<forall>b \<in> set zs. u \<notin> f b)" for u
      by (simp add: mset_filter [symmetric] filter_empty_conv del: mset_filter)
    ultimately show ?case using Cons by auto
  qed simp
  from assms show ?thesis unfolding sum by simp
qed

lemma evictionGroups_groups:
  assumes "distinct rows"
  shows "groups_of rows (evictionGroups rows activity now)"
proof -
  let ?m = "grouped (recently_seen activity now) rows"
  let ?gs = "map snd ?m"
  have same: "mset ?gs = mset (evictionGroups rows activity now)" by (simp add: evictionGroups_def)
  have in_m: "jm_get ?m i = Some g" if "(i, g) \<in> set ?m" for i g
    using that grouped_props(1) by (rule jm_get_mem [rotated])
  have rows_g: "sg_rows g = filter (\<lambda>r. group_id r = i) rows" if "(i, g) \<in> set ?m" for i g
    using in_m [OF that] by (rule grouped_get)
  have cover: "set rows = (\<Union>g \<in> set ?gs. set (sg_rows g))"
  proof
    show "set rows \<subseteq> (\<Union>g \<in> set ?gs. set (sg_rows g))"
    proof
      fix r assume r: "r \<in> set rows"
      then obtain g where g: "jm_get ?m (group_id r) = Some g" using grouped_some by blast
      then have "(group_id r, g) \<in> set ?m" by (simp add: jm_get_def map_of_SomeD)
      with r rows_g [OF this] show "r \<in> (\<Union>g \<in> set ?gs. set (sg_rows g))" by force
    qed
    show "(\<Union>g \<in> set ?gs. set (sg_rows g)) \<subseteq> set rows" using rows_g by fastforce
  qed
  have "sorted_wrt (\<lambda>a b. set (sg_rows a) \<inter> set (sg_rows b) = {}) ?gs"
  proof -
    have "sorted_wrt (\<lambda>x y. set (sg_rows (snd x)) \<inter> set (sg_rows (snd y)) = {}) xs"
      if "distinct (map fst xs)" "set xs \<subseteq> set ?m" for xs
      using that
    proof (induction xs)
      case (Cons x xs)
      have "set (sg_rows (snd x)) \<inter> set (sg_rows (snd y)) = {}" if "y \<in> set xs" for y
        using rows_g [of "fst x" "snd x"] rows_g [of "fst y" "snd y"] Cons.prems that by force
      with Cons show ?case by auto
    qed simp
    then show ?thesis using grouped_props(1) [of "recently_seen activity now" rows]
      by (simp add: sorted_wrt_map jm_wf_def)
  qed
  then have "sorted_wrt (\<lambda>a b. set (sg_rows a) \<inter> set (sg_rows b) = {}) (evictionGroups rows activity now)"
    by (rule disjoint_mset [OF same])
  moreover have "\<forall>g \<in> set ?gs. distinct (sg_rows g)" using rows_g assms by fastforce
  ultimately show ?thesis using cover unfolding groups_of_def mset_eq_setD [OF same] by blast
qed

definition state_fits :: "state_row list \<Rightarrow> bool" where
  "state_fits rows \<longleftrightarrow> length rows \<le> STATE_ROOM_SLOTS \<and> state_bytes rows \<le> STATE_ROOM_BYTES"

lemma state_bytes_split:
  assumes "distinct rows" "distinct gone" "set gone \<subseteq> set rows"
  shows "state_bytes (filter (\<lambda>r. r \<notin> set gone) rows) = state_bytes rows - state_bytes gone"
proof -
  have sum: "state_bytes xs = sum sr_bytes (set xs)" if "distinct xs" for xs
    using that by (simp add: state_bytes_def sum_list_distinct_conv_sum_set)
  have "set (filter (\<lambda>r. r \<notin> set gone) rows) = set rows - set gone" by auto
  then show ?thesis using assms by (simp add: sum sum_diff_nat del: set_filter)
qed

text \<open>The loop drops the first groups until the rest fits.\<close>

lemma evict_loop_spec:
  assumes "distinct rows" "groups_of rows gs"
  shows "\<exists>pre post. gs = pre @ post \<and> state_fits (evict_loop gs rows (state_bytes rows))
    \<and> evict_loop gs rows (state_bytes rows) = filter (\<lambda>r. \<exists>g \<in> set post. r \<in> set (sg_rows g)) rows
    \<and> (state_fits rows \<longrightarrow> pre = [])"
  using assms
proof (induction gs arbitrary: rows)
  case Nil
  then show ?case by (simp add: groups_of_def state_fits_def state_bytes_def)
next
  case (Cons g gs)
  show ?case
  proof (cases "state_fits rows")
    case True
    then have "evict_loop (g # gs) rows (state_bytes rows) = rows" by (simp add: state_fits_def)
    moreover have "filter (\<lambda>r. \<exists>h \<in> set (g # gs). r \<in> set (sg_rows h)) rows = rows"
      using Cons.prems(2) by (auto simp: groups_of_def filter_id_conv)
    ultimately show ?thesis using True by (metis append_Nil)
  next
    case False
    let ?rest = "filter (\<lambda>r. r \<notin> set (sg_rows g)) rows"
    have g: "distinct (sg_rows g)" "set (sg_rows g) \<subseteq> set rows" using Cons.prems(2) by (auto simp: groups_of_def)
    have loop: "evict_loop (g # gs) rows (state_bytes rows) = evict_loop gs ?rest (state_bytes ?rest)"
      using False state_bytes_split [OF Cons.prems(1) g] by (auto simp: state_fits_def)
    have "groups_of ?rest gs" using Cons.prems(2) by (auto simp: groups_of_def)
    from Cons.IH [OF distinct_filter [OF Cons.prems(1)] this] obtain pre post where IH: "gs = pre @ post"
      "state_fits (evict_loop gs ?rest (state_bytes ?rest))"
      "evict_loop gs ?rest (state_bytes ?rest) = filter (\<lambda>r. \<exists>h \<in> set post. r \<in> set (sg_rows h)) ?rest" by blast
    have "filter (\<lambda>r. \<exists>h \<in> set post. r \<in> set (sg_rows h)) ?rest = filter (\<lambda>r. \<exists>h \<in> set post. r \<in> set (sg_rows h)) rows"
      using Cons.prems(2) IH(1) by (auto simp: groups_of_def intro!: filter_cong)
    then show ?thesis using IH loop False by (intro exI [of _ "g # pre"] exI [of _ post]) simp
  qed
qed

lemma two_key_order:
  assumes "gs = sort_key f (sort_key h xs)" "gs = pre @ post" "a \<in> set pre" "b \<in> set post"
  shows "f a \<le> f b \<and> (f a = f b \<longrightarrow> h a \<le> h b)"
proof
  have "sorted (map f gs)" using assms(1) by simp
  then show "f a \<le> f b" using assms(2-4) by (auto simp: sorted_append)
  show "f a = f b \<longrightarrow> h a \<le> h b"
  proof
    assume eq: "f a = f b"
    have "filter (\<lambda>g. f g = f a) gs = filter (\<lambda>g. f g = f a) (sort_key h xs)"
      using assms(1) by (simp add: sort_key_stable)
    then have "sorted (map h (filter (\<lambda>g. f g = f a) pre @ filter (\<lambda>g. f g = f a) post))"
      using assms(2) by (metis filter_append sorted_filter sorted_sort_key)
    then show "h a \<le> h b" using assms(3,4) eq by (auto simp: sorted_append)
  qed
qed

section \<open>What the policy keeps\<close>

definition live_rows :: "time \<Rightarrow> state_row list \<Rightarrow> state_row list" where
  "live_rows now rows = filter (\<lambda>r. sr_expires r > now) rows"

text \<open>The rows with the incoming one in the place of its slot.\<close>

definition with_row :: "time \<Rightarrow> state_row list \<Rightarrow> state_row \<Rightarrow> state_row list" where
  "with_row now rows row = filter (\<lambda>r. slot_of r \<noteq> slot_of row) (live_rows now rows) @ [row]"

lemma replaced_cases:
  assumes "distinct (map slot_of live)" "replaced live row = Some result"
  shows "result = filter (\<lambda>r. slot_of r \<noteq> slot_of row) live @ [row]
    \<and> (\<forall>r \<in> set live. slot_of r = slot_of row \<longrightarrow> sr_revision r < sr_revision row)"
proof (cases "find_index (\<lambda>r. slot_of r = slot_of row) live")
  case None
  then have "\<forall>r \<in> set live. slot_of r \<noteq> slot_of row" by (simp add: find_index_None_iff list_all_iff)
  then show ?thesis using assms(2) None by (auto simp: replaced_def filter_id_conv)
next
  case (Some i)
  then obtain ys x zs where split: "live = ys @ x # zs" "i = length ys" "slot_of x = slot_of row"
    by (auto dest: find_index_Some_split)
  have "slot_of x \<notin> slot_of ` (set ys \<union> set zs)" using assms(1) split(1) by auto
  then have others: "\<forall>r \<in> set ys \<union> set zs. slot_of r \<noteq> slot_of row" unfolding split(3) by (metis image_eqI)
  then have "filter (\<lambda>r. slot_of r \<noteq> slot_of row) live = ys @ zs" using split by (auto simp: filter_id_conv)
  then show ?thesis using assms(2) Some split others by (auto simp: replaced_def split: if_splits)
qed

lemma retain_state_cases:
  assumes "retainState rows envelope raw now activity = Some rows'" "distinct (map slot_of rows)"
  obtains (unchanged) "rows' = live_rows now rows"
  | (accepted) row where "row = state_row_of envelope raw now" "row \<notin> set rows" "sr_expires row > now"
      "byteLength raw \<le> STATE_FRAME_BYTES"
      "\<forall>r \<in> set (live_rows now rows). slot_of r = slot_of row \<longrightarrow> sr_revision r < sr_revision row"
      "distinct (map slot_of (with_row now rows row))"
      "rows' = evict_loop (evictionGroups (with_row now rows row) activity now) (with_row now rows row)
         (state_bytes (with_row now rows row))"
proof (cases "rows' = live_rows now rows")
  case True
  then show thesis by (rule unchanged)
next
  case False
  let ?row = "state_row_of envelope raw now"
  have d: "distinct (map slot_of (live_rows now rows))" using assms(2) by (simp add: live_rows_def distinct_map_filter)
  have c: "cacheable envelope raw now"
    using assms(1) False by (auto simp: retainState_def Let_def live_rows_def split: if_splits option.splits)
  obtain result where r: "replaced (live_rows now rows) ?row = Some result"
    "rows' = evict_loop (evictionGroups result activity now) result (state_bytes result)"
    using assms(1) False by (auto simp: retainState_def Let_def live_rows_def split: if_splits option.splits)
  have rep: "result = with_row now rows ?row"
    "\<forall>r \<in> set (live_rows now rows). slot_of r = slot_of ?row \<longrightarrow> sr_revision r < sr_revision ?row"
    using replaced_cases [OF d r(1)] by (simp_all add: with_row_def)
  have exp: "sr_expires ?row > now" using c by (simp add: cacheable_def state_row_of_def)
  have "?row \<notin> set rows" using rep(2) exp by (auto simp: live_rows_def)
  moreover have "distinct (map slot_of (with_row now rows ?row))"
    using d by (auto simp: with_row_def distinct_map_filter)
  ultimately show thesis using accepted [OF refl] rep r(2) exp c by (simp add: cacheable_def)
qed

lemma evicted_rows:
  assumes "distinct (map slot_of rows)"
    and "rows' = evict_loop (evictionGroups rows activity now) rows (state_bytes rows)"
  shows "\<exists>pre post. evictionGroups rows activity now = pre @ post
    \<and> rows' = filter (\<lambda>r. \<exists>g \<in> set post. r \<in> set (sg_rows g)) rows \<and> state_fits rows' \<and> (state_fits rows \<longrightarrow> pre = [])"
proof -
  have "distinct rows" using assms(1) by (simp add: distinct_map)
  from evict_loop_spec [OF this evictionGroups_groups [OF this, of activity now]] assms(2) show ?thesis by auto
qed

text \<open>The invariant of the rows of a room.\<close>

definition rows_ok :: "state_row list \<Rightarrow> bool" where
  "rows_ok rows \<longleftrightarrow> distinct (map slot_of rows) \<and> state_fits rows
     \<and> (\<forall>r \<in> set rows. sr_bytes r = length (sr_raw r) \<and> sr_bytes r \<le> STATE_FRAME_BYTES)"

lemma state_bytes_filter: "state_bytes (filter p rows) \<le> state_bytes rows"
  by (simp add: state_bytes_def sum_list_filter_le)

lemma rows_ok_filter: "rows_ok rows \<Longrightarrow> rows_ok (filter p rows)"
  using state_bytes_filter [of p rows] le_trans [OF length_filter_le [of p rows]]
  by (auto simp: rows_ok_def state_fits_def distinct_map_filter)

lemma retain_ok:
  assumes "retainState rows envelope raw now activity = Some rows'" "rows_ok rows"
  shows "rows_ok rows'"
proof -
  have "distinct (map slot_of rows)" using assms(2) by (simp add: rows_ok_def)
  with assms(1) show ?thesis
  proof (cases rule: retain_state_cases)
    case unchanged
    then show ?thesis using rows_ok_filter [OF assms(2)] by (simp add: live_rows_def)
  next
    case (accepted row)
    from evicted_rows [OF accepted(6,7)] obtain p where e: "rows' = filter p (with_row now rows row)" "state_fits rows'"
      by blast
    moreover have "distinct (map slot_of rows')" using accepted(6) e(1) by (simp add: distinct_map_filter)
    moreover have "\<forall>r \<in> set rows'. sr_bytes r = length (sr_raw r) \<and> sr_bytes r \<le> STATE_FRAME_BYTES"
      using e(1) assms(2) accepted(1,4)
      by (auto simp: with_row_def live_rows_def rows_ok_def state_row_of_def byteLength_def)
    ultimately show ?thesis unfolding rows_ok_def by blast
  qed
qed

text \<open>The rows kept are old ones in their order, then the new one if it survives.\<close>

lemma retain_shape:
  assumes "retainState rows envelope raw now activity = Some rows'" "distinct (map slot_of rows)"
  shows "rows' = filter (\<lambda>r. r \<in> set rows') rows @ filter (\<lambda>r. r \<notin> set rows) rows'
    \<and> (\<forall>r \<in> set rows'. r \<in> set rows \<or> r = state_row_of envelope raw now) \<and> distinct (map slot_of rows')"
  using assms
proof (cases rule: retain_state_cases)
  case unchanged
  have "filter (\<lambda>r. r \<in> set (live_rows now rows)) rows = live_rows now rows"
    by (auto simp: live_rows_def intro!: filter_cong)
  moreover have "filter (\<lambda>r. r \<notin> set rows) (live_rows now rows) = []" by (auto simp: live_rows_def filter_empty_conv)
  ultimately show ?thesis using unchanged assms(2) by (auto simp: live_rows_def distinct_map_filter)
next
  case (accepted row)
  from evicted_rows [OF accepted(6,7)] obtain p where p: "rows' = filter p (with_row now rows row)" by blast
  have old: "filter (\<lambda>r. r \<in> set rows') rows = filter p (filter (\<lambda>r. slot_of r \<noteq> slot_of row) (live_rows now rows))"
    using accepted(2) by (auto simp: p with_row_def live_rows_def intro!: filter_cong)
  moreover have "filter (\<lambda>r. r \<notin> set rows) rows' = filter p [row]"
    using accepted(2) by (auto simp: p with_row_def live_rows_def filter_empty_conv)
  ultimately have "rows' = filter (\<lambda>r. r \<in> set rows') rows @ filter (\<lambda>r. r \<notin> set rows) rows'"
    using p by (simp add: with_row_def)
  moreover have "\<forall>r \<in> set rows'. r \<in> set rows \<or> r = state_row_of envelope raw now"
    using accepted(1) by (auto simp: p with_row_def live_rows_def)
  moreover have "distinct (map slot_of rows')" using accepted(6) by (simp add: p distinct_map_filter)
  ultimately show ?thesis by blast
qed

section \<open>What an adapter promises\<close>

text \<open>A frame offered for retention: the envelope, its text, the time, and the activity of the room.\<close>

type_synonym state_frame = "js \<times> string \<times> time \<times> presence_row list"

definition policy_step :: "state_frame \<Rightarrow> state_row list \<Rightarrow> state_row list" where
  "policy_step = (\<lambda>(envelope, raw, now, activity) rows.
     (case retainState rows envelope raw now activity of None \<Rightarrow> rows | Some rows' \<Rightarrow> rows'))"

locale retained_store =
  fixes rows :: "'s \<Rightarrow> state_row list"
    and put :: "'s \<Rightarrow> js \<Rightarrow> string \<Rightarrow> time \<Rightarrow> presence_row list \<Rightarrow> 's option"
    and ok :: "'s \<Rightarrow> bool"
  assumes put_rows: "ok s \<Longrightarrow> ascii_string raw \<Longrightarrow>
      map_option rows (put s e raw now act) = retainState (rows s) e raw now act"
    and put_ok: "ok s \<Longrightarrow> ascii_string raw \<Longrightarrow> put s e raw now act = Some s' \<Longrightarrow> ok s'"
begin

definition store_step :: "state_frame \<Rightarrow> 's \<Rightarrow> 's" where
  "store_step = (\<lambda>(e, raw, now, act) s. (case put s e raw now act of None \<Rightarrow> s | Some s' \<Rightarrow> s'))"

lemma store_run:
  assumes "ok s" "\<forall>(e, raw, now, act) \<in> set fs. ascii_string raw"
  shows "ok (fold store_step fs s)" "rows (fold store_step fs s) = fold policy_step fs (rows s)"
proof -
  have "ok (fold store_step fs s) \<and> rows (fold store_step fs s) = fold policy_step fs (rows s)"
    using assms
  proof (induction fs arbitrary: s)
    case (Cons f fs)
    obtain e raw now act where f: "f = (e, raw, now, act)" by (cases f)
    have a: "ascii_string raw" using Cons.prems(2) f by simp
    have "ok (store_step f s)" "rows (store_step f s) = policy_step f (rows s)"
      using put_ok [OF Cons.prems(1) a, of e now act] put_rows [OF Cons.prems(1) a, of e now act] Cons.prems(1)
      by (auto simp: f store_step_def policy_step_def split: option.splits dest: sym [of "Some _"] sym [of None])
    with Cons.IH [of "store_step f s"] Cons.prems(2) show ?case by simp
  qed simp
  then show "ok (fold store_step fs s)" "rows (fold store_step fs s) = fold policy_step fs (rows s)" by blast+
qed

end

lemma policy_run_ok: "rows_ok rows \<Longrightarrow> rows_ok (fold policy_step fs rows)"
  by (induction fs arbitrary: rows) (auto simp: policy_step_def dest: retain_ok split: option.splits prod.splits)

section \<open>The Node adapter\<close>

definition state_table_ok :: "state_table \<Rightarrow> bool" where
  "state_table_ok ts \<longleftrightarrow> jm_wf ts \<and> (\<forall>e \<in> set ts. snd (fst e) = slot_of (snd e))"

lemma metadata_distinct: "state_table_ok ts \<Longrightarrow> distinct (map slot_of (metadata ts room))"
proof (induction ts)
  case (Cons e ts)
  have "slot_of (snd e) \<notin> slot_of ` set (metadata ts room)" if "fst (fst e) = room"
  proof
    assume "slot_of (snd e) \<in> slot_of ` set (metadata ts room)"
    then obtain e' where e': "e' \<in> set ts" "fst (fst e') = room" "slot_of (snd e') = slot_of (snd e)"
      by (auto simp: metadata_def simp del: split_paired_Ex)
    then have "fst e' = fst e" using Cons.prems that by (simp add: state_table_ok_def prod_eq_iff)
    then show False using Cons.prems e'(1) by (simp add: state_table_ok_def jm_wf_def) (metis image_eqI)
  qed
  then show ?case using Cons by (auto simp: metadata_def state_table_ok_def jm_wf_def)
qed (simp add: metadata_def)

lemma delete_slots:
  assumes "state_table_ok ts" "\<forall>r \<in> set gone. r \<in> set (metadata ts room)"
  shows "state_table_ok (fold (\<lambda>old t. jm_delete t (room, slot_of old)) gone ts)
    \<and> metadata (fold (\<lambda>old t. jm_delete t (room, slot_of old)) gone ts) room
        = filter (\<lambda>r. r \<notin> set gone) (metadata ts room)"
proof -
  have fold: "fold (\<lambda>old t. jm_delete t (room, slot_of old)) gone ts
      = filter (\<lambda>e. \<forall>g \<in> set gone. fst e \<noteq> (room, slot_of g)) ts" for gone ts
    by (induction gone arbitrary: ts) (auto simp: jm_delete_def intro!: filter_cong)
  have inj: "r = g" if "r \<in> set (metadata ts room)" "g \<in> set (metadata ts room)" "slot_of r = slot_of g" for r g
    using that metadata_distinct [OF assms(1), of room] by (auto simp: distinct_map inj_on_def)
  have "(\<forall>g \<in> set gone. fst e \<noteq> (room, slot_of g)) \<longleftrightarrow> snd e \<notin> set gone"
    if "e \<in> set ts" "fst (fst e) = room" for e
  proof -
    have "snd e \<in> set (metadata ts room)" "snd (fst e) = slot_of (snd e)"
      using that assms(1) by (auto simp: metadata_def state_table_ok_def)
    then show ?thesis using inj assms(2) that(2) by (metis prod.collapse snd_conv)
  qed
  then have "filter (\<lambda>e. fst (fst e) = room) (filter (\<lambda>e. \<forall>g \<in> set gone. fst e \<noteq> (room, slot_of g)) ts)
      = filter (\<lambda>e. snd e \<notin> set gone) (filter (\<lambda>e. fst (fst e) = room) ts)"
    unfolding filter_filter by (intro filter_cong [OF refl]) blast
  then have "metadata (filter (\<lambda>e. \<forall>g \<in> set gone. fst e \<noteq> (room, slot_of g)) ts) room
      = filter (\<lambda>r. r \<notin> set gone) (metadata ts room)"
    by (simp add: metadata_def filter_map o_def del: filter_filter)
  then show ?thesis using assms(1) by (simp add: fold state_table_ok_def jm_wf_def distinct_map_filter)
qed

lemma insert_slots:
  assumes "state_table_ok ts" "distinct (map slot_of (metadata ts room @ fresh))"
  shows "state_table_ok (fold (\<lambda>row t. jm_set t (room, slot_of row) row) fresh ts)
    \<and> metadata (fold (\<lambda>row t. jm_set t (room, slot_of row) row) fresh ts) room = metadata ts room @ fresh"
  using assms
proof (induction fresh arbitrary: ts)
  case (Cons row fresh)
  have "jm_get ts (room, slot_of row) = None"
  proof (rule ccontr)
    assume "jm_get ts (room, slot_of row) \<noteq> None"
    then obtain r where "((room, slot_of row), r) \<in> set ts" by (auto simp: jm_get_def dest: map_of_SomeD)
    then have "r \<in> set (metadata ts room)" "slot_of r = slot_of row"
      using Cons.prems(1) by (force simp: metadata_def state_table_ok_def)+
    then show False using Cons.prems(2) by (force simp: image_iff)
  qed
  then have set: "jm_set ts (room, slot_of row) row = ts @ [((room, slot_of row), row)]" by (rule jm_set_absent)
  have "jm_wf (jm_set ts (room, slot_of row) row)" using Cons.prems(1) by (simp add: state_table_ok_def)
  then have "state_table_ok (ts @ [((room, slot_of row), row)])"
    using Cons.prems(1) by (auto simp: state_table_ok_def set)
  moreover have "metadata (ts @ [((room, slot_of row), row)]) room = metadata ts room @ [row]"
    by (simp add: metadata_def)
  ultimately show ?case using Cons.IH [of "ts @ [((room, slot_of row), row)]"] Cons.prems(2) by (simp add: set)
qed simp

lemma state_put_rows:
  assumes "state_table_ok ts"
  shows "map_option (\<lambda>t. metadata t room) (state_put ts room e raw now act) = retainState (metadata ts room) e raw now act"
    and "state_put ts room e raw now act = Some ts' \<Longrightarrow> state_table_ok ts'"
proof -
  have "case retainState (metadata ts room) e raw now act of None \<Rightarrow> state_put ts room e raw now act = None
    | Some rows' \<Rightarrow> \<exists>t. state_put ts room e raw now act = Some t \<and> state_table_ok t \<and> metadata t room = rows'"
  proof (cases "retainState (metadata ts room) e raw now act")
    case None
    then show ?thesis by (simp add: state_put_def)
  next
    case (Some rows')
    let ?before = "metadata ts room"
    note shape = retain_shape [OF Some metadata_distinct [OF assms]]
    let ?kept = "fold (\<lambda>old t. jm_delete t (room, slot_of old)) (filter (\<lambda>r. r \<notin> set rows') ?before) ts"
    have k: "state_table_ok ?kept" "metadata ?kept room = filter (\<lambda>r. r \<in> set rows') ?before"
      using delete_slots [OF assms, of "filter (\<lambda>r. r \<notin> set rows') ?before" room]
      by (auto intro!: filter_cong)
    have "distinct (map slot_of (metadata ?kept room @ filter (\<lambda>r. r \<notin> set ?before) rows'))"
      using shape k(2) by metis
    from insert_slots [OF k(1) this] k(2) shape Some show ?thesis
      by (simp add: state_put_def Let_def)
  qed
  then show "map_option (\<lambda>t. metadata t room) (state_put ts room e raw now act) = retainState (metadata ts room) e raw now act"
    and "state_put ts room e raw now act = Some ts' \<Longrightarrow> state_table_ok ts'"
    by (auto split: option.splits)
qed

interpretation node_state: retained_store "\<lambda>ts. metadata ts room" "\<lambda>ts. state_put ts room" state_table_ok
  for room
  by unfold_locales (auto simp: state_put_rows(1) intro: state_put_rows(2))

section \<open>The Durable Object adapter\<close>

definition holds_row :: "state_storage \<Rightarrow> state_row \<Rightarrow> bool" where
  "holds_row s row \<longleftrightarrow> st_meta s (slot_of row) = Some (row, ceil_div (length (sr_raw row)) STATE_CHUNK)
     \<and> (\<forall>i < ceil_div (length (sr_raw row)) STATE_CHUNK.
          st_parts s (slot_of row, i) = Some (take STATE_CHUNK (drop (i * STATE_CHUNK) (sr_raw row))))"

definition state_storage_ok :: "state_storage \<Rightarrow> bool" where
  "state_storage_ok s \<longleftrightarrow> (\<exists>rows. st_index s = map slot_of rows \<and> distinct (map slot_of rows)
     \<and> (\<forall>r \<in> set rows. holds_row s r))"

lemma read_held:
  assumes "\<forall>r \<in> set rows. holds_row s r"
  shows "read_state s (map slot_of rows) = rows"
  using assms
proof (induction rows)
  case (Cons r rows)
  let ?n = "ceil_div (length (sr_raw r)) STATE_CHUNK"
  have parts: "st_parts s (slot_of r, i) = Some (take STATE_CHUNK (drop (i * STATE_CHUNK) (sr_raw r)))" if "i < ?n" for i
    using Cons.prems that by (simp add: holds_row_def)
  have "concat (map (\<lambda>i. take STATE_CHUNK (drop (i * STATE_CHUNK) (sr_raw r))) [0..<?n]) = sr_raw r"
    by (rule pieces_whole) (simp add: STATE_CHUNK_def)
  moreover have "map (\<lambda>i. the (st_parts s (slot_of r, i))) [0..<?n]
      = map (\<lambda>i. take STATE_CHUNK (drop (i * STATE_CHUNK) (sr_raw r))) [0..<?n]" by (simp add: parts)
  ultimately have "concat (map (\<lambda>i. the (st_parts s (slot_of r, i))) [0..<?n]) = sr_raw r" by (simp only:)
  then show ?case using Cons parts by (simp add: holds_row_def list_all_iff o_def)
qed simp

lemma storage_rows:
  assumes "state_storage_ok s"
  shows "st_index s = map slot_of (worker_state_rows s)" "distinct (map slot_of (worker_state_rows s))"
    "\<forall>r \<in> set (worker_state_rows s). holds_row s r"
  using assms read_held unfolding state_storage_ok_def worker_state_rows_def by fastforce+

lemma holds_remove:
  "holds_row s r \<Longrightarrow> \<forall>g \<in> set gone. slot_of g \<noteq> slot_of r \<Longrightarrow> holds_row (fold remove_state gone s) r"
  by (induction gone arbitrary: s) (auto simp: holds_row_def remove_state_def)

lemma holds_store_other:
  "holds_row s r \<Longrightarrow> \<forall>g \<in> set fresh. slot_of g \<noteq> slot_of r \<Longrightarrow> holds_row (fold store_state fresh s) r"
  by (induction fresh arbitrary: s) (auto simp: holds_row_def store_state_def Let_def)

lemma holds_stored: "ascii_string (sr_raw r) \<Longrightarrow> holds_row (store_state r s) r"
  by (simp add: holds_row_def store_state_def Let_def js_length_ascii)

lemma holds_fresh:
  assumes "distinct (map slot_of fresh)" "\<forall>r \<in> set fresh. ascii_string (sr_raw r)" "r \<in> set fresh"
  shows "holds_row (fold store_state fresh s) r"
  using assms
proof (induction fresh arbitrary: s)
  case (Cons g fresh)
  show ?case
  proof (cases "r \<in> set fresh")
    case True
    then show ?thesis using Cons by simp
  next
    case False
    then have r: "r = g" using Cons.prems(3) by simp
    have "\<forall>h \<in> set fresh. slot_of h \<noteq> slot_of r" using Cons.prems(1) r by (metis image_eqI list.simps(9) distinct.simps(2) set_map)
    then show ?thesis using holds_store_other [OF holds_stored] Cons.prems(2) r by simp
  qed
qed simp

lemma worker_state_put_rows:
  assumes "state_storage_ok s" "ascii_string raw"
  shows "map_option worker_state_rows (worker_state_put s e raw now act) = retainState (worker_state_rows s) e raw now act"
    and "worker_state_put s e raw now act = Some s' \<Longrightarrow> state_storage_ok s'"
proof -
  let ?before = "worker_state_rows s"
  have "case retainState ?before e raw now act of None \<Rightarrow> worker_state_put s e raw now act = None
    | Some rows' \<Rightarrow> \<exists>t. worker_state_put s e raw now act = Some t \<and> state_storage_ok t \<and> worker_state_rows t = rows'"
  proof (cases "retainState ?before e raw now act")
    case None
    then show ?thesis by (simp add: worker_state_put_def)
  next
    case (Some rows')
    note held = storage_rows [OF assms(1)]
    note shape = retain_shape [OF Some held(2)]
    let ?gone = "filter (\<lambda>r. r \<notin> set rows') ?before"
    let ?fresh = "filter (\<lambda>r. r \<notin> set ?before) rows'"
    let ?s = "fold store_state ?fresh (fold remove_state ?gone s)"
    have inj: "r = r'" if "r \<in> set ?before" "r' \<in> set ?before" "slot_of r = slot_of r'" for r r'
      using that held(2) by (auto simp: distinct_map inj_on_def)
    have inj': "r = r'" if "r \<in> set rows'" "r' \<in> set rows'" "slot_of r = slot_of r'" for r r'
      using that shape by (auto simp: distinct_map inj_on_def)
    have "holds_row ?s r" if r: "r \<in> set rows'" for r
    proof (cases "r \<in> set ?before")
      case True
      have "holds_row (fold remove_state ?gone s) r"
        by (rule holds_remove) (use held(3) True r inj in auto)
      then show ?thesis by (rule holds_store_other) (use inj' True r in auto)
    next
      case False
      have "distinct (map slot_of ?fresh)" using shape by (simp add: distinct_map_filter)
      moreover have "\<forall>r \<in> set ?fresh. ascii_string (sr_raw r)" using shape assms(2) by (auto simp: state_row_of_def)
      ultimately show ?thesis by (rule holds_fresh) (use False r in auto)
    qed
    then have h: "\<forall>r \<in> set rows'. holds_row (?s\<lparr>st_index := map slot_of rows'\<rparr>) r" by (simp add: holds_row_def)
    have "worker_state_put s e raw now act = Some (?s\<lparr>st_index := map slot_of rows'\<rparr>)"
      using Some by (simp add: worker_state_put_def Let_def)
    moreover have "state_storage_ok (?s\<lparr>st_index := map slot_of rows'\<rparr>)"
      unfolding state_storage_ok_def using h shape by auto
    moreover have "worker_state_rows (?s\<lparr>st_index := map slot_of rows'\<rparr>) = rows'"
      using read_held [OF h] by (simp add: worker_state_rows_def)
    ultimately show ?thesis using Some by simp
  qed
  then show "map_option worker_state_rows (worker_state_put s e raw now act) = retainState (worker_state_rows s) e raw now act"
    and "worker_state_put s e raw now act = Some s' \<Longrightarrow> state_storage_ok s'"
    by (auto split: option.splits)
qed

interpretation worker_state: retained_store worker_state_rows worker_state_put state_storage_ok
  by unfold_locales (auto simp: worker_state_put_rows(1) intro: worker_state_put_rows(2))

section \<open>Properties\<close>

text \<open>The runs of the two stores over offered frames; a frame whose handling throws changes nothing.\<close>

definition node_state_run :: "string \<Rightarrow> state_frame list \<Rightarrow> state_table \<Rightarrow> state_table" where
  "node_state_run room = fold (\<lambda>(e, raw, now, act) ts. (case state_put ts room e raw now act of None \<Rightarrow> ts | Some t \<Rightarrow> t))"

definition worker_state_run :: "state_frame list \<Rightarrow> state_storage \<Rightarrow> state_storage" where
  "worker_state_run = fold (\<lambda>(e, raw, now, act) s. (case worker_state_put s e raw now act of None \<Rightarrow> s | Some t \<Rightarrow> t))"

definition empty_state_storage :: state_storage where
  "empty_state_storage = \<lparr>st_index = [], st_meta = Map.empty, st_parts = Map.empty\<rparr>"


text \<open>whatever frames are offered, the cache of a room holds at most 512 slots, 16 MiB and
  1.8 MB in one frame, one row per recipient and slot; and a phone is replayed only unexpired frames
  of its own key.\<close>

theorem retained_bounds:
  assumes "rows = fold policy_step fs []"
  shows "length rows \<le> 512 \<and> sum_list (map (\<lambda>r. length (sr_raw r)) rows) \<le> 16777216
    \<and> (\<forall>r \<in> set rows. length (sr_raw r) \<le> 1800000)
    \<and> distinct (map (\<lambda>r. (sr_recipient r, sr_key r)) rows)
    \<and> (\<forall>r \<in> set (replayState rows recipient now). recipient = Some (sr_recipient r) \<and> now < sr_expires r)"
proof -
  have "rows_ok []" by (simp add: rows_ok_def state_fits_def state_bytes_def)
  then have ok: "rows_ok rows" using assms policy_run_ok by blast
  then have "sum_list (map (\<lambda>r. length (sr_raw r)) rows) = sum_list (map sr_bytes rows)"
    by (intro arg_cong [of _ _ sum_list]) (auto simp: rows_ok_def)
  moreover have "slot_of = (\<lambda>r. (sr_recipient r, sr_key r))" by (simp add: fun_eq_iff slot_of_def)
  moreover have "\<forall>r \<in> set (replayState rows recipient now). recipient = Some (sr_recipient r) \<and> now < sr_expires r"
    by (auto simp: replayState_def split: option.splits if_splits)
  ultimately show ?thesis using ok unfolding rows_ok_def state_fits_def state_bytes_def relay_limits by auto
qed

text \<open>A row of a slot is only replaced by a newer revision.\<close>

lemma retained_revision_grows:
  assumes "distinct (map slot_of rows)" "retainState rows e raw now act = Some rows'"
    and "r \<in> set (live_rows now rows)" "r' \<in> set rows'" "slot_of r' = slot_of r"
  shows "r' = r \<or> sr_revision r < sr_revision r'"
  using assms(2,1)
proof (cases rule: retain_state_cases)
  case unchanged
  then show ?thesis using assms by (auto simp: live_rows_def distinct_map inj_on_def)
next
  case (accepted row)
  then have "r' \<in> set (with_row now rows row)" using evicted_rows [OF accepted(6,7)] assms(4) by auto
  then show ?thesis using accepted(5) assms(1,3,5)
    by (auto simp: with_row_def live_rows_def distinct_map inj_on_def)
qed

text \<open>C17: eviction respects groups and their rank. When a frame is taken in and rows are evicted
  for it, the rows did not fit; a group is evicted as a whole; catalogs (priority one) go only when
  nothing else is left; and among groups of the same kind those of recipients seen longer ago go
  first.\<close>

theorem retained_eviction:
  assumes "distinct (map slot_of rows)" "retainState rows e raw now act = Some rows'"
    and "rows' \<noteq> live_rows now rows" "offered = with_row now rows (state_row_of e raw now)"
    and "r \<in> set offered" "r \<notin> set rows'" "r' \<in> set rows'"
    and "jm_get (grouped (recently_seen act now) offered) (group_id r) = Some g"
    and "jm_get (grouped (recently_seen act now) offered) (group_id r') = Some g'"
  shows "\<not> state_fits offered \<and> group_id r \<noteq> group_id r' \<and> essential g \<le> essential g'
    \<and> (essential g = essential g' \<longrightarrow> sg_seen g \<le> sg_seen g')"
  using assms(2,1)
proof (cases rule: retain_state_cases)
  case unchanged
  then show ?thesis using assms(3) by simp
next
  case (accepted row)
  let ?gs = "evictionGroups offered act now"
  have row: "offered = with_row now rows row" using accepted(1) assms(4) by simp
  from evicted_rows [OF accepted(6,7)] obtain pre post where e: "?gs = pre @ post"
    "rows' = filter (\<lambda>x. \<exists>g \<in> set post. x \<in> set (sg_rows g)) offered" "state_fits offered \<longrightarrow> pre = []"
    unfolding row by auto
  have gs: "groups_of offered ?gs"
    using evictionGroups_groups [of offered] accepted(6) by (simp add: row distinct_map)
  have g: "g \<in> set ?gs" "r \<in> set (sg_rows g)" and g': "g' \<in> set ?gs" "r' \<in> set (sg_rows g')"
    using assms(5-9) e(2) grouped_get [OF assms(8)] grouped_get [OF assms(9)]
    by (auto simp: evictionGroups_def jm_get_def dest!: map_of_SomeD intro: rev_image_eqI)
  have "g \<notin> set post" using e(2) g(2) assms(5,6) by auto
  then have pre: "g \<in> set pre" using e(1) g(1) by auto
  obtain h where h: "h \<in> set post" "r' \<in> set (sg_rows h)" using e(2) assms(7) by auto
  have apart: "\<forall>x \<in> set pre. \<forall>y \<in> set post. set (sg_rows x) \<inter> set (sg_rows y) = {}"
    using gs e(1) by (simp add: groups_of_def sorted_wrt_append)
  have "g' \<notin> set pre" using apart h g'(2) by blast
  then have post: "g' \<in> set post" using e(1) g'(1) by auto
  have "g \<noteq> g'" using apart pre post g(2) by blast
  then have "group_id r \<noteq> group_id r'" using assms(8,9) by auto
  moreover have "?gs = sort_key essential (sort_key sg_seen (sort_key (\<lambda>g. - sg_priority g) (sort_key sg_savedAt
       (map snd (grouped (recently_seen act now) offered)))))" by (simp add: evictionGroups_def)
  ultimately show ?thesis using two_key_order [OF _ e(1) pre post] e(3) pre by auto
qed

section \<open>Witnesses\<close>

definition sample_state_frame :: state_frame where
  "sample_state_frame = (sample_state_envelope, ''frame'', 1000, [])"

definition old_state_row :: state_row where
  "old_state_row = \<lparr>sr_recipient = replicate 64 CHR ''c'', sr_key = replicate 64 CHR ''d'', sr_revision = 1,
     sr_priority = 3, sr_group = Some (replicate 64 CHR ''e''), sr_expires = 5000, sr_savedAt = 10,
     sr_bytes = 16777216, sr_raw = []\<rparr>"


theorem retained_bounds_witness: "length (fold policy_step [sample_state_frame] []) \<le> 512"
  using retained_bounds [OF refl, of "[sample_state_frame]"] by blast

definition new_state_row :: state_row where
  "new_state_row = state_row_of sample_state_envelope ''frame'' 1000"

lemma sample_recipients: "hd (sr_recipient old_state_row) = CHR ''c''" "hd (sr_recipient new_state_row) = CHR ''a''"
  "sr_recipient old_state_row \<noteq> []" "sr_recipient new_state_row \<noteq> []"
  by (simp_all add: old_state_row_def new_state_row_def state_row_of_def sample_state_envelope_def sample_envelope_def)

lemma group_ids_differ: "group_id old_state_row \<noteq> group_id new_state_row"
proof
  assume "group_id old_state_row = group_id new_state_row"
  then have "hd (group_id old_state_row) = hd (group_id new_state_row)" by simp
  then show False by (simp add: group_id_def sample_recipients)
qed

lemma slots_differ: "slot_of old_state_row \<noteq> slot_of new_state_row" "slot_of new_state_row \<noteq> slot_of old_state_row"
proof -
  have "sr_recipient old_state_row \<noteq> sr_recipient new_state_row"
  proof
    assume "sr_recipient old_state_row = sr_recipient new_state_row"
    then have "CHR ''c'' = CHR ''a''" using sample_recipients(1,2) by simp
    then show False by simp
  qed
  then show "slot_of old_state_row \<noteq> slot_of new_state_row" "slot_of new_state_row \<noteq> slot_of old_state_row"
    by (auto simp: slot_of_def)
qed

lemma rows_differ: "new_state_row \<noteq> old_state_row" "old_state_row \<noteq> new_state_row"
  using slots_differ by auto

lemma state_row_values:
  "sr_priority old_state_row = 3" "sr_priority new_state_row = 1" "sr_expires old_state_row = 5000"
  "sr_bytes old_state_row = 16777216" "sr_bytes new_state_row = 5" "sr_group old_state_row \<noteq> None"
  by (simp_all add: old_state_row_def new_state_row_def state_row_of_def sample_state_envelope_def
      sample_envelope_def byteLength_def)

lemma sample_groups:
  "grouped [] [old_state_row, new_state_row] = [(group_id old_state_row, joined_group [] old_state_row None),
     (group_id new_state_row, joined_group [] new_state_row None)]"
  using group_ids_differ by (simp add: grouped_def jm_get_def)

lemma sample_ranks:
  "essential (joined_group [] old_state_row None) = 0" "essential (joined_group [] new_state_row None) = 1"
  "sg_rows (joined_group [] row None) = [row]"
  by (simp_all add: joined_group_def essential_def bodies_of_def state_row_values Let_def)

lemma sample_with_row: "with_row 1000 [old_state_row] new_state_row = [old_state_row, new_state_row]"
  by (simp add: with_row_def live_rows_def slots_differ state_row_values)

lemma sample_eviction_order:
  "evictionGroups [old_state_row, new_state_row] [] 1000
     = [joined_group [] old_state_row None, joined_group [] new_state_row None]"
  by (auto simp: evictionGroups_def recently_seen_def sample_groups sample_ranks insort_key.simps)

lemma sample_retained:
  "retainState [old_state_row] sample_state_envelope ''frame'' 1000 [] = Some [new_state_row]"
proof -
  have "truthy (field ''stateKey'' sample_state_envelope)" "validRetainedState sample_state_envelope 1000 = Some True"
    "cacheable sample_state_envelope ''frame'' 1000" "string_slots sample_state_envelope"
    by (simp_all add: sample_state_envelope_def sample_eval is_hex64_def retained_numbers_ok_def or_empty_def
        js_and_def relay_limits max_safe_integer_def cacheable_def string_slots_def byteLength_def)
  moreover have "replaced [old_state_row] new_state_row = Some [old_state_row, new_state_row]"
    by (simp add: replaced_def slots_differ)
  moreover have "evict_loop (evictionGroups [old_state_row, new_state_row] [] 1000) [old_state_row, new_state_row]
      (state_bytes [old_state_row, new_state_row]) = [new_state_row]"
    by (simp add: sample_eviction_order sample_ranks state_bytes_def state_row_values relay_limits rows_differ)
  ultimately show ?thesis
    by (simp add: retainState_def state_row_values new_state_row_def [symmetric])
qed

theorem retained_eviction_witness:
  "\<not> state_fits [old_state_row, new_state_row] \<and> group_id old_state_row \<noteq> group_id new_state_row
    \<and> essential (joined_group [] old_state_row None) \<le> essential (joined_group [] new_state_row None)"
proof -
  have g: "jm_get (grouped (recently_seen [] 1000) [old_state_row, new_state_row]) (group_id old_state_row)
      = Some (joined_group [] old_state_row None)"
    "jm_get (grouped (recently_seen [] 1000) [old_state_row, new_state_row]) (group_id new_state_row)
      = Some (joined_group [] new_state_row None)"
    using group_ids_differ by (simp_all add: recently_seen_def sample_groups jm_get_def)
  have off: "[old_state_row, new_state_row] = with_row 1000 [old_state_row] (state_row_of sample_state_envelope ''frame'' 1000)"
    using sample_with_row by (simp add: new_state_row_def)
  have live: "[new_state_row] \<noteq> live_rows 1000 [old_state_row]"
    by (simp add: live_rows_def state_row_values rows_differ)
  from retained_eviction [OF _ sample_retained live off _ _ _ g] show ?thesis by (simp add: rows_differ)
qed

end
