(* ===== verification/Room_Access.thy ===== *)
theory Room_Access
  imports Delivery_Queue
begin

text \<open>
  Who may use a room: the first valid credential presented for pinning owns it, and only its
  holder is admitted afterwards. \<open>authorize\<close>, \<open>authorizeUpgrade\<close> and \<open>equalDigest\<close> of the Node relay
  (\<open>src/node/server.js\<close>) over the \<open>rooms\<close> table, \<open>requireRoomAuth\<close> of the Durable Object
  (\<open>src/relay/room.js\<close>) over its \<open>push:auth-sha256\<close> key. The locale \<open>room_gate\<close> states the contract;
  both runtimes are interpretations and so both answer like the abstract gate \<open>gate_answer\<close>.

  \<open>sha\<close> stands for the hexadecimal SHA-256 digest; \<open>hex_digest\<close> is what the code relies on of it.
\<close>

definition hex_digest :: "(string \<Rightarrow> string) \<Rightarrow> bool" where
  "hex_digest sha \<longleftrightarrow> (\<forall>s. is_hex64 (sha s))"

section \<open>The Node relay\<close>

text \<open>\<open>Buffer.from(s, 'hex')\<close>: bytes of digit pairs, up to the first pair that is none.\<close>

definition hex_value :: "char \<Rightarrow> nat option" where
  "hex_value c = (let n = (of_char c :: nat) in
     if 48 \<le> n \<and> n \<le> 57 then Some (n - 48)
     else if 97 \<le> n \<and> n \<le> 102 then Some (n - 87)
     else if 65 \<le> n \<and> n \<le> 70 then Some (n - 55) else None)"

fun hex_bytes :: "string \<Rightarrow> nat list" where
  "hex_bytes (a # b # s) = (case (hex_value a, hex_value b) of
       (Some x, Some y) \<Rightarrow> (16 * x + y) # hex_bytes s
     | _ \<Rightarrow> [])"
| "hex_bytes _ = []"

definition equalDigest :: "string \<Rightarrow> string \<Rightarrow> bool" where
  "equalDigest supplied expected \<longleftrightarrow>
     (let left = hex_bytes supplied; right = hex_bytes expected in length left = length right \<and> left = right)"

definition authorize ::
  "(string \<Rightarrow> string) \<Rightarrow> rooms \<Rightarrow> string \<Rightarrow> string \<Rightarrow> bool \<Rightarrow> time \<Rightarrow> bool \<times> rooms" where
  "authorize sha rooms room credential pin now =
     (if \<not> validRoomCredential (JStr credential) then (False, rooms)
      else let digest = sha credential in
        (case authDigest rooms room of
           Some current \<Rightarrow> (equalDigest digest current, rooms)
         | None \<Rightarrow> if \<not> pin then (False, rooms)
             else (case pinAuth rooms room digest now of (expected, rooms1) \<Rightarrow>
               (case expected of None \<Rightarrow> False | Some e \<Rightarrow> equalDigest digest e, rooms1))))"

text \<open>The check before an upgrade is accepted; it never pins.\<close>

definition authorizeUpgrade :: "(string \<Rightarrow> string) \<Rightarrow> rooms \<Rightarrow> string \<Rightarrow> string \<Rightarrow> bool" where
  "authorizeUpgrade sha rooms room credential \<longleftrightarrow> validRoomCredential (JStr credential)
     \<and> (case authDigest rooms room of None \<Rightarrow> True | Some current \<Rightarrow> equalDigest (sha credential) current)"

section \<open>The Durable Object\<close>

text \<open>The refusal, if any, and the stored digest.\<close>

definition requireRoomAuth ::
  "(string \<Rightarrow> string) \<Rightarrow> string option \<Rightarrow> string \<Rightarrow> response option \<times> string option" where
  "requireRoomAuth sha stored auth =
     (if \<not> validRoomCredential (JStr auth) then (Some (json (error_body ''room credential required'') 401), stored)
      else let digest = sha auth in
        (case stored of
           None \<Rightarrow> (None, Some digest)
         | Some expected \<Rightarrow>
             if \<not> constantTimeEqual (JStr digest) (JStr expected)
             then (Some (json (error_body ''invalid room credential'') 401), stored)
             else (None, stored)))"

text \<open>The \<open>authorize\<close> callback of \<open>handleEndpoint\<close>; with \<open>pin\<close> false it is also that of the task
  dispatch and of the task activities.\<close>

definition worker_authorize ::
  "(string \<Rightarrow> string) \<Rightarrow> string option \<Rightarrow> string \<Rightarrow> bool \<Rightarrow> bool \<times> string option" where
  "worker_authorize sha stored auth pin =
     (if \<not> pin \<and> stored = None then (False, stored)
      else (case requireRoomAuth sha stored auth of (refusal, stored1) \<Rightarrow> (refusal = None, stored1)))"

section \<open>The gate\<close>

text \<open>What a gate answers when the digest of the owner is \<open>owner\<close>, and the owner afterwards.\<close>

definition gate_answer :: "(string \<Rightarrow> string) \<Rightarrow> string option \<Rightarrow> string \<Rightarrow> bool \<Rightarrow> bool" where
  "gate_answer sha owner credential pin \<longleftrightarrow> is_hex64 credential
     \<and> (case owner of None \<Rightarrow> pin | Some d \<Rightarrow> sha credential = d)"

definition gate_owner :: "(string \<Rightarrow> string) \<Rightarrow> string option \<Rightarrow> string \<Rightarrow> bool \<Rightarrow> string option" where
  "gate_owner sha owner credential pin = (case owner of
       Some d \<Rightarrow> Some d
     | None \<Rightarrow> if pin \<and> is_hex64 credential then Some (sha credential) else None)"

fun gate_run :: "(string \<Rightarrow> string) \<Rightarrow> (string \<times> bool) list \<Rightarrow> string option \<Rightarrow> bool list" where
  "gate_run sha [] owner = []"
| "gate_run sha ((c, pin) # cs) owner = gate_answer sha owner c pin # gate_run sha cs (gate_owner sha owner c pin)"

locale room_gate =
  fixes sha :: "string \<Rightarrow> string"
    and auth :: "'s \<Rightarrow> string \<Rightarrow> bool \<Rightarrow> bool \<times> 's"
    and owner :: "'s \<Rightarrow> string option"
    and ok :: "'s \<Rightarrow> bool"
  assumes auth_answer: "hex_digest sha \<Longrightarrow> ok s \<Longrightarrow> fst (auth s c pin) = gate_answer sha (owner s) c pin"
    and auth_owner: "hex_digest sha \<Longrightarrow> ok s \<Longrightarrow> owner (snd (auth s c pin)) = gate_owner sha (owner s) c pin"
    and auth_ok: "hex_digest sha \<Longrightarrow> ok s \<Longrightarrow> ok (snd (auth s c pin))"
begin

fun answers :: "(string \<times> bool) list \<Rightarrow> 's \<Rightarrow> bool list" where
  "answers [] s = []"
| "answers ((c, pin) # cs) s = fst (auth s c pin) # answers cs (snd (auth s c pin))"

lemma answers_gate: "hex_digest sha \<Longrightarrow> ok s \<Longrightarrow> answers cs s = gate_run sha cs (owner s)"
  by (induction cs arbitrary: s rule: list.induct) (auto simp: auth_answer auth_owner auth_ok)

end

text \<open>Once a room has an owner, exactly the credentials with its digest are admitted.\<close>

lemma gate_run_owned:
  "gate_run sha cs (Some d) = map (\<lambda>(c, pin). is_hex64 c \<and> sha c = d) cs"
  by (induction cs) (auto simp: gate_answer_def gate_owner_def)

section \<open>Digests\<close>

lemma hex_value_digit: "hex_char c \<Longrightarrow> \<exists>x < 16. hex_value c = Some x"
  by (auto simp: hex_char_def char_between_def hex_value_def Let_def)

lemma hex_value_inj:
  assumes "hex_char a" "hex_char b" "hex_value a = hex_value b"
  shows "a = b"
proof -
  define m n where "m = (of_char a :: nat)" and "n = (of_char b :: nat)"
  have "m = n"
    using assms unfolding hex_char_def char_between_def hex_value_def Let_def m_def [symmetric] n_def [symmetric]
    by (auto split: if_splits)
  then show ?thesis by (simp add: m_def n_def)
qed

lemma hex_bytes_inj:
  assumes "list_all hex_char s" "list_all hex_char t" "length s = length t" "even (length s)"
    and "hex_bytes s = hex_bytes t"
  shows "s = t"
  using assms
proof (induction s arbitrary: t rule: hex_bytes.induct)
  case (1 a b s)
  then obtain c d t' where t: "t = c # d # t'" by (cases t rule: hex_bytes.cases) auto
  have hex: "hex_char a" "hex_char b" "hex_char c" "hex_char d" using 1(2,3) t by simp_all
  obtain x y where xy: "hex_value a = Some x" "hex_value b = Some y" "x < 16" "y < 16"
    using hex_value_digit [OF hex(1)] hex_value_digit [OF hex(2)] by blast
  obtain u v where uv: "hex_value c = Some u" "hex_value d = Some v" "u < 16" "v < 16"
    using hex_value_digit [OF hex(3)] hex_value_digit [OF hex(4)] by blast
  have eq: "16 * x + y = 16 * u + v" "hex_bytes s = hex_bytes t'" using 1(6) t xy uv by simp_all
  have "x = u" using eq(1) xy(4) uv(4) by (cases x u rule: linorder_cases) linarith+
  then have "y = v" using eq(1) by simp
  with \<open>x = u\<close> have "a = c" "b = d" using hex_value_inj [OF hex(1,3)] hex_value_inj [OF hex(2,4)] xy uv by simp_all
  moreover have "s = t'" using 1(1) [OF refl xy(1,2), of t'] 1(2-5) eq(2) t by simp
  ultimately show ?case using t by simp
qed auto

lemma equalDigest_iff:
  assumes "is_hex64 a" "is_hex64 b"
  shows "equalDigest a b \<longleftrightarrow> a = b"
proof -
  have "list_all hex_char a" "list_all hex_char b" "length a = length b" "length a = 64"
    using assms by (simp_all add: is_hex64_def class_repeat_def)
  from hex_bytes_inj [OF this(1-3)] this(4) show ?thesis unfolding equalDigest_def Let_def by auto
qed

lemma hex64_ascii: "is_hex64 s \<Longrightarrow> ascii_string s"
  by (auto simp: is_hex64_def class_repeat_def ascii_string_def hex_char_def char_between_def list_all_iff)

lemma code_units_hex: "is_hex64 a \<Longrightarrow> is_hex64 b \<Longrightarrow> code_units a = code_units b \<longleftrightarrow> a = b"
  using constantTimeEqual_ascii [of a b] by (simp add: hex64_ascii constantTimeEqual_units_iff)

section \<open>Both runtimes are gates\<close>

text \<open>Digests stored in the table are digests.\<close>

definition auth_ok :: "rooms \<Rightarrow> string \<Rightarrow> bool" where
  "auth_ok rooms room \<longleftrightarrow> (case authDigest rooms room of None \<Rightarrow> True | Some d \<Rightarrow> is_hex64 d)"

lemma pinAuth_fresh:
  assumes "authDigest rooms room = None"
  shows "fst (pinAuth rooms room digest now) = Some digest"
    "authDigest (snd (pinAuth rooms room digest now)) room = Some digest"
  using assms
  by (auto simp: pinAuth_def authDigest_def ensureRoom_def new_room_def Let_def bind_eq_None_conv split: option.splits)

interpretation node_gate: room_gate sha "\<lambda>rooms c pin. authorize sha rooms room c pin now" "\<lambda>rooms. authDigest rooms room"
    "\<lambda>rooms. auth_ok rooms room"
  for sha room now
  by unfold_locales
    (auto simp: authorize_def gate_answer_def gate_owner_def auth_ok_def hex_digest_def equalDigest_iff pinAuth_fresh Let_def
      case_prod_beta split: option.splits)

interpretation worker_gate: room_gate sha "worker_authorize sha" "\<lambda>stored. stored"
    "\<lambda>stored. case stored of None \<Rightarrow> True | Some d \<Rightarrow> is_hex64 d"
  for sha
  by unfold_locales
    (auto simp: worker_authorize_def requireRoomAuth_def gate_answer_def gate_owner_def hex_digest_def Let_def
      constantTimeEqual_units_iff code_units_hex case_prod_beta split: option.splits)

section \<open>Properties\<close>

fun node_access :: "(string \<Rightarrow> string) \<Rightarrow> string \<Rightarrow> time \<Rightarrow> (string \<times> bool) list \<Rightarrow> rooms \<Rightarrow> bool list" where
  "node_access sha room now [] rooms = []"
| "node_access sha room now ((c, pin) # cs) rooms =
     (case authorize sha rooms room c pin now of (b, rooms1) \<Rightarrow> b # node_access sha room now cs rooms1)"

fun worker_access :: "(string \<Rightarrow> string) \<Rightarrow> (string \<times> bool) list \<Rightarrow> string option \<Rightarrow> bool list" where
  "worker_access sha [] stored = []"
| "worker_access sha ((c, pin) # cs) stored =
     (case worker_authorize sha stored c pin of (b, stored1) \<Rightarrow> b # worker_access sha cs stored1)"

lemma node_access_answers: "node_access sha room now cs rooms = node_gate.answers sha room now cs rooms"
  by (induction cs arbitrary: rooms rule: list.induct) (auto split: prod.splits)

lemma worker_access_answers: "worker_access sha cs stored = worker_gate.answers sha cs stored"
  by (induction cs arbitrary: stored rule: list.induct) (auto split: prod.splits)

text \<open>C5: a room belongs to the first credential that pins it. For any sequence of attempts on a
  new room, both runtimes give the answers of the abstract gate: nobody is admitted before the
  first pinning attempt with a well-formed credential, that one is, and from then on exactly the
  attempts with the same digest are; the check before an upgrade agrees and changes nothing.\<close>

theorem room_ownership:
  assumes "hex_digest sha" "rooms room = None"
    and "\<forall>(c, pin) \<in> set before. \<not> (pin \<and> is_hex64 c)" "is_hex64 owner"
  shows "node_access sha room now (before @ (owner, True) # cs) rooms
      = map (\<lambda>_. False) before @ True # map (\<lambda>(c, pin). is_hex64 c \<and> sha c = sha owner) cs
    \<and> worker_access sha (before @ (owner, True) # cs) None
      = node_access sha room now (before @ (owner, True) # cs) rooms
    \<and> authorizeUpgrade sha (snd (authorize sha rooms room owner True now)) room c
      = (is_hex64 c \<and> sha c = sha owner)"
proof -
  have none: "authDigest rooms room = None" using assms(2) by (simp add: authDigest_def)
  then have ok: "auth_ok rooms room" by (simp add: auth_ok_def)
  have run: "gate_run sha (before @ (owner, True) # cs) None
      = map (\<lambda>_. False) before @ True # map (\<lambda>(c, pin). is_hex64 c \<and> sha c = sha owner) cs"
    using assms(3)
  proof (induction before)
    case Nil
    then show ?case using assms(4) by (simp add: gate_answer_def gate_owner_def gate_run_owned)
  next
    case (Cons x xs)
    then show ?case by (cases x) (auto simp: gate_answer_def gate_owner_def)
  qed
  have "authDigest (snd (authorize sha rooms room owner True now)) room = Some (sha owner)"
    using none assms(4) pinAuth_fresh(2) [OF none] by (simp add: authorize_def Let_def case_prod_beta)
  then have "authorizeUpgrade sha (snd (authorize sha rooms room owner True now)) room c
      = (is_hex64 c \<and> sha c = sha owner)"
    using assms(1) by (auto simp: authorizeUpgrade_def hex_digest_def equalDigest_iff)
  then show ?thesis
    using run node_gate.answers_gate [OF assms(1) ok] worker_gate.answers_gate [OF assms(1), of None] none
    by (simp add: node_access_answers worker_access_answers)
qed

text \<open>With a digest that tells two credentials apart.\<close>

theorem room_ownership_witness:
  "node_access (\<lambda>s. replicate 63 CHR ''0'' @ (if hd s = CHR ''a'' then ''1'' else ''2'')) ''room'' 5
     [(replicate 64 CHR ''b'', False), (replicate 64 CHR ''a'', True), (replicate 64 CHR ''b'', True)] Map.empty
   = [False, True, False]"
proof -
  let ?sha = "\<lambda>s. replicate 63 CHR ''0'' @ (if hd s = CHR ''a'' then ''1'' else ''2'')"
  have d: "hex_digest ?sha"
    by (auto simp: hex_digest_def is_hex64_def class_repeat_def hex_char_def char_between_def)
  have a: "is_hex64 (replicate 64 CHR ''a'')" by (simp add: is_hex64_def)
  from room_ownership [OF d, of Map.empty "''room''" "[(replicate 64 CHR ''b'', False)]", OF _ _ a,
      of 5 "[(replicate 64 CHR ''b'', True)]"]
  show ?thesis by (simp add: numeral_eq_Suc)
qed

end
