(* ===== verification/Push_Devices.thy ===== *)
theory Push_Devices
  imports Room_Access
begin

text \<open>
  Push tokens of a room: the configuration test of \<open>src/relay/apnsWake.js\<close>, the token columns of
  the Node store (\<open>src/node/store.js\<close>), registration in both runtimes
  (\<open>src/node/pushDelivery/registration.js\<close>, \<open>handlePushRegistration\<close> and \<open>handlePushStatus\<close> of
  \<open>src/relay/room.js\<close>) and the wake push to all devices of a room (\<open>src/node/pushDelivery/wake.js\<close>,
  \<open>GrantTapRoom.sendWakePush\<close>). What Apple answers for a device is a parameter. Shows: only the
  owner of a room changes its devices, a token is held once and at most eight are held, both
  runtimes answer a well-formed registration alike, and a wake push drops exactly the stale tokens.
\<close>

definition PUSH_TOKEN_LIMIT :: nat where "PUSH_TOKEN_LIMIT = 8"
definition MAX_PUSH_BODY_BYTES :: nat where "MAX_PUSH_BODY_BYTES = 4096"

section \<open>Configuration\<close>

type_synonym env = "string \<rightharpoonup> string"

definition configured_value :: "env \<Rightarrow> string \<Rightarrow> bool" where
  "configured_value env name \<longleftrightarrow> (case env name of None \<Rightarrow> False | Some v \<Rightarrow> v \<noteq> [])"

definition apnsEnvironment :: "env \<Rightarrow> string \<Rightarrow> env option" where
  "apnsEnvironment env environment =
     (if environment = ''sandbox'' \<and> configured_value env ''APNS_SANDBOX_KEY_ID'' then
        Some (env(''APNS_TEAM_ID'' := (case env ''APNS_SANDBOX_TEAM_ID'' of None \<Rightarrow> env ''APNS_TEAM_ID'' | Some v \<Rightarrow> Some v),
                  ''APNS_KEY_ID'' := env ''APNS_SANDBOX_KEY_ID'',
                  ''APNS_PRIVATE_KEY'' := env ''APNS_SANDBOX_PRIVATE_KEY''))
      else if configured_value env ''APNS_KEY_ENVIRONMENT'' \<and> env ''APNS_KEY_ENVIRONMENT'' \<noteq> Some environment then None
      else Some env)"

definition apns_ready :: "env \<Rightarrow> string \<Rightarrow> bool" where
  "apns_ready env environment \<longleftrightarrow> (case apnsEnvironment env environment of None \<Rightarrow> False
     | Some selected \<Rightarrow> configured_value selected ''APNS_TEAM_ID'' \<and> configured_value selected ''APNS_KEY_ID''
         \<and> configured_value selected ''APNS_PRIVATE_KEY'')"

definition apnsConfigured :: "env \<Rightarrow> string option \<Rightarrow> bool" where
  "apnsConfigured env environment = (case environment of
       None \<Rightarrow> apns_ready env ''production'' \<or> apns_ready env ''sandbox''
     | Some e \<Rightarrow> if e = [] then apns_ready env ''production'' \<or> apns_ready env ''sandbox'' else apns_ready env e)"

section \<open>The token columns of the Node store\<close>

definition pushTokens :: "rooms \<Rightarrow> string \<Rightarrow> push_device list" where
  "pushTokens rooms room = (case rooms room of None \<Rightarrow> [] | Some r \<Rightarrow> push_tokens r)"

definition write_tokens :: "rooms \<Rightarrow> string \<Rightarrow> push_device list \<Rightarrow> time \<Rightarrow> rooms" where
  "write_tokens rooms room tokens now = (case rooms room of None \<Rightarrow> rooms
     | Some r \<Rightarrow> rooms(room \<mapsto> r\<lparr>push_tokens := tokens, updated_at := now\<rparr>))"

definition updatePushToken ::
  "rooms \<Rightarrow> string \<Rightarrow> string \<Rightarrow> string \<Rightarrow> string \<Rightarrow> bool \<Rightarrow> time \<Rightarrow> push_device list \<times> rooms" where
  "updatePushToken rooms room token environment bundleId remove now =
     (let kept = filter (\<lambda>d. d_token d \<noteq> token) (pushTokens rooms room);
          tokens = (if remove then kept else kept @ [\<lparr>d_token = token, d_environment = environment,
                      d_bundleId = bundleId, d_updatedAt = now\<rparr>]);
          tokens1 = (if length tokens > PUSH_TOKEN_LIMIT then slice_last PUSH_TOKEN_LIMIT tokens else tokens)
      in (tokens1, write_tokens rooms room tokens1 now))"

definition removePushTokens :: "rooms \<Rightarrow> string \<Rightarrow> string list \<Rightarrow> time \<Rightarrow> rooms" where
  "removePushTokens rooms room stale now =
     write_tokens rooms room (filter (\<lambda>d. d_token d \<notin> set stale) (pushTokens rooms room)) now"

section \<open>Registration with the Node relay\<close>

definition devices_body :: "bool \<Rightarrow> bool \<Rightarrow> nat \<Rightarrow> js" where
  "devices_body registered enabled devices = JObj [(''ok'', JBool True), (''registered'', JBool registered),
     (''enabled'', JBool enabled), (''devices'', JInt (int devices))]"

definition status_body :: "bool \<Rightarrow> nat \<Rightarrow> js" where
  "status_body enabled devices = JObj [(''enabled'', JBool enabled), (''devices'', JInt (int devices))]"

definition BUNDLE_ID :: string where "BUNDLE_ID = ''com.ziborov.granttap''"

text \<open>\<open>String(body?.token ?? "").toLowerCase()\<close>; \<open>None\<close> when the conversion throws.\<close>

definition body_token :: "js \<Rightarrow> string option" where
  "body_token v = (let t = or_empty (field ''token'' v) in
     if to_string_throws t then None else Some (map to_lower (proof_text t)))"

text \<open>\<open>handlePushRegistration\<close>; \<open>None\<close> when it throws, which the server answers with status 500.\<close>

definition node_push_registration ::
  "(string \<Rightarrow> js option) \<Rightarrow> (string \<Rightarrow> string) \<Rightarrow> env \<Rightarrow> request \<Rightarrow> time \<Rightarrow> rooms \<Rightarrow> (response \<times> rooms) option" where
  "node_push_registration parse sha env request now rooms =
     (case map_of (r_query request) ''room'' of
        None \<Rightarrow> Some (json (error_body ''valid room query parameter required'') 400, rooms)
      | Some room \<Rightarrow>
        if \<not> validRoom (JStr room) then Some (json (error_body ''valid room query parameter required'') 400, rooms)
        else (case authorize sha rooms room (bearer (map_of (r_headers request) ''authorization''))
                (r_path request = ''/push/register'') now of (admitted, rooms1) \<Rightarrow>
          if \<not> admitted then Some (json (error_body ''invalid room credential'') 401, rooms1)
          else if r_path request = ''/push/status'' then
            Some (if r_method request \<noteq> ''GET'' then json (error_body ''method not allowed'') 405
                  else json (status_body (apnsConfigured env None) (length (pushTokens rooms1 room))) 200, rooms1)
          else if r_method request \<notin> {''PUT'', ''POST'', ''DELETE''} then
            Some (json (error_body ''method not allowed'') 405, rooms1)
          else let v = node_read_request parse request MAX_PUSH_BODY_BYTES in
            (case body_token v of
               None \<Rightarrow> None
             | Some token \<Rightarrow>
                 if \<not> validDeviceToken token then Some (json (error_body ''valid APNs token required'') 400, rooms1)
                 else if field ''environment'' v \<notin> {JStr ''sandbox'', JStr ''production''} then
                   Some (json (error_body ''environment must be sandbox or production'') 400, rooms1)
                 else if field ''bundleId'' v \<noteq> JStr BUNDLE_ID then
                   Some (json (error_body ''unexpected bundle id'') 400, rooms1)
                 else let environment = str_of (field ''environment'' v); remove = (r_method request = ''DELETE'') in
                   (case updatePushToken rooms1 room token environment BUNDLE_ID remove now of (tokens, rooms2) \<Rightarrow>
                     Some (json (devices_body (\<not> remove) (apnsConfigured env (Some environment)) (length tokens)) 200,
                           rooms2)))))"

section \<open>Registration with the Durable Object\<close>

text \<open>The keys \<open>push:auth-sha256\<close> and \<open>push:tokens\<close> of its storage.\<close>

record push_storage =
  ps_auth :: "string option"
  ps_tokens :: "push_device list"

definition worker_push_registration ::
  "(string \<Rightarrow> js option) \<Rightarrow> (string \<Rightarrow> string) \<Rightarrow> env \<Rightarrow> request \<Rightarrow> time \<Rightarrow> push_storage
     \<Rightarrow> (response \<times> push_storage) option" where
  "worker_push_registration parse sha env request now s =
     (case requireRoomAuth sha (ps_auth s) (bearer (map_of (r_headers request) ''authorization'')) of
        (Some refusal, auth1) \<Rightarrow> Some (refusal, s\<lparr>ps_auth := auth1\<rparr>)
      | (None, auth1) \<Rightarrow> let s1 = s\<lparr>ps_auth := auth1\<rparr> in
          (case read_request parse request MAX_PUSH_BODY_BYTES of
             Inl _ \<Rightarrow> Some (json (error_body ''bounded JSON body required'') 400, s1)
           | Inr v \<Rightarrow> (case body_token v of
               None \<Rightarrow> None
             | Some token \<Rightarrow>
                 if \<not> validDeviceToken token then Some (json (error_body ''valid APNs token required'') 400, s1)
                 else if field ''environment'' v \<noteq> JStr ''sandbox'' \<and> field ''environment'' v \<noteq> JStr ''production'' then
                   Some (json (error_body ''environment must be sandbox or production'') 400, s1)
                 else if to_string_throws (or_empty (field ''bundleId'' v)) then None
                 else if proof_text (or_empty (field ''bundleId'' v)) \<noteq> BUNDLE_ID then
                   Some (json (error_body ''unexpected bundle id'') 400, s1)
                 else let environment = str_of (field ''environment'' v);
                          kept = filter (\<lambda>d. d_token d \<noteq> token) (ps_tokens s1);
                          added = kept @ [\<lparr>d_token = token, d_environment = environment, d_bundleId = BUNDLE_ID,
                            d_updatedAt = now\<rparr>];
                          answer = (\<lambda>tokens. Some (json (devices_body (r_method request \<noteq> ''DELETE'')
                            (apnsConfigured env (Some environment)) (length tokens)) 200, s1\<lparr>ps_tokens := tokens\<rparr>))
                   in if r_method request = ''DELETE'' then answer kept
                      else if r_method request = ''PUT'' \<or> r_method request = ''POST'' then
                        answer (if length added > PUSH_TOKEN_LIMIT
                                then drop (length added - PUSH_TOKEN_LIMIT) added else added)
                      else Some (json (error_body ''method not allowed'') 405, s1))))"

definition worker_push_status ::
  "(string \<Rightarrow> string) \<Rightarrow> env \<Rightarrow> request \<Rightarrow> push_storage \<Rightarrow> response" where
  "worker_push_status sha env request s =
     (let auth = bearer (map_of (r_headers request) ''authorization'') in
      if \<not> validRoomCredential (JStr auth)
         \<or> (case ps_auth s of None \<Rightarrow> True | Some expected \<Rightarrow> \<not> constantTimeEqual (JStr (sha auth)) (JStr expected))
      then json (error_body ''invalid room credential'') 401
      else json (status_body (apnsConfigured env None) (length (ps_tokens s))) 200)"

section \<open>The wake push\<close>

text \<open>How the request for a device ends: accepted, the token is stale, refused, or no answer.\<close>

datatype apns_result = Apns_accepted | Apns_stale | Apns_rejected | Apns_failed

text \<open>\<open>sendAPNs\<close> throws for a device whose environment is not configured.\<close>

definition apns_send :: "env \<Rightarrow> (push_device \<Rightarrow> apns_result) \<Rightarrow> push_device \<Rightarrow> apns_result" where
  "apns_send env apple device =
     (if \<not> apnsConfigured env (Some (d_environment device)) then Apns_failed else apple device)"

definition sendWakePush ::
  "env \<Rightarrow> (push_device \<Rightarrow> apns_result) \<Rightarrow> rooms \<Rightarrow> string \<Rightarrow> time \<Rightarrow> bool \<times> rooms" where
  "sendWakePush env apple rooms room now =
     (if \<not> apnsConfigured env None then (True, rooms)
      else let devices = pushTokens rooms room;
               stale = map d_token (filter (\<lambda>d. apns_send env apple d = Apns_stale) devices);
               ok = list_all (\<lambda>d. apns_send env apple d \<in> {Apns_accepted, Apns_stale}) devices
           in (ok, if stale \<noteq> [] then removePushTokens rooms room stale now else rooms))"

definition worker_sendWakePush ::
  "env \<Rightarrow> (push_device \<Rightarrow> apns_result) \<Rightarrow> push_device list \<Rightarrow> bool \<times> push_device list" where
  "worker_sendWakePush env apple tokens =
     (if \<not> apnsConfigured env None then (True, tokens)
      else let stale = map d_token (filter (\<lambda>d. apns_send env apple d = Apns_stale) tokens);
               ok = list_all (\<lambda>d. apns_send env apple d \<in> {Apns_accepted, Apns_stale}) tokens
           in (ok, if stale \<noteq> [] then filter (\<lambda>d. d_token d \<notin> set stale) tokens else tokens))"

section \<open>The two runtimes\<close>

text \<open>The same owner and devices in both runtimes; every token once and at most eight.\<close>

definition devices_ok :: "push_device list \<Rightarrow> bool" where
  "devices_ok ds \<longleftrightarrow> length ds \<le> PUSH_TOKEN_LIMIT \<and> distinct (map d_token ds)"

definition devices_agree :: "rooms \<Rightarrow> string \<Rightarrow> push_storage \<Rightarrow> bool" where
  "devices_agree rooms room s \<longleftrightarrow> authDigest rooms room = ps_auth s \<and> auth_ok rooms room
     \<and> pushTokens rooms room = ps_tokens s \<and> devices_ok (ps_tokens s)"

lemma devices_ok_filter: "devices_ok ds \<Longrightarrow> devices_ok (filter p ds)"
  using le_trans [OF length_filter_le [of p ds]] by (auto simp: devices_ok_def distinct_map_filter)

lemma devices_ok_added:
  assumes "devices_ok ds"
  shows "devices_ok (slice_last PUSH_TOKEN_LIMIT (filter (\<lambda>d. d_token d \<noteq> d_token x) ds @ [x]))"
proof -
  have "distinct (map d_token (filter (\<lambda>d. d_token d \<noteq> d_token x) ds @ [x]))"
    using assms by (auto simp: devices_ok_def distinct_map_filter)
  from slice_last_distinct [OF this] show ?thesis by (simp add: devices_ok_def)
qed

lemma slice_last_short: "length xs \<le> n \<Longrightarrow> slice_last n xs = xs"
  by (simp add: slice_last_def)

lemma write_tokens_props:
  "rooms room \<noteq> None \<Longrightarrow> pushTokens (write_tokens rooms room ts now) room = ts"
  "authDigest (write_tokens rooms room ts now) room' = authDigest rooms room'"
  by (auto simp: pushTokens_def write_tokens_def authDigest_def split: option.splits)

lemma authorize_tokens: "pushTokens (snd (authorize sha rooms room c pin now)) room' = pushTokens rooms room'"
  by (auto simp: authorize_def pinAuth_def ensureRoom_def new_room_def pushTokens_def Let_def split: option.splits)

lemma authDigest_row: "authDigest rooms room \<noteq> None \<Longrightarrow> rooms room \<noteq> None"
  by (cases "rooms room") (auto simp: authDigest_def)

text \<open>The gate of both runtimes when a request may pin.\<close>

lemma both_gates:
  assumes "hex_digest sha" "devices_agree rooms room s"
    and "authorize sha rooms room c True now = (admitted, rooms1)" "requireRoomAuth sha (ps_auth s) c = (refusal, auth1)"
  shows "admitted \<longleftrightarrow> refusal = None" "devices_agree rooms1 room (s\<lparr>ps_auth := auth1\<rparr>)"
    "admitted \<Longrightarrow> rooms1 room \<noteq> None" "refusal = Some r \<Longrightarrow> resp_status r = 401"
proof -
  have w: "worker_authorize sha (ps_auth s) c True = (refusal = None, auth1)"
    using assms(4) by (simp add: worker_authorize_def)
  have ok: "case ps_auth s of None \<Rightarrow> True | Some d \<Rightarrow> is_hex64 d" "auth_ok rooms room"
    using assms(2) by (auto simp: devices_agree_def auth_ok_def)
  have same: "authDigest rooms room = ps_auth s" using assms(2) by (simp add: devices_agree_def)
  show adm: "admitted \<longleftrightarrow> refusal = None"
    using node_gate.auth_answer [OF assms(1) ok(2), of c True now] worker_gate.auth_answer [OF assms(1) ok(1), of c True]
      assms(3) w same by simp
  have owner: "authDigest rooms1 room = gate_owner sha (ps_auth s) c True" "auth1 = gate_owner sha (ps_auth s) c True"
    using node_gate.auth_owner [OF assms(1) ok(2), of c True now] worker_gate.auth_owner [OF assms(1) ok(1), of c True]
      assms(3) w same by simp_all
  have "auth_ok rooms1 room" using node_gate.auth_ok [OF assms(1) ok(2), of c True now] assms(3) by simp
  then show "devices_agree rooms1 room (s\<lparr>ps_auth := auth1\<rparr>)"
    using owner authorize_tokens [of sha rooms room c True now room] assms(2,3) by (simp add: devices_agree_def)
  show "rooms1 room \<noteq> None" if admitted
    using that adm owner assms(4) authDigest_row [of rooms1 room]
    by (auto simp: requireRoomAuth_def gate_owner_def split: if_splits option.splits)
  show "resp_status r = 401" if "refusal = Some r"
    using that assms(4) by (auto simp: requireRoomAuth_def Let_def json_def split: if_splits option.splits)
qed

lemma updated_devices:
  assumes "devices_agree rooms room s" "rooms room \<noteq> None"
    and "updatePushToken rooms room token environment BUNDLE_ID remove now = (tokens, rooms2)"
  shows "tokens = (if remove then filter (\<lambda>d. d_token d \<noteq> token) (ps_tokens s)
      else slice_last PUSH_TOKEN_LIMIT (filter (\<lambda>d. d_token d \<noteq> token) (ps_tokens s) @
        [\<lparr>d_token = token, d_environment = environment, d_bundleId = BUNDLE_ID, d_updatedAt = now\<rparr>]))"
    and "devices_agree rooms2 room (s\<lparr>ps_tokens := tokens\<rparr>)"
proof -
  have ds: "devices_ok (ps_tokens s)" "pushTokens rooms room = ps_tokens s"
    using assms(1) by (simp_all add: devices_agree_def)
  show t: "tokens = (if remove then filter (\<lambda>d. d_token d \<noteq> token) (ps_tokens s)
      else slice_last PUSH_TOKEN_LIMIT (filter (\<lambda>d. d_token d \<noteq> token) (ps_tokens s) @
        [\<lparr>d_token = token, d_environment = environment, d_bundleId = BUNDLE_ID, d_updatedAt = now\<rparr>]))"
    using assms(3) ds(2) devices_ok_filter [OF ds(1)]
    by (auto simp: updatePushToken_def Let_def slice_last_short devices_ok_def not_less split: if_splits)
  have "devices_ok tokens"
    using t devices_ok_filter [OF ds(1)]
      devices_ok_added [OF ds(1), of "\<lparr>d_token = token, d_environment = environment, d_bundleId = BUNDLE_ID, d_updatedAt = now\<rparr>"]
    by (auto split: if_splits)
  then show "devices_agree rooms2 room (s\<lparr>ps_tokens := tokens\<rparr>)"
    using assms by (auto simp: devices_agree_def updatePushToken_def Let_def write_tokens_props auth_ok_def)
qed

section \<open>Properties\<close>

text \<open>both runtimes serve push registration alike. On a well-formed registration request with a
  readable body they give the same status, the same body when it succeeds, and keep the same owner
  and devices; a refused request changes no device, every token is held once, and at most eight are
  held.\<close>

theorem push_registration_agrees:
  assumes "hex_digest sha" "devices_agree rooms room s"
    and "r_path request = ''/push/register''" "map_of (r_query request) ''room'' = Some room" "validRoom (JStr room)"
    and "r_method request \<in> {''PUT'', ''POST'', ''DELETE''}"
    and "parse [] = None" "read_request parse request MAX_PUSH_BODY_BYTES = Inr v"
    and "is_string (field ''bundleId'' v)"
  shows "case (node_push_registration parse sha env request now rooms, worker_push_registration parse sha env request now s) of
      (Some (a, rooms'), Some (b, s')) \<Rightarrow> resp_status a = resp_status b \<and> (resp_status a = 200 \<longrightarrow> resp_body a = resp_body b)
        \<and> devices_agree rooms' room s' \<and> (resp_status a \<noteq> 200 \<longrightarrow> pushTokens rooms' room = pushTokens rooms room)
    | (None, None) \<Rightarrow> True
    | _ \<Rightarrow> False"
proof -
  let ?c = "bearer (map_of (r_headers request) ''authorization'')"
  have v: "node_read_request parse request MAX_PUSH_BODY_BYTES = v" using readers_agree [of parse, OF assms(7)] assms(8) by simp
  obtain admitted rooms1 where n: "authorize sha rooms room ?c True now = (admitted, rooms1)" by (cases "authorize sha rooms room ?c True now")
  obtain refusal auth1 where w: "requireRoomAuth sha (ps_auth s) ?c = (refusal, auth1)" by (cases "requireRoomAuth sha (ps_auth s) ?c")
  note gates = both_gates [OF assms(1,2) n w]
  have same: "pushTokens rooms1 room = pushTokens rooms room" using authorize_tokens [of sha rooms room ?c True now room] n by simp
  obtain i where b: "field ''bundleId'' v = JStr i" using assms(9) by (cases "field ''bundleId'' v") auto
  show ?thesis
  proof (cases admitted)
    case False
    then obtain r where "refusal = Some r" using gates(1) by auto
    then show ?thesis using False n w gates(2,4) same assms(3-5)
      by (simp add: node_push_registration_def worker_push_registration_def json_def)
  next
    case True
    then have r: "refusal = None" "rooms1 room \<noteq> None" using gates(1,3) by auto
    let ?remove = "r_method request = ''DELETE''"
    let ?e = "str_of (field ''environment'' v)"
    show ?thesis
    proof (cases "body_token v")
      case None
      then show ?thesis using True n w r v assms(3-8)
        by (auto simp: node_push_registration_def worker_push_registration_def Let_def)
    next
      case (Some token)
      obtain tokens rooms2 where u: "updatePushToken rooms1 room token ?e BUNDLE_ID ?remove now = (tokens, rooms2)"
        by (cases "updatePushToken rooms1 room token ?e BUNDLE_ID ?remove now")
      note up = updated_devices [OF gates(2) r(2) u]
      show ?thesis using True n w r v assms(3-8) Some u up b same gates(2)
        by (auto simp: node_push_registration_def worker_push_registration_def Let_def json_def or_empty_def
            slice_last_def not_less)
    qed
  qed
qed

text \<open>A wake push removes exactly the devices whose own token is stale, in both runtimes alike, and
  counts as delivered when every other device accepted it.\<close>

lemma wake_push_drops_stale:
  assumes "devices_agree rooms room s" "rooms room \<noteq> None" "apnsConfigured env None"
  shows "fst (sendWakePush env apple rooms room now) = fst (worker_sendWakePush env apple (ps_tokens s))"
    "pushTokens (snd (sendWakePush env apple rooms room now)) room = filter (\<lambda>d. apns_send env apple d \<noteq> Apns_stale) (ps_tokens s)"
    "snd (worker_sendWakePush env apple (ps_tokens s)) = filter (\<lambda>d. apns_send env apple d \<noteq> Apns_stale) (ps_tokens s)"
proof -
  let ?stale = "map d_token (filter (\<lambda>d. apns_send env apple d = Apns_stale) (ps_tokens s))"
  have t: "pushTokens rooms room = ps_tokens s" "distinct (map d_token (ps_tokens s))"
    using assms(1) by (simp_all add: devices_agree_def devices_ok_def)
  have drop: "filter (\<lambda>d. d_token d \<notin> set ?stale) (ps_tokens s)
      = filter (\<lambda>d. apns_send env apple d \<noteq> Apns_stale) (ps_tokens s)"
    using t(2) by (intro filter_cong [OF refl]) (auto simp: distinct_map inj_on_def)
  have none: "?stale = [] \<Longrightarrow> filter (\<lambda>d. apns_send env apple d \<noteq> Apns_stale) (ps_tokens s) = ps_tokens s"
    by (auto simp: filter_empty_conv filter_id_conv)
  show "fst (sendWakePush env apple rooms room now) = fst (worker_sendWakePush env apple (ps_tokens s))"
    using t assms(3) by (simp add: sendWakePush_def worker_sendWakePush_def Let_def)
  show "pushTokens (snd (sendWakePush env apple rooms room now)) room = filter (\<lambda>d. apns_send env apple d \<noteq> Apns_stale) (ps_tokens s)"
    using t(1) assms(2,3) drop none
    by (simp add: sendWakePush_def removePushTokens_def write_tokens_props Let_def del: set_map set_filter)
  show "snd (worker_sendWakePush env apple (ps_tokens s)) = filter (\<lambda>d. apns_send env apple d \<noteq> Apns_stale) (ps_tokens s)"
    using assms(3) drop none by (simp add: worker_sendWakePush_def Let_def del: set_map set_filter)
qed

section \<open>Witnesses\<close>

definition sample_registration :: request where
  "sample_registration = \<lparr>r_method = ''PUT'', r_path = ''/push/register'', r_query = [(''room'', ''00112233445566aa'')],
     r_headers = [(''authorization'', ''Bearer '' @ replicate 64 CHR ''a'')], r_length = None, r_chunks = Some [''body'']\<rparr>"

definition sample_device_body :: js where
  "sample_device_body = JObj [(''token'', JStr (replicate 64 CHR ''A'')), (''environment'', JStr ''sandbox''),
     (''bundleId'', JStr BUNDLE_ID)]"

definition sample_parse :: "string \<Rightarrow> js option" where
  "sample_parse s = (if s = [] then None else Some sample_device_body)"

theorem push_registration_agrees_witness:
  "case (node_push_registration sample_parse (\<lambda>_. replicate 64 CHR ''0'') Map.empty sample_registration 5 Map.empty,
      worker_push_registration sample_parse (\<lambda>_. replicate 64 CHR ''0'') Map.empty sample_registration 5
        \<lparr>ps_auth = None, ps_tokens = []\<rparr>) of
      (Some (a, rooms'), Some (b, s')) \<Rightarrow> resp_status a = resp_status b \<and> (resp_status a = 200 \<longrightarrow> resp_body a = resp_body b)
        \<and> devices_agree rooms' ''00112233445566aa'' s'
        \<and> (resp_status a \<noteq> 200 \<longrightarrow> pushTokens rooms' ''00112233445566aa'' = pushTokens Map.empty ''00112233445566aa'')
    | (None, None) \<Rightarrow> True
    | _ \<Rightarrow> False"
proof (rule push_registration_agrees)
  show "hex_digest (\<lambda>_. replicate 64 CHR ''0'')"
    by (simp add: hex_digest_def is_hex64_def hex_char_def char_between_def)
  show "devices_agree Map.empty ''00112233445566aa'' \<lparr>ps_auth = None, ps_tokens = []\<rparr>"
    by (simp add: devices_agree_def authDigest_def auth_ok_def pushTokens_def devices_ok_def)
  show "read_request sample_parse sample_registration MAX_PUSH_BODY_BYTES = Inr sample_device_body"
    by (simp add: read_request_def readJsonLimited_def sample_parse_def sample_registration_def MAX_PUSH_BODY_BYTES_def)
qed (simp_all add: sample_registration_def sample_parse_def sample_device_body_def class_repeat_def hex_char_def char_between_def)

end
