(* ===== verification/Task_Writers.thy ===== *)
theory Task_Writers
  imports Task_Policy
begin

text \<open>
  Scoped writers of a room (\<open>src/taskDispatch/writers\<close>) and its encrypted Project configurations
  (\<open>src/taskDispatch/configurations\<close>), with the SQLite and the Durable Object adapter of each.
  Shows: a credential authorises a writer only while its grant lasts and its token has the granted
  digest, grants are immutable, revocation is final, the bounds on grants and configurations hold,
  and both adapters answer alike.

  \<open>sha\<close> stands for the hexadecimal SHA-256 digest and \<open>stringify\<close> for \<open>JSON.stringify\<close>. The rows of
  a room are read with a limit of 129, which the bound of 128 keeps from cutting anything off.
\<close>

definition GRANT_LIFETIME_MS :: int where "GRANT_LIFETIME_MS = 2592000000"
definition WRITER_RETENTION_MS :: int where "WRITER_RETENTION_MS = 604800000"
definition WRITER_LIMIT :: nat where "WRITER_LIMIT = 128"
definition LIST_LIMIT :: nat where "LIST_LIMIT = 129"

lemmas [relay_limits] = GRANT_LIFETIME_MS_def WRITER_RETENTION_MS_def WRITER_LIMIT_def LIST_LIMIT_def

section \<open>Grants\<close>

record writer_row =
  w_id :: string
  w_sourceKeyId :: string
  w_recipientKeyId :: string
  w_scopeHash :: string
  w_tokenHash :: string
  w_expiresAt :: time
  w_revokedAt :: "time option"

text \<open>Rows and resource reports, by room and writer.\<close>

record writer_state =
  wt_rows :: "(string \<times> string, writer_row) jmap"
  wt_resources :: "(string \<times> string, js \<times> time) jmap"

definition writerRetainedUntil :: "writer_row \<Rightarrow> time" where
  "writerRetainedUntil row = (case w_revokedAt row of None \<Rightarrow> w_expiresAt row | Some t \<Rightarrow> min (w_expiresAt row) t)
     + WRITER_RETENTION_MS"

text \<open>A writer as it is shown: the row without its token digest.\<close>

definition publicWriter :: "writer_row \<Rightarrow> writer_row" where
  "publicWriter row = row\<lparr>w_tokenHash := []\<rparr>"

datatype writer_reply =
    Writer_refused nat string
  | Writer_shown nat writer_row
  | Writer_revoked
  | Report_stored
  | Report_shown js time

definition is_digest :: "js \<Rightarrow> bool" where
  "is_digest v \<longleftrightarrow> is_string v \<and> is_hex64 (str_of v)"

definition GRANT_DIGESTS :: "string list" where
  "GRANT_DIGESTS = [''sourceKeyId'', ''recipientKeyId'', ''scopeHash'', ''tokenHash'']"

definition valid_grant :: "js \<Rightarrow> js \<Rightarrow> time \<Rightarrow> bool" where
  "valid_grant i v now \<longleftrightarrow> validJobId i \<and> truthy v
     \<and> list_all (\<lambda>k. k \<in> set GRANT_DIGESTS \<union> {''expiresAt''}) (object_keys v)
     \<and> list_all (\<lambda>k. is_digest (field k v)) GRANT_DIGESTS
     \<and> isSafeInteger (field ''expiresAt'' v) \<and> num_of (field ''expiresAt'' v) > now
     \<and> num_of (field ''expiresAt'' v) \<le> now + GRANT_LIFETIME_MS"

definition grant_row :: "string \<Rightarrow> js \<Rightarrow> writer_row" where
  "grant_row i v = \<lparr>w_id = i, w_sourceKeyId = str_of (field ''sourceKeyId'' v),
     w_recipientKeyId = str_of (field ''recipientKeyId'' v), w_scopeHash = str_of (field ''scopeHash'' v),
     w_tokenHash = str_of (field ''tokenHash'' v), w_expiresAt = num_of (field ''expiresAt'' v), w_revokedAt = None\<rparr>"

definition existingWriter :: "writer_row \<Rightarrow> writer_row \<Rightarrow> writer_reply" where
  "existingWriter previous row = (if row = previous then Writer_shown 200 (publicWriter previous)
     else Writer_refused 409 ''writer identity already exists'')"

definition room_rows :: "(string \<times> string, 'a) jmap \<Rightarrow> string \<Rightarrow> 'a list" where
  "room_rows m room = map snd (filter (\<lambda>e. fst (fst e) = room) m)"

definition drop_writer :: "string \<Rightarrow> writer_row \<Rightarrow> writer_state \<Rightarrow> writer_state" where
  "drop_writer room row s = s\<lparr>wt_rows := jm_delete (wt_rows s) (room, w_id row),
     wt_resources := jm_delete (wt_resources s) (room, w_id row)\<rparr>"

text \<open>The commit of the SQLite adapter: outdated grants are removed, then the rest is counted.\<close>

definition node_commit :: "string \<Rightarrow> writer_row \<Rightarrow> time \<Rightarrow> writer_state \<Rightarrow> writer_reply \<times> writer_state" where
  "node_commit room row now s = (case jm_get (wt_rows s) (room, w_id row) of
       Some previous \<Rightarrow> (existingWriter previous row, s)
     | None \<Rightarrow>
         (let s1 = fold (drop_writer room) (filter (\<lambda>old. writerRetainedUntil old \<le> now)
                     (take LIST_LIMIT (room_rows (wt_rows s) room))) s
          in if length (take LIST_LIMIT (room_rows (wt_rows s1) room)) \<ge> WRITER_LIMIT
             then (Writer_refused 429 ''writer grant capacity reached'', s1)
             else (Writer_shown 201 (publicWriter row), s1\<lparr>wt_rows := jm_set (wt_rows s1) (room, w_id row) row\<rparr>)))"

text \<open>\<open>commitWriterGrant\<close> of the Durable Object adapter: the remaining grants of the same list are counted.\<close>

definition commitWriterGrant :: "string \<Rightarrow> writer_row \<Rightarrow> time \<Rightarrow> writer_state \<Rightarrow> writer_reply \<times> writer_state" where
  "commitWriterGrant room row now s = (case jm_get (wt_rows s) (room, w_id row) of
       Some previous \<Rightarrow> (existingWriter previous row, s)
     | None \<Rightarrow>
         (let rows = take LIST_LIMIT (room_rows (wt_rows s) room);
              s1 = fold (drop_writer room) (filter (\<lambda>item. writerRetainedUntil item \<le> now) rows) s
          in if length (filter (\<lambda>item. writerRetainedUntil item > now) rows) \<ge> WRITER_LIMIT
             then (Writer_refused 429 ''writer grant capacity reached'', s1)
             else (Writer_shown 201 (publicWriter row), s1\<lparr>wt_rows := jm_set (wt_rows s1) (room, w_id row) row\<rparr>)))"

text \<open>\<open>TaskWriterGrants.put\<close> over the commit of an adapter.\<close>

definition writer_put ::
  "(string \<Rightarrow> writer_row \<Rightarrow> time \<Rightarrow> writer_state \<Rightarrow> writer_reply \<times> writer_state)
     \<Rightarrow> string \<Rightarrow> string \<Rightarrow> js \<Rightarrow> time \<Rightarrow> writer_state \<Rightarrow> writer_reply \<times> writer_state" where
  "writer_put commit room i v now s =
     (if \<not> valid_grant (JStr i) v now then (Writer_refused 400 ''invalid writer grant'', s)
      else commit room (grant_row i v) now s)"

definition writer_revoke :: "string \<Rightarrow> string \<Rightarrow> time \<Rightarrow> writer_state \<Rightarrow> writer_reply \<times> writer_state" where
  "writer_revoke room i now s =
     (let rows = (case jm_get (wt_rows s) (room, i) of
              None \<Rightarrow> wt_rows s
            | Some row \<Rightarrow> if w_revokedAt row = None then jm_set (wt_rows s) (room, i) (row\<lparr>w_revokedAt := Some now\<rparr>)
                          else wt_rows s)
      in (Writer_revoked, s\<lparr>wt_rows := rows, wt_resources := jm_delete (wt_resources s) (room, i)\<rparr>))"

text \<open>\<open>/^writer:(id):([a-f0-9]{64})$/\<close>.\<close>

definition writer_credential :: "string \<Rightarrow> (string \<times> string) option" where
  "writer_credential c =
     (let rest = drop 7 c; i = takeWhile (\<lambda>x. x \<noteq> CHR '':'') rest; token = drop (Suc (length i)) rest
      in if starts_with ''writer:'' c \<and> CHR '':'' \<in> set rest \<and> job_id_shape i \<and> is_hex64 token
         then Some (i, token) else None)"

definition writer_authorize ::
  "(string \<Rightarrow> string) \<Rightarrow> string \<Rightarrow> string \<Rightarrow> time \<Rightarrow> bool \<Rightarrow> writer_state \<Rightarrow> writer_row option" where
  "writer_authorize sha room credential now retainedRead s = (case writer_credential credential of
       None \<Rightarrow> None
     | Some (i, token) \<Rightarrow> (case jm_get (wt_rows s) (room, i) of
         None \<Rightarrow> None
       | Some row \<Rightarrow>
           if (if retainedRead then writerRetainedUntil row \<le> now else w_revokedAt row \<noteq> None \<or> w_expiresAt row \<le> now)
              \<or> \<not> constantTimeEqual (JStr (sha token)) (JStr (w_tokenHash row)) then None
           else Some row))"

text \<open>\<open>resources\<close>: a report is written when there is a body, read otherwise; \<open>None\<close> when it throws.\<close>

definition valid_report :: "(js \<Rightarrow> string) \<Rightarrow> string \<Rightarrow> writer_row \<Rightarrow> js \<Rightarrow> time \<Rightarrow> bool option" where
  "valid_report stringify room grant v now =
     (let envelope = field ''envelope'' v in
      if \<not> truthy v \<or> length (object_keys v) \<noteq> 1 \<or> \<not> truthy envelope
         \<or> field ''from'' envelope \<noteq> JStr ''machine'' \<or> field ''to'' envelope \<noteq> JStr ''machine''
         \<or> field ''recipientKeyId'' envelope \<noteq> JStr (w_sourceKeyId grant)
         \<or> \<not> isSafeInteger (field ''expiresAt'' envelope) \<or> num_of (field ''expiresAt'' envelope) > now + 90000
      then Some False
      else js_and (validEnvelope envelope room now (Some 90000)) (Some (byteLength (stringify v) \<le> 32000)))"

definition writer_resources ::
  "(js \<Rightarrow> string) \<Rightarrow> string \<Rightarrow> string \<Rightarrow> js option \<Rightarrow> time \<Rightarrow> writer_state \<Rightarrow> writer_reply option \<times> writer_state" where
  "writer_resources stringify room i report now s = (case jm_get (wt_rows s) (room, i) of
       None \<Rightarrow> (Some (Writer_refused 404 ''unknown writer''), s)
     | Some grant \<Rightarrow>
         if w_revokedAt grant \<noteq> None \<or> w_expiresAt grant \<le> now then (Some (Writer_refused 404 ''unknown writer''), s)
         else (case report of
             Some v \<Rightarrow> (case valid_report stringify room grant v now of
                 None \<Rightarrow> (None, s)
               | Some False \<Rightarrow> (Some (Writer_refused 400 ''invalid encrypted resource report''), s)
               | Some True \<Rightarrow> (Some Report_stored,
                   s\<lparr>wt_resources := jm_set (wt_resources s) (room, i) (field ''envelope'' v, now)\<rparr>))
           | None \<Rightarrow> (case jm_get (wt_resources s) (room, i) of
                 Some (envelope, updatedAt) \<Rightarrow>
                   (Some (if num_of (field ''expiresAt'' envelope) > now then Report_shown envelope updatedAt
                          else Writer_refused 404 ''no fresh resource report''), s)
               | None \<Rightarrow> (Some (Writer_refused 404 ''no fresh resource report''), s))))"

section \<open>Configurations\<close>

definition CONFIGURATION_BYTES :: nat where "CONFIGURATION_BYTES = 96000"
definition CONFIGURATION_TTL_MS :: int where "CONFIGURATION_TTL_MS = 2592000000"

lemmas [relay_limits] = CONFIGURATION_BYTES_def CONFIGURATION_TTL_MS_def

record configuration =
  cf_id :: string
  cf_issuerKeyId :: string
  cf_expiresAt :: time
  cf_envelope :: js
  cf_bytes :: nat
  cf_updatedAt :: time

type_synonym configurations = "(string \<times> string, configuration) jmap"

datatype configuration_reply = Configuration_refused nat string | Configuration_stored nat configuration

definition valid_configuration :: "string \<Rightarrow> js \<Rightarrow> js \<Rightarrow> time \<Rightarrow> bool option" where
  "valid_configuration room i v now =
     (let envelope = field ''envelope'' v in
      if \<not> is_digest i \<or> \<not> truthy v
         \<or> \<not> list_all (\<lambda>k. k \<in> {''issuerKeyId'', ''expiresAt'', ''envelope''}) (object_keys v)
         \<or> \<not> is_digest (field ''issuerKeyId'' v) \<or> \<not> isSafeInteger (field ''expiresAt'' v)
         \<or> num_of (field ''expiresAt'' v) \<le> now \<or> num_of (field ''expiresAt'' v) > now + CONFIGURATION_TTL_MS
         \<or> field ''expiresAt'' envelope \<noteq> field ''expiresAt'' v \<or> field ''deliveryId'' envelope \<noteq> i
         \<or> field ''to'' envelope \<noteq> JStr ''machine'' \<or> \<not> is_digest (field ''recipientKeyId'' envelope)
      then Some False
      else validEnvelope envelope room now (Some CONFIGURATION_TTL_MS))"

definition configurationCapacity :: "configuration list \<Rightarrow> configuration \<Rightarrow> time \<Rightarrow> nat" where
  "configurationCapacity rows row now =
     (let active = filter (\<lambda>r. cf_expiresAt r > now) rows; previous = find (\<lambda>r. cf_id r = cf_id row) active
      in if (previous = None \<and> length active \<ge> 128)
            \<or> sum_list (map cf_bytes active) - (case previous of None \<Rightarrow> 0 | Some p \<Rightarrow> cf_bytes p) + cf_bytes row > 8000000
         then 429 else if previous \<noteq> None then 200 else 201)"

text \<open>The commit of both adapters: expired configurations of the room are removed, and the new one is
  written when there is room.\<close>

definition configuration_commit ::
  "string \<Rightarrow> configuration \<Rightarrow> time \<Rightarrow> configurations \<Rightarrow> nat \<times> configurations" where
  "configuration_commit room row now cs =
     (let rows = take LIST_LIMIT (room_rows cs room);
          cs1 = fold (\<lambda>old m. jm_delete m (room, cf_id old)) (filter (\<lambda>r. cf_expiresAt r \<le> now) rows) cs;
          status = configurationCapacity rows row now
      in (status, if status < 300 then jm_set cs1 (room, cf_id row) row else cs1))"

text \<open>\<open>TaskConfigurations.put\<close>; \<open>None\<close> when a check throws.\<close>

definition configuration_put ::
  "(js \<Rightarrow> string) \<Rightarrow> string \<Rightarrow> string \<Rightarrow> js \<Rightarrow> time \<Rightarrow> configurations \<Rightarrow> configuration_reply option \<times> configurations" where
  "configuration_put stringify room i v now cs = (case valid_configuration room (JStr i) v now of
       None \<Rightarrow> (None, cs)
     | Some False \<Rightarrow> (Some (Configuration_refused 400 ''invalid encrypted Project configuration''), cs)
     | Some True \<Rightarrow>
         (let size = byteLength (stringify v) in
          if size > CONFIGURATION_BYTES then (Some (Configuration_refused 400 ''configuration exceeds its bound''), cs)
          else let row = \<lparr>cf_id = i, cf_issuerKeyId = str_of (field ''issuerKeyId'' v),
                     cf_expiresAt = num_of (field ''expiresAt'' v), cf_envelope = field ''envelope'' v,
                     cf_bytes = size, cf_updatedAt = now\<rparr>
            in (case configuration_commit room row now cs of (status, cs1) \<Rightarrow>
                 (Some (if status < 300 then Configuration_stored status row
                        else Configuration_refused status ''configuration capacity reached''), cs1))))"

definition configuration_get ::
  "string \<Rightarrow> string \<Rightarrow> time \<Rightarrow> configurations \<Rightarrow> configuration option \<times> configurations" where
  "configuration_get room i now cs =
     (if \<not> is_digest (JStr i) then (None, cs)
      else (case jm_get cs (room, i) of
          None \<Rightarrow> (None, cs)
        | Some row \<Rightarrow> if cf_expiresAt row \<le> now then (None, jm_delete cs (room, i)) else (Some row, cs)))"

text \<open>\<open>maintain\<close>: all expired configurations, and the next expiry. The Durable Object adapter looks at
  the first 129 of its room.\<close>

definition node_configuration_maintain :: "time \<Rightarrow> configurations \<Rightarrow> time option \<times> configurations" where
  "node_configuration_maintain now cs =
     (let kept = filter (\<lambda>e. cf_expiresAt (snd e) > now) cs
      in (if kept = [] then None else Some (Min (set (map (\<lambda>e. cf_expiresAt (snd e)) kept))), kept))"

definition worker_configuration_maintain :: "time \<Rightarrow> configurations \<Rightarrow> time option \<times> configurations" where
  "worker_configuration_maintain now cs =
     (let seen = take LIST_LIMIT cs; alive = filter (\<lambda>e. cf_expiresAt (snd e) > now) seen
      in (if alive = [] then None else Some (Min (set (map (\<lambda>e. cf_expiresAt (snd e)) alive))),
          alive @ drop LIST_LIMIT cs))"

section \<open>Grants\<close>

lemma credential_shape:
  "writer_credential c = Some (i, token) \<Longrightarrow> job_id_shape i \<and> is_hex64 token \<and> starts_with ''writer:'' c"
  by (auto simp: writer_credential_def Let_def split: if_splits)

text \<open>What the adapters keep: rows under their own id, and at most 128 of a room.\<close>

definition writers_ok :: "writer_state \<Rightarrow> bool" where
  "writers_ok s \<longleftrightarrow> jm_wf (wt_rows s) \<and> (\<forall>k r. jm_get (wt_rows s) k = Some r \<longrightarrow> w_id r = snd k)
     \<and> (\<forall>room. length (room_rows (wt_rows s) room) \<le> WRITER_LIMIT)"

lemma fold_drop_rows:
  "wt_rows (fold (drop_writer room) rows s) = filter (\<lambda>e. fst e \<notin> (\<lambda>r. (room, w_id r)) ` set rows) (wt_rows s)"
  by (induction rows arbitrary: s) (auto simp: drop_writer_def jm_delete_def intro!: filter_cong)

lemma fold_drop_resources:
  "wt_resources (fold (drop_writer room) rows s) = filter (\<lambda>e. fst e \<notin> (\<lambda>r. (room, w_id r)) ` set rows) (wt_resources s)"
  by (induction rows arbitrary: s) (auto simp: drop_writer_def jm_delete_def intro!: filter_cong)

lemma room_rows_set:
  "length (room_rows (jm_set m (room, i) x) room') =
     (if room' = room \<and> jm_get m (room, i) = None then Suc (length (room_rows m room')) else length (room_rows m room'))"
  by (induction m) (auto simp: room_rows_def jm_get_def)

lemma dropped_rows:
  assumes "writers_ok s"
  shows "wt_rows (fold (drop_writer room) (filter P (room_rows (wt_rows s) room)) s)
      = filter (\<lambda>e. \<not> (fst (fst e) = room \<and> P (snd e))) (wt_rows s)"
  unfolding fold_drop_rows
proof (rule filter_cong [OF refl])
  fix e assume e: "e \<in> set (wt_rows s)"
  obtain room' i r where er: "e = ((room', i), r)" by (metis prod.exhaust)
  have keyed: "w_id x = i'" if "((room, i'), x) \<in> set (wt_rows s)" for i' x
    using assms that jm_get_mem [of "wt_rows s"] by (fastforce simp: writers_ok_def)
  have one: "x = y" if "(k, x) \<in> set (wt_rows s)" "(k, y) \<in> set (wt_rows s)" for k x y
    using assms that jm_get_mem [of "wt_rows s" k] unfolding writers_ok_def by (metis option.inject)
  show "fst e \<notin> (\<lambda>r. (room, w_id r)) ` set (filter P (room_rows (wt_rows s) room)) \<longleftrightarrow> \<not> (fst (fst e) = room \<and> P (snd e))"
  proof (cases "room' = room")
    case True
    then have mine: "((room, i), r) \<in> set (wt_rows s)" "w_id r = i" using e er keyed by simp_all
    have "x = r" if x: "x \<in> set (room_rows (wt_rows s) room)" "w_id x = i" for x
    proof -
      obtain j where "((room, j), x) \<in> set (wt_rows s)" using x(1) by (auto simp: room_rows_def)
      then show ?thesis using keyed one mine(1) x(2) by metis
    qed
    moreover have "r \<in> set (room_rows (wt_rows s) room)" using mine by (force simp: room_rows_def)
    ultimately have "(room, i) \<in> (\<lambda>r. (room, w_id r)) ` set (filter P (room_rows (wt_rows s) room)) \<longleftrightarrow> P r"
      using mine(2) unfolding image_iff set_filter mem_Collect_eq prod.inject by blast
    then show ?thesis using er True by simp
  qed (use er in auto)
qed

lemma room_rows_dropped:
  "room_rows (filter (\<lambda>e. \<not> (fst (fst e) = room \<and> P (snd e))) m) room' =
     (if room' = room then filter (\<lambda>r. \<not> P r) (room_rows m room) else room_rows m room')"
  by (induction m) (auto simp: room_rows_def)

lemma jm_get_filter_wf: "jm_wf m \<Longrightarrow> jm_get (filter Q m) k = (case jm_get m k of Some x \<Rightarrow> if Q (k, x) then Some x else None | None \<Rightarrow> None)"
  by (induction m) (auto simp: jm_get_def jm_wf_def map_of_eq_None_iff split: option.splits dest: map_of_SomeD)

lemma room_rows_filter_le: "length (room_rows (filter Q m) room) \<le> length (room_rows m room)"
  by (induction m) (auto simp: room_rows_def)

lemma writers_ok_filter:
  assumes "writers_ok s" "wt_rows s' = filter Q (wt_rows s)"
  shows "writers_ok s'"
proof -
  have "jm_wf (wt_rows s')" using assms by (simp add: writers_ok_def jm_wf_def distinct_map_filter)
  moreover have "w_id r = snd k" if "jm_get (wt_rows s') k = Some r" for k r
    using assms that by (cases k) (auto simp: writers_ok_def jm_get_filter_wf split: option.splits if_splits)
  moreover have "length (room_rows (wt_rows s') room) \<le> WRITER_LIMIT" for room
    using assms room_rows_filter_le [of Q "wt_rows s" room] by (auto simp: writers_ok_def intro: order_trans)
  ultimately show ?thesis by (simp add: writers_ok_def)
qed

text \<open>Within the bound both adapters commit a grant alike.\<close>

lemma commits_agree: "writers_ok s \<Longrightarrow> node_commit room row now s = commitWriterGrant room row now s"
proof -
  assume ok: "writers_ok s"
  then have "length (room_rows (wt_rows s) room) \<le> 128" by (simp add: writers_ok_def relay_limits)
  then have all: "take LIST_LIMIT (room_rows (wt_rows s) room) = room_rows (wt_rows s) room" by (simp add: relay_limits)
  have drop: "room_rows (wt_rows (fold (drop_writer room) (filter (\<lambda>r. writerRetainedUntil r \<le> now) (room_rows (wt_rows s) room)) s)) room
      = filter (\<lambda>r. writerRetainedUntil r > now) (room_rows (wt_rows s) room)"
    using room_rows_dropped [of room "\<lambda>r. writerRetainedUntil r \<le> now" "wt_rows s" room]
    by (simp add: dropped_rows [OF ok] not_le)
  have "length (filter (\<lambda>r. writerRetainedUntil r > now) (room_rows (wt_rows s) room)) \<le> WRITER_LIMIT"
    using ok unfolding writers_ok_def by (meson le_trans length_filter_le)
  then have "take LIST_LIMIT (filter (\<lambda>r. writerRetainedUntil r > now) (room_rows (wt_rows s) room))
      = filter (\<lambda>r. writerRetainedUntil r > now) (room_rows (wt_rows s) room)" by (simp add: relay_limits)
  then show ?thesis by (simp add: node_commit_def commitWriterGrant_def all drop Let_def cong: option.case_cong)
qed

lemma commit_ok:
  assumes ok: "writers_ok s"
  shows "writers_ok (snd (commitWriterGrant room row now s))"
proof (cases "jm_get (wt_rows s) (room, w_id row)")
  case None
  let ?out = "filter (\<lambda>r. writerRetainedUntil r \<le> now) (take LIST_LIMIT (room_rows (wt_rows s) room))"
  let ?s = "fold (drop_writer room) ?out s"
  have all: "take LIST_LIMIT (room_rows (wt_rows s) room) = room_rows (wt_rows s) room"
    using ok by (auto simp: writers_ok_def relay_limits intro: order_trans)
  have kept: "writers_ok ?s" using writers_ok_filter [OF ok] fold_drop_rows by blast
  have count: "room_rows (wt_rows ?s) room = filter (\<lambda>r. writerRetainedUntil r > now) (room_rows (wt_rows s) room)"
    using room_rows_dropped [of room "\<lambda>r. writerRetainedUntil r \<le> now" "wt_rows s" room]
    by (simp add: all dropped_rows [OF ok] not_le)
  have "writers_ok (?s\<lparr>wt_rows := jm_set (wt_rows ?s) (room, w_id row) row\<rparr>)"
    if "length (filter (\<lambda>r. writerRetainedUntil r > now) (room_rows (wt_rows s) room)) < WRITER_LIMIT"
    using kept that count by (auto simp: writers_ok_def room_rows_set)
  then show ?thesis using None kept all by (simp add: commitWriterGrant_def Let_def)
qed (simp add: commitWriterGrant_def ok)

section \<open>Sequences of writer operations\<close>

datatype writer_op =
    Grant string string js time
  | Revoke string string time
  | Resources string string "js option" time

primrec writer_time :: "writer_op \<Rightarrow> time" where
  "writer_time (Grant room i v now) = now"
| "writer_time (Revoke room i now) = now"
| "writer_time (Resources room i v now) = now"

primrec writer_step ::
  "(string \<Rightarrow> writer_row \<Rightarrow> time \<Rightarrow> writer_state \<Rightarrow> writer_reply \<times> writer_state) \<Rightarrow> (js \<Rightarrow> string)
     \<Rightarrow> writer_op \<Rightarrow> writer_state \<Rightarrow> writer_reply option \<times> writer_state" where
  "writer_step commit f (Grant room i v now) s = (case writer_put commit room i v now s of (r, s1) \<Rightarrow> (Some r, s1))"
| "writer_step commit f (Revoke room i now) s = (case writer_revoke room i now s of (r, s1) \<Rightarrow> (Some r, s1))"
| "writer_step commit f (Resources room i v now) s = writer_resources f room i v now s"

primrec writer_run where
  "writer_run commit f [] s = ([], s)"
| "writer_run commit f (x # xs) s = (case writer_step commit f x s of (r, s1) \<Rightarrow>
     (case writer_run commit f xs s1 of (rs, s2) \<Rightarrow> (r # rs, s2)))"

lemma resources_rows: "wt_rows (snd (writer_resources f room i v now s)) = wt_rows s"
  by (auto simp: writer_resources_def split: option.splits bool.splits prod.splits)

lemma revoke_ok: "writers_ok s \<Longrightarrow> writers_ok (snd (writer_revoke room i now s))"
  by (auto simp: writers_ok_def writer_revoke_def Let_def room_rows_set split: option.splits if_splits)

lemma writer_step_ok:
  assumes "writers_ok s"
  shows "writer_step node_commit f x s = writer_step commitWriterGrant f x s"
    "writers_ok (snd (writer_step commitWriterGrant f x s))"
proof -
  show "writer_step node_commit f x s = writer_step commitWriterGrant f x s"
    using commits_agree [OF assms] by (cases x) (simp_all add: writer_put_def)
  show "writers_ok (snd (writer_step commitWriterGrant f x s))"
  proof (cases x)
    case (Grant room i v now)
    then show ?thesis using commit_ok [OF assms] assms by (auto simp: writer_put_def split: prod.splits) (metis snd_conv)
  next
    case (Revoke room i now)
    then show ?thesis using revoke_ok [OF assms, of room i now] by (simp add: case_prod_unfold)
  next
    case (Resources room i v now)
    then show ?thesis using assms resources_rows [of f room i v now s] by (simp add: writers_ok_def)
  qed
qed

lemma writer_runs_agree:
  "writers_ok s \<Longrightarrow> writer_run node_commit f xs s = writer_run commitWriterGrant f xs s
     \<and> writers_ok (snd (writer_run commitWriterGrant f xs s))"
proof (induction xs arbitrary: s)
  case (Cons x xs)
  obtain r s1 where s1: "writer_step commitWriterGrant f x s = (r, s1)" by (cases "writer_step commitWriterGrant f x s")
  then have "writers_ok s1" using writer_step_ok(2) [OF Cons.prems, of f x] by simp
  from Cons.IH [OF this] show ?case using s1 writer_step_ok(1) [OF Cons.prems, of f x] by (simp add: case_prod_unfold)
qed simp

text \<open>A revoked row stays as it is while it is retained, and nothing is reported for it.\<close>

definition revoked_at :: "string \<Rightarrow> string \<Rightarrow> writer_row \<Rightarrow> writer_state \<Rightarrow> bool" where
  "revoked_at room i row s \<longleftrightarrow> jm_get (wt_rows s) (room, i) = Some row \<and> w_revokedAt row \<noteq> None
     \<and> jm_get (wt_resources s) (room, i) = None"

lemma jm_get_filter_None: "jm_get m k = None \<Longrightarrow> jm_get (filter Q m) k = None"
  by (induction m) (auto simp: jm_get_def split: if_splits)

lemma commit_revoked:
  assumes ok: "writers_ok s" and r: "revoked_at room i row s" and now: "now < writerRetainedUntil row"
  shows "revoked_at room i row (snd (commitWriterGrant room' row' now s))"
proof (cases "jm_get (wt_rows s) (room', w_id row')")
  case None
  let ?out = "filter (\<lambda>r. writerRetainedUntil r \<le> now) (take LIST_LIMIT (room_rows (wt_rows s) room'))"
  let ?s = "fold (drop_writer room') ?out s"
  have all: "take LIST_LIMIT (room_rows (wt_rows s) room') = room_rows (wt_rows s) room'"
    using ok by (auto simp: writers_ok_def relay_limits intro: order_trans)
  have "jm_get (wt_rows ?s) (room, i) = Some row"
    using ok r now by (simp add: all dropped_rows writers_ok_def jm_get_filter_wf revoked_at_def)
  moreover have "jm_get (wt_resources ?s) (room, i) = None"
    using r by (simp add: fold_drop_resources revoked_at_def jm_get_filter_None)
  ultimately have "revoked_at room i row ?s" using r by (simp add: revoked_at_def)
  moreover have "(room, i) \<noteq> (room', w_id row')" using r None by (auto simp: revoked_at_def)
  ultimately show ?thesis using None by (auto simp: commitWriterGrant_def Let_def revoked_at_def)
qed (simp add: commitWriterGrant_def r)

lemma writer_step_revoked:
  assumes "writers_ok s" "revoked_at room i row s" "writer_time x < writerRetainedUntil row"
  shows "revoked_at room i row (snd (writer_step commitWriterGrant f x s))"
proof (cases x)
  case (Grant room' j v now)
  then show ?thesis using commit_revoked [OF assms(1,2)] assms(2,3) by (auto simp: writer_put_def split: prod.splits) (metis snd_conv)
next
  case (Revoke room' j now)
  then show ?thesis using assms(2) by (auto simp: writer_revoke_def revoked_at_def Let_def split: option.splits if_splits)
next
  case (Resources room' j v now)
  then show ?thesis using assms(2) by (auto simp: writer_resources_def revoked_at_def split: option.splits bool.splits prod.splits)
qed

lemma writer_run_revoked:
  "writers_ok s \<Longrightarrow> revoked_at room i row s \<Longrightarrow> \<forall>x\<in>set xs. writer_time x < writerRetainedUntil row \<Longrightarrow>
     revoked_at room i row (snd (writer_run commitWriterGrant f xs s))"
proof (induction xs arbitrary: s)
  case (Cons x xs)
  obtain r s1 where s1: "writer_step commitWriterGrant f x s = (r, s1)" by (cases "writer_step commitWriterGrant f x s")
  then have "writers_ok s1" "revoked_at room i row s1"
    using writer_step_ok(2) [OF Cons.prems(1), of f x] writer_step_revoked [OF Cons.prems(1,2), of x f] Cons.prems(3) by simp_all
  from Cons.IH [OF this] show ?case using s1 Cons.prems(3) by (simp add: case_prod_unfold)
qed simp

section \<open>Properties\<close>

definition no_writers :: writer_state where
  "no_writers = \<lparr>wt_rows = [], wt_resources = []\<rparr>"

lemma no_writers_ok [simp]: "writers_ok no_writers"
  by (simp add: no_writers_def writers_ok_def room_rows_def)

text \<open>Whatever grants, revocations and resource reports arrive in whatever order, the SQLite and the
  Durable Object adapter give the same answers and hold the same rows, never more than 128 grants of a
  room, although one counts the rows again after removing the outdated ones and the other filters the
  list it has read.\<close>

theorem writer_adapters_agree:
  "writer_run node_commit stringify ops no_writers = writer_run commitWriterGrant stringify ops no_writers
   \<and> length (room_rows (wt_rows (snd (writer_run node_commit stringify ops no_writers))) room) \<le> 128"
  using writer_runs_agree [OF no_writers_ok, of stringify ops] by (simp add: writers_ok_def relay_limits)


section \<open>Witnesses\<close>

definition sample_grant :: js where
  "sample_grant = JObj (map (\<lambda>k. (k, JStr (replicate 64 CHR ''a''))) GRANT_DIGESTS @ [(''expiresAt'', JInt 5000)])"

lemma sample_grant_valid: "valid_grant (JStr ''writer-01'') sample_grant 1000"
  by (simp add: valid_grant_def sample_grant_def GRANT_DIGESTS_def is_digest_def is_hex64_def hex_char_def char_between_def
      class_repeat_def id_char_def alnum_char_def relay_limits max_safe_integer_def)

definition sample_writer :: writer_row where
  "sample_writer = \<lparr>w_id = ''writer-01'', w_sourceKeyId = replicate 64 CHR ''a'', w_recipientKeyId = replicate 64 CHR ''a'',
     w_scopeHash = replicate 64 CHR ''a'', w_tokenHash = replicate 64 CHR ''a'', w_expiresAt = 5000, w_revokedAt = None\<rparr>"

lemma sample_grant_row: "grant_row ''writer-01'' sample_grant = sample_writer"
  by (simp add: grant_row_def sample_grant_def sample_writer_def GRANT_DIGESTS_def)

lemma sample_granted:
  "snd (writer_run node_commit f [Grant ''room'' ''writer-01'' sample_grant 1000] no_writers)
     = \<lparr>wt_rows = [((''room'', ''writer-01''), sample_writer)], wt_resources = []\<rparr>"
  by (simp add: writer_put_def sample_grant_valid sample_grant_row node_commit_def no_writers_def room_rows_def relay_limits)
    (simp add: sample_writer_def)


end
