(* ===== verification/Task_Dispatch.thy ===== *)
theory Task_Dispatch
  imports Task_Store Task_Writers
begin

text \<open>
  The HTTP interface of the task dispatch, \<open>taskDispatchResponse\<close> (\<open>src/taskDispatch/index.js\<close>), over
  the job stores, the scoped writers and the configurations, for both runtimes; and the offers of
  due jobs to connected computers (\<open>src/taskDispatch/socket-offers.js\<close>). Shows: without the room
  credential or a writer grant nothing is answered or changed, and a writer reads, submits and
  cancels its own jobs only, for its recipient and within its lifetime.

  \<open>owner\<close> is the answer of the room gate (without pinning), \<open>read\<close> reads the bounded body (\<open>None\<close> when
  the reader throws), \<open>sha\<close> stands for the hexadecimal SHA-256 digest and \<open>stringify\<close> for
  \<open>JSON.stringify\<close>. A result \<open>None\<close> is an exception.
\<close>

section \<open>The stores\<close>

record 's job_ops =
  op_get :: "'s \<Rightarrow> string \<Rightarrow> string \<Rightarrow> time \<Rightarrow> bool \<Rightarrow> public_job option option \<times> 's"
  op_active :: "'s \<Rightarrow> string \<Rightarrow> time \<Rightarrow> public_job list \<times> 's"
  op_put :: "'s \<Rightarrow> string \<Rightarrow> string \<Rightarrow> js \<Rightarrow> time \<Rightarrow> store_reply option \<times> 's"
  op_act :: "'s \<Rightarrow> string \<Rightarrow> string \<Rightarrow> action \<Rightarrow> js \<Rightarrow> time \<Rightarrow> store_reply option \<times> 's"

definition node_ops :: "(js \<Rightarrow> string) \<Rightarrow> (string \<Rightarrow> string) \<Rightarrow> task_table job_ops" where
  "node_ops stringify sha = \<lparr>
     op_get = (\<lambda>ts room i now metadataOnly. case node_getPublic ts room i now metadataOnly of (r, ts1) \<Rightarrow> (Some r, ts1)),
     op_active = node_listActive,
     op_put = node_put stringify sha,
     op_act = node_transition stringify sha\<rparr>"

definition worker_ops :: "(js \<Rightarrow> string) \<Rightarrow> (string \<Rightarrow> string) \<Rightarrow> task_storage job_ops" where
  "worker_ops stringify sha = \<lparr>
     op_get = worker_getPublic sha,
     op_active = (\<lambda>s room now. case worker_rows_of sha s room now of (rows, s1) \<Rightarrow>
       (filter (\<lambda>p. pj_state p \<in> {Queued, Accepted, Failed}) (map publicJob rows), s1)),
     op_put = worker_put stringify sha,
     op_act = worker_transition stringify sha\<rparr>"

record 's dispatch_state =
  ds_jobs :: 's
  ds_writers :: writer_state
  ds_configurations :: configurations

section \<open>Paths\<close>

definition path_tail :: "string \<Rightarrow> string \<Rightarrow> string option" where
  "path_tail prefix path = (if starts_with prefix path then Some (drop (length prefix) path) else None)"

definition configuration_path :: "string \<Rightarrow> string option" where
  "configuration_path path = (case path_tail ''/task-job-configurations/'' path of
     Some i \<Rightarrow> if is_hex64 i then Some i else None | None \<Rightarrow> None)"

definition id_path :: "string \<Rightarrow> string \<Rightarrow> string option" where
  "id_path prefix path = (case path_tail prefix path of
     Some i \<Rightarrow> if job_id_shape i then Some i else None | None \<Rightarrow> None)"

text \<open>\<open>/^\/task-jobs(?:\/([^/]+)(?:\/(claim|finish))?)?$/\<close>: the id and the action, if any.\<close>

definition job_path :: "string \<Rightarrow> (string option \<times> action option) option" where
  "job_path path =
     (if path = ''/task-jobs'' then Some (None, None)
      else (case path_tail ''/task-jobs/'' path of
          None \<Rightarrow> None
        | Some rest \<Rightarrow>
            (let i = takeWhile (\<lambda>c. c \<noteq> CHR ''/'') rest; tail = dropWhile (\<lambda>c. c \<noteq> CHR ''/'') rest
             in if i = [] then None
                else if tail = [] then Some (Some i, None)
                else if tail = ''/claim'' then Some (Some i, Some Claim_action)
                else if tail = ''/finish'' then Some (Some i, Some Finish_action)
                else None)))"

section \<open>Answers\<close>

datatype dispatch_body =
    D_error string
  | D_configuration "configuration option"
  | D_writer writer_row
  | D_revoked
  | D_ok
  | D_report js time
  | D_jobs "public_job list"
  | D_job public_job

type_synonym dispatch_reply = "nat \<times> dispatch_body"

fun writer_answer :: "writer_reply \<Rightarrow> dispatch_reply" where
  "writer_answer (Writer_refused st e) = (st, D_error e)"
| "writer_answer (Writer_shown st w) = (st, D_writer w)"
| "writer_answer Writer_revoked = (200, D_revoked)"
| "writer_answer Report_stored = (200, D_ok)"
| "writer_answer (Report_shown envelope updatedAt) = (200, D_report envelope updatedAt)"

fun configuration_answer :: "configuration_reply \<Rightarrow> dispatch_reply" where
  "configuration_answer (Configuration_refused st e) = (st, D_error e)"
| "configuration_answer (Configuration_stored st row) = (st, D_configuration (Some row))"

fun store_answer :: "store_reply \<Rightarrow> dispatch_reply" where
  "store_answer (Rejected st e) = (st, D_error e)"
| "store_answer (Answer st job) = (st, D_job (taskJobMetadata job))"

section \<open>Routes\<close>

definition configuration_route ::
  "(js \<Rightarrow> string) \<Rightarrow> string \<Rightarrow> string \<Rightarrow> string \<Rightarrow> bool \<Rightarrow> (nat \<Rightarrow> js option) \<Rightarrow> time \<Rightarrow> 's dispatch_state
     \<Rightarrow> dispatch_reply option \<times> 's dispatch_state" where
  "configuration_route stringify method room i owner read now s =
     (if \<not> owner then (Some (403, D_error ''room owner required''), s)
      else if method = ''GET'' then
        (case configuration_get room i now (ds_configurations s) of (row, cs) \<Rightarrow>
          (Some (200, D_configuration row), s\<lparr>ds_configurations := cs\<rparr>))
      else if method \<noteq> ''PUT'' then (Some (405, D_error ''method not allowed''), s)
      else (case read CONFIGURATION_BYTES of
          None \<Rightarrow> (None, s)
        | Some v \<Rightarrow> (case configuration_put stringify room i v now (ds_configurations s) of (reply, cs) \<Rightarrow>
            (map_option configuration_answer reply, s\<lparr>ds_configurations := cs\<rparr>))))"

definition resource_route ::
  "(js \<Rightarrow> string) \<Rightarrow> string \<Rightarrow> string \<Rightarrow> string \<Rightarrow> writer_row option \<Rightarrow> (nat \<Rightarrow> js option) \<Rightarrow> time \<Rightarrow> 's dispatch_state
     \<Rightarrow> dispatch_reply option \<times> 's dispatch_state" where
  "resource_route stringify method room i writer read now s =
     (if (case writer of None \<Rightarrow> False | Some w \<Rightarrow> i \<noteq> w_id w \<or> method \<noteq> ''GET'') then
        (Some (403, D_error ''resource report scope refused''), s)
      else if method \<notin> {''GET'', ''PUT''} then (Some (405, D_error ''method not allowed''), s)
      else (case (if method = ''PUT'' then map_option (\<lambda>v. Some (if v = JUndefined then JNull else v)) (read 32000)
                  else Some None) of
          None \<Rightarrow> (None, s)
        | Some report \<Rightarrow> (case writer_resources stringify room i report now (ds_writers s) of (reply, ws) \<Rightarrow>
            (map_option writer_answer reply, s\<lparr>ds_writers := ws\<rparr>))))"

definition writer_route ::
  "(string \<Rightarrow> writer_row \<Rightarrow> time \<Rightarrow> writer_state \<Rightarrow> writer_reply \<times> writer_state)
     \<Rightarrow> string \<Rightarrow> string \<Rightarrow> string \<Rightarrow> bool \<Rightarrow> (nat \<Rightarrow> js option) \<Rightarrow> time \<Rightarrow> 's dispatch_state
     \<Rightarrow> dispatch_reply option \<times> 's dispatch_state" where
  "writer_route commit method room i owner read now s =
     (if \<not> owner then (Some (403, D_error ''room owner required''), s)
      else if method = ''PUT'' then (case read 4096 of
          None \<Rightarrow> (None, s)
        | Some v \<Rightarrow> (case writer_put commit room i v now (ds_writers s) of (reply, ws) \<Rightarrow>
            (Some (writer_answer reply), s\<lparr>ds_writers := ws\<rparr>)))
      else if method = ''DELETE'' then (case writer_revoke room i now (ds_writers s) of (reply, ws) \<Rightarrow>
          (Some (writer_answer reply), s\<lparr>ds_writers := ws\<rparr>))
      else (Some (405, D_error ''method not allowed''), s))"

text \<open>\<open>v > bound\<close> for an expiry; a value that is no integer is refused by the store instead.\<close>

fun exceeds :: "js \<Rightarrow> time \<Rightarrow> bool" where
  "exceeds (JInt n) bound = (n > bound)"
| "exceeds _ bound = False"

text \<open>\<open>{ ...body, writerId, writerSourceKeyId }\<close>.\<close>

fun stamped :: "writer_row \<Rightarrow> js \<Rightarrow> js" where
  "stamped w (JObj kvs) = JObj (jm_set (jm_set kvs ''writerId'' (JStr (w_id w))) ''writerSourceKeyId'' (JStr (w_sourceKeyId w)))"
| "stamped w v = v"

definition job_submission ::
  "'s job_ops \<Rightarrow> string \<Rightarrow> string \<Rightarrow> writer_row option \<Rightarrow> js \<Rightarrow> time \<Rightarrow> 's \<Rightarrow> dispatch_reply option \<times> 's" where
  "job_submission ops room i writer v now s = (case writer of
       None \<Rightarrow> (case op_put ops s room i v now of (r, s1) \<Rightarrow> (map_option store_answer r, s1))
     | Some w \<Rightarrow>
         if field ''recipientKeyId'' (field ''envelope'' v) \<noteq> JStr (w_recipientKeyId w)
            \<or> exceeds (field ''expiresAt'' v) (w_expiresAt w)
         then (Some (403, D_error ''writer recipient or lifetime refused''), s)
         else (case op_put ops s room i (stamped w v) now of (r, s1) \<Rightarrow> (map_option store_answer r, s1)))"

text \<open>The methods on a job or the jobs of a room, once the scope of a writer has been checked.\<close>

definition job_method ::
  "'s job_ops \<Rightarrow> string \<Rightarrow> string \<Rightarrow> string option \<Rightarrow> action option \<Rightarrow> writer_row option \<Rightarrow> (nat \<Rightarrow> js option)
     \<Rightarrow> bool \<Rightarrow> time \<Rightarrow> 's \<Rightarrow> dispatch_reply option \<times> 's" where
  "job_method ops method room i action writer read metadataOnly now s = (case i of
       None \<Rightarrow>
         if method = ''GET'' then (case op_active ops s room now of (jobs, s1) \<Rightarrow>
           (Some (200, D_jobs (map taskJobMetadata jobs)), s1))
         else (Some (405, D_error ''method not allowed''), s)
     | Some i \<Rightarrow> (case action of
         None \<Rightarrow>
           if method = ''GET'' then (case op_get ops s room i now metadataOnly of (r, s1) \<Rightarrow>
             (map_option (\<lambda>job. case job of Some job \<Rightarrow> (200, D_job job) | None \<Rightarrow> (404, D_error ''unknown task job'')) r, s1))
           else if method = ''PUT'' then (case read JOB_BYTES of
               None \<Rightarrow> (None, s)
             | Some v \<Rightarrow> job_submission ops room i writer v now s)
           else if method = ''DELETE'' then (case op_act ops s room i Cancel_action JUndefined now of (r, s1) \<Rightarrow>
             (map_option store_answer r, s1))
           else (Some (405, D_error ''method not allowed''), s)
       | Some a \<Rightarrow>
           if method = ''POST'' then (case read (if a = Finish_action then 34000 else 1024) of
               None \<Rightarrow> (None, s)
             | Some v \<Rightarrow> (case op_act ops s room i a v now of (r, s1) \<Rightarrow> (map_option store_answer r, s1)))
           else (Some (405, D_error ''method not allowed''), s)))"

definition job_route ::
  "'s job_ops \<Rightarrow> string \<Rightarrow> string \<Rightarrow> string \<Rightarrow> writer_row option \<Rightarrow> (nat \<Rightarrow> js option) \<Rightarrow> bool \<Rightarrow> time
     \<Rightarrow> 's \<Rightarrow> dispatch_reply option \<times> 's" where
  "job_route ops method path room writer read metadataOnly now s = (case job_path path of
       None \<Rightarrow> (Some (400, D_error ''invalid job path''), s)
     | Some (i, action) \<Rightarrow>
         if (case i of None \<Rightarrow> False | Some i \<Rightarrow> \<not> job_id_shape i) then (Some (400, D_error ''invalid job path''), s)
         else (case writer of
             None \<Rightarrow> job_method ops method room i action writer read metadataOnly now s
           | Some w \<Rightarrow> (case i of
               None \<Rightarrow> (Some (403, D_error ''writer scope refused''), s)
             | Some i1 \<Rightarrow>
                 if action \<noteq> None \<or> method \<notin> {''GET'', ''PUT'', ''DELETE''} then (Some (403, D_error ''writer scope refused''), s)
                 else (case op_get ops s room i1 now True of
                     (None, s1) \<Rightarrow> (None, s1)
                   | (Some existing, s1) \<Rightarrow>
                       if (method \<noteq> ''PUT'' \<or> existing \<noteq> None)
                          \<and> (case existing of None \<Rightarrow> True | Some job \<Rightarrow> pj_writerId job \<noteq> Some (w_id w))
                       then (Some (404, D_error ''unknown task job''), s1)
                       else job_method ops method room i action writer read metadataOnly now s1))))"

definition taskDispatchResponse ::
  "'s job_ops \<Rightarrow> (string \<Rightarrow> writer_row \<Rightarrow> time \<Rightarrow> writer_state \<Rightarrow> writer_reply \<times> writer_state)
     \<Rightarrow> (js \<Rightarrow> string) \<Rightarrow> (string \<Rightarrow> string) \<Rightarrow> string \<Rightarrow> string \<Rightarrow> string option \<Rightarrow> bool \<Rightarrow> string \<Rightarrow> (nat \<Rightarrow> js option)
     \<Rightarrow> bool \<Rightarrow> time \<Rightarrow> 's dispatch_state \<Rightarrow> dispatch_reply option \<times> 's dispatch_state" where
  "taskDispatchResponse ops commit stringify sha method path roomParam owner credential read metadataOnly now s =
     (case roomParam of
        None \<Rightarrow> (Some (400, D_error ''invalid room''), s)
      | Some room \<Rightarrow>
        if \<not> validRoom (JStr room) then (Some (400, D_error ''invalid room''), s)
        else
          let retainedRead = (method = ''GET'' \<and> metadataOnly \<and> id_path ''/task-jobs/'' path \<noteq> None);
              writer = (if owner then None else writer_authorize sha room credential now retainedRead (ds_writers s))
          in if \<not> owner \<and> writer = None then (Some (401, D_error ''invalid room credential''), s)
             else (case configuration_path path of
                 Some i \<Rightarrow> configuration_route stringify method room i owner read now s
               | None \<Rightarrow> (case id_path ''/task-resources/'' path of
                   Some i \<Rightarrow> resource_route stringify method room i writer read now s
                 | None \<Rightarrow> (case id_path ''/task-job-writers/'' path of
                     Some i \<Rightarrow> writer_route commit method room i owner read now s
                   | None \<Rightarrow> (case job_route ops method path room writer read metadataOnly now (ds_jobs s) of
                       (reply, jobs) \<Rightarrow> (reply, s\<lparr>ds_jobs := jobs\<rparr>))))))"

section \<open>Offers\<close>

definition OFFER_INTERVAL_MS :: int where "OFFER_INTERVAL_MS = 15000"

text \<open>\<open>offerTaskJobs\<close> for one socket: \<open>due\<close> gives the due jobs but for the excluded ones, \<open>accepts\<close> says
  whether the socket takes a frame. The frames sent and the offers remembered.\<close>

fun send_offers :: "(string, time) jmap \<Rightarrow> (public_job \<Rightarrow> bool) \<Rightarrow> time \<Rightarrow> public_job list \<Rightarrow> public_job list \<times> (string, time) jmap" where
  "send_offers offered accepts now [] = ([], offered)"
| "send_offers offered accepts now (job # jobs) =
     (if (case jm_get offered (pj_id job) of None \<Rightarrow> False | Some t \<Rightarrow> now - t < OFFER_INTERVAL_MS) \<or> \<not> accepts job
      then send_offers offered accepts now jobs
      else (case send_offers (jm_set offered (pj_id job) now) accepts now jobs of (sent, offered1) \<Rightarrow> (job # sent, offered1)))"

definition offerTaskJobs ::
  "(string list \<Rightarrow> public_job list) \<Rightarrow> string option \<Rightarrow> (public_job \<Rightarrow> bool) \<Rightarrow> (string, time) jmap \<Rightarrow> time
     \<Rightarrow> public_job list \<times> (string, time) jmap" where
  "offerTaskJobs due recipientKeyId accepts offered now = (case recipientKeyId of
       None \<Rightarrow> ([], offered)
     | Some d \<Rightarrow> if d = [] then ([], offered)
         else let recent = filter (\<lambda>e. \<not> now - snd e \<ge> OFFER_INTERVAL_MS) offered
           in send_offers recent accepts now (due (map fst recent)))"

section \<open>Helper lemmas\<close>

lemma map_of_filter_key: "map_of (filter (\<lambda>e. fst e = k) xs) k = map_of xs k"
  by (induction xs) auto

lemma field_ordered: "field k (ordered_envelope v) = field k v"
proof (cases v)
  case (JObj kvs)
  let ?f = "\<lambda>e. field_rank (fst e)"
  have "filter (\<lambda>e. fst e = k) (sort_key ?f kvs) = filter (\<lambda>e. fst e = k) (filter (\<lambda>e. ?f e = field_rank k) (sort_key ?f kvs))"
    by (auto simp: filter_filter intro!: filter_cong)
  also have "\<dots> = filter (\<lambda>e. fst e = k) (filter (\<lambda>e. ?f e = field_rank k) kvs)" by (simp only: sort_key_stable)
  also have "\<dots> = filter (\<lambda>e. fst e = k) kvs" by (auto simp: filter_filter intro!: filter_cong)
  finally have "map_of (sort_key ?f kvs) k = map_of kvs k" by (metis map_of_filter_key)
  then show ?thesis using JObj by simp
qed simp_all

lemma expireJob_idem [simp]: "expireJob (expireJob r now) now = expireJob r now"
  by (simp add: expireJob_def retireJob_def)

lemma expireQueued_idem: "expireQueued (expireQueued ts room now) room now = expireQueued ts room now"
  by (auto simp: expireQueued_def)

lemma expireJob_writer [simp]: "j_writerId (expireJob r now) = j_writerId r"
  by (simp add: expireJob_def retireJob_def)

lemma publicJob_writer: "pj_writerId (publicJob r) = Some w \<Longrightarrow> j_writerId r = Some w"
  by (auto simp: publicJob_def split: option.splits list.splits)

lemma publicJob_writer_iff: "w \<noteq> [] \<Longrightarrow> j_writerId r = Some w \<Longrightarrow> pj_writerId (publicJob r) = Some w"
  by (auto simp: publicJob_def split: list.splits)

lemma metadata_writer [simp]: "pj_writerId (taskJobMetadata p) = pj_writerId p"
  by (simp add: taskJobMetadata_def)

lemma stripped_writer [simp]: "j_writerId (stripped r) = j_writerId r"
  by (simp add: stripped_def)

lemma node_get_spec:
  "node_getPublic ts room i now m = (r, ts') \<Longrightarrow> ts' = expireQueued ts room now
     \<and> r = map_option (\<lambda>x. publicJob (if m then stripped x else x)) (jm_get ts' (room, i))"
  by (auto simp: node_getPublic_def Let_def)

lemma credential_text: "writer_credential c = Some (i, token) \<Longrightarrow> c = ''writer:'' @ i @ '':'' @ token"
proof -
  assume c: "writer_credential c = Some (i, token)"
  let ?rest = "drop 7 c"
  have i: "i = takeWhile (\<lambda>x. x \<noteq> CHR '':'') ?rest" "token = drop (Suc (length i)) ?rest" "CHR '':'' \<in> set ?rest"
    "starts_with ''writer:'' c"
    using c by (auto simp: writer_credential_def Let_def split: if_splits)
  then have "take 7 c = ''writer:''" by (simp add: starts_with_def numeral_eq_Suc)
  have "dropWhile (\<lambda>x. x \<noteq> CHR '':'') ?rest \<noteq> []" using i(3) by (auto simp: dropWhile_eq_Nil_conv)
  then obtain d tl where d: "dropWhile (\<lambda>x. x \<noteq> CHR '':'') ?rest = d # tl" "d = CHR '':''"
    using hd_dropWhile [of "\<lambda>x. x \<noteq> CHR '':''" ?rest] by (cases "dropWhile (\<lambda>x. x \<noteq> CHR '':'') ?rest") auto
  then have rest: "?rest = i @ CHR '':'' # tl" using i(1) takeWhile_dropWhile_id by metis
  then have "token = tl" using i(2) by simp
  then show ?thesis using rest \<open>take 7 c = ''writer:''\<close> append_take_drop_id [of 7 c] by simp
qed

text \<open>What authorisation establishes: a credential of the granted digest, within the lifetime of the
  grant, or within its retention for a retained read.\<close>

lemma writer_authorized:
  assumes "writer_authorize sha room c now ret s = Some w" "writers_ok s"
  obtains token where "c = ''writer:'' @ w_id w @ '':'' @ token" "utf16_codes (sha token) = utf16_codes (w_tokenHash w)" "w_id w \<noteq> []"
    "jm_get (wt_rows s) (room, w_id w) = Some w" "if ret then now < writerRetainedUntil w else w_revokedAt w = None \<and> now < w_expiresAt w"
proof -
  obtain i token where i: "writer_credential c = Some (i, token)" "jm_get (wt_rows s) (room, i) = Some w"
    "if ret then now < writerRetainedUntil w else w_revokedAt w = None \<and> now < w_expiresAt w" "utf16_codes (sha token) = utf16_codes (w_tokenHash w)"
    using assms(1) by (auto simp: writer_authorize_def constantTimeEqual_iff split: option.splits prod.splits if_splits)
  have "w_id w = i" using i(2) assms(2) by (auto simp: writers_ok_def)
  moreover have "i \<noteq> []" using credential_shape [OF i(1)] by auto
  ultimately show ?thesis using that i credential_text [OF i(1)] by simp
qed

lemma map_of_jm_set: "map_of (jm_set m k x) k' = (if k' = k then Some x else map_of m k')"
  using jm_get_set [of m k x k'] by (simp add: jm_get_def)

text \<open>A submission stamped with its writer.\<close>

lemma stamped_fields:
  assumes "is_object v" "\<not> is_array v"
  shows "field ''writerId'' (stamped w v) = JStr (w_id w)" "field ''writerSourceKeyId'' (stamped w v) = JStr (w_sourceKeyId w)"
    "k \<noteq> ''writerId'' \<Longrightarrow> k \<noteq> ''writerSourceKeyId'' \<Longrightarrow> field k (stamped w v) = field k v"
  using assms by (cases v; simp add: map_of_jm_set)+

lemma normal_stamped:
  assumes "normalizeJob f (JStr room) (JStr i) (stamped w v) now = Value n" "w_id w \<noteq> []"
    and "field ''recipientKeyId'' (field ''envelope'' v) = JStr d"
  shows "nj_writerId n = Some (w_id w)" "field ''recipientKeyId'' (nj_envelope n) = JStr d"
    "field ''expiresAt'' v = JInt (nj_expiresAt n)"
proof -
  have obj: "is_object v" "\<not> is_array v"
  proof -
    have "field ''envelope'' v \<noteq> JUndefined" using assms(3) by (cases "field ''envelope'' v") auto
    then show "is_object v" "\<not> is_array v" by (cases v; simp)+
  qed
  note st = stamped_fields [OF obj]
  have n: "nj_writerId n = (if truthy (field ''writerId'' (stamped w v)) then Some (str_of (field ''writerId'' (stamped w v))) else None)"
    "nj_envelope n = ordered_envelope (field ''envelope'' (stamped w v))"
    using assms(1) by (auto simp: normalizeJob_def Let_def split: if_splits option.splits bool.splits)
  have "isSafeInteger (field ''expiresAt'' (stamped w v))" "nj_expiresAt n = num_of (field ''expiresAt'' (stamped w v))"
    using assms(1) by (auto simp: normalizeJob_def Let_def job_times_ok_def js_and_def split: if_splits option.splits bool.splits)
  then show "field ''expiresAt'' v = JInt (nj_expiresAt n)" using st(3) by (cases "field ''expiresAt'' v") auto
  show "nj_writerId n = Some (w_id w)" using n(1) st(1) assms(2) by (cases "w_id w") auto
  show "field ''recipientKeyId'' (nj_envelope n) = JStr d" using n(2) st(3) assms(3) by (simp add: field_ordered)
qed

lemma node_put_writer:
  assumes "node_put f sha ts room i (stamped w v) now = (Some (Answer st p), ts')" "w_id w \<noteq> []"
    and "field ''recipientKeyId'' (field ''envelope'' v) = JStr d"
    and "\<forall>r. jm_get ts (room, i) = Some r \<longrightarrow> j_writerId r = Some (w_id w)"
  shows "pj_writerId p = Some (w_id w)" "\<forall>k. k \<noteq> (room, i) \<longrightarrow> jm_get ts' k \<in> {jm_get ts k, jm_get (expireQueued ts room now) k}"
    and "jm_get ts (room, i) = None \<Longrightarrow> \<exists>r. jm_get ts' (room, i) = Some r \<and> j_writerId r = Some (w_id w)
          \<and> field ''recipientKeyId'' (j_envelope r) = JStr d \<and> field ''expiresAt'' v = JInt (j_expiresAt r)"
proof -
  consider (old) r where "jm_get ts (room, i) = Some r" "p = publicJob (expireJob r now)" "ts' = ts"
    | (fresh) n fp where "jm_get ts (room, i) = None" "normalizeJob f (JStr room) (JStr i) (stamped w v) now = Value n"
        "p = publicJob (new_job n i fp now)" "ts' = jm_set (expireQueued ts room now) (room, i) (new_job n i fp now)"
  proof (cases "jm_get ts (room, i)")
    case None
    then obtain n where n: "normalizeJob f (JStr room) (JStr i) (stamped w v) now = Value n"
      using assms(1) by (cases "normalizeJob f (JStr room) (JStr i) (stamped w v) now") (simp_all add: node_put_def)
    show ?thesis
      by (rule fresh [OF None n, of "sha (nj_canonical n)"])
        (use assms(1) None n in \<open>simp_all add: node_put_def Let_def split: if_splits\<close>)
  next
    case (Some r)
    then obtain n where n: "normalizeJob f (JStr room) (JStr i) (stamped w v) (j_createdAt r) = Value n"
      using assms(1) by (cases "normalizeJob f (JStr room) (JStr i) (stamped w v) (j_createdAt r)") (simp_all add: node_put_def)
    show ?thesis
      by (rule old [OF Some]) (use assms(1) Some n in \<open>simp_all add: node_put_def split: if_splits\<close>)
  qed
  then have "pj_writerId p = Some (w_id w) \<and> (\<forall>k. k \<noteq> (room, i) \<longrightarrow> jm_get ts' k \<in> {jm_get ts k, jm_get (expireQueued ts room now) k})
    \<and> (jm_get ts (room, i) = None \<longrightarrow> (\<exists>r. jm_get ts' (room, i) = Some r \<and> j_writerId r = Some (w_id w)
          \<and> field ''recipientKeyId'' (j_envelope r) = JStr d \<and> field ''expiresAt'' v = JInt (j_expiresAt r)))"
  proof cases
    case old
    then show ?thesis using assms(2,4) by (simp add: publicJob_writer_iff)
  next
    case fresh
    then show ?thesis using normal_stamped [OF fresh(2) assms(2,3)] assms(2)
      by (simp add: publicJob_writer_iff new_job_def)
  qed
  then show "pj_writerId p = Some (w_id w)" "\<forall>k. k \<noteq> (room, i) \<longrightarrow> jm_get ts' k \<in> {jm_get ts k, jm_get (expireQueued ts room now) k}"
    and "jm_get ts (room, i) = None \<Longrightarrow> \<exists>r. jm_get ts' (room, i) = Some r \<and> j_writerId r = Some (w_id w)
          \<and> field ''recipientKeyId'' (j_envelope r) = JStr d \<and> field ''expiresAt'' v = JInt (j_expiresAt r)" by blast+
qed

lemma node_cancel_writer:
  assumes "node_transition f sha ts room i Cancel_action v now = (Some (Answer st p), ts')"
  obtains r r' where "jm_get ts (room, i) = Some r" "j_writerId r' = j_writerId r" "p = publicJob r'" "ts' = jm_set ts (room, i) r'"
  using assms
proof (cases rule: node_transition_cases)
  case (2 row r h n)
  then have "cancelJob row now = Done n r" by (simp add: act_def)
  then have "j_writerId r = j_writerId row" by (cases rule: cancelJob_cases) (simp_all add: retireJob_def)
  then show ?thesis using 2 that by simp
next
  case 1
  then show ?thesis by blast
qed

lemma path_tail_append: "path_tail prefix path = Some i \<Longrightarrow> path = prefix @ i"
  unfolding path_tail_def starts_with_def by (metis append_take_drop_id option.distinct(1) option.inject)

lemma id_path_append: "id_path prefix path = Some i \<Longrightarrow> path = prefix @ i \<and> job_id_shape i"
  by (auto simp: id_path_def dest: path_tail_append split: option.splits if_splits)

lemma job_path_plain:
  assumes "job_path path = Some (Some i, None)"
  shows "path = ''/task-jobs/'' @ i"
proof -
  obtain rest where rest: "path_tail ''/task-jobs/'' path = Some rest"
    using assms by (cases "path_tail ''/task-jobs/'' path") (simp_all add: job_path_def split: if_splits)
  then have "i = takeWhile (\<lambda>c. c \<noteq> CHR ''/'') rest" "dropWhile (\<lambda>c. c \<noteq> CHR ''/'') rest = []"
    using assms by (simp_all add: job_path_def Let_def split: if_splits)
  then have "i = rest" using takeWhile_dropWhile_id [of "\<lambda>c. c \<noteq> CHR ''/''" rest] by simp
  then show ?thesis using path_tail_append [OF rest] by simp
qed

section \<open>The scope of a writer\<close>

text \<open>What a writer may reach in the job table: its own job \<open>i\<close>, read, submitted or cancelled.\<close>

definition own_job_only ::
  "writer_row \<Rightarrow> string \<Rightarrow> string \<Rightarrow> time \<Rightarrow> task_table \<Rightarrow> task_table \<Rightarrow> dispatch_body \<Rightarrow> bool" where
  "own_job_only w room i now ts ts' body \<longleftrightarrow>
     (\<exists>p. body = D_job p \<and> pj_writerId p = Some (w_id w))
     \<and> (\<forall>r. jm_get ts (room, i) = Some r \<longrightarrow> j_writerId r = Some (w_id w))
     \<and> (\<forall>k. k \<noteq> (room, i) \<longrightarrow> jm_get ts' k = jm_get (expireQueued ts room now) k)
     \<and> (jm_get ts (room, i) = None \<longrightarrow> (\<exists>r. jm_get ts' (room, i) = Some r \<and> j_writerId r = Some (w_id w)
          \<and> field ''recipientKeyId'' (j_envelope r) = JStr (w_recipientKeyId w) \<and> j_expiresAt r \<le> w_expiresAt w))"

lemma store_answer_success:
  "map_option store_answer r = Some (st, body) \<Longrightarrow> st < 300 \<Longrightarrow> (\<And>e n. r = Some (Rejected n e) \<Longrightarrow> 400 \<le> n) \<Longrightarrow>
     \<exists>p. r = Some (Answer st p) \<and> body = D_job (taskJobMetadata p)"
  by (cases r) (auto elim!: store_answer.elims)

lemma put_rejects: "fst (node_put f sha ts room i v now) = Some (Rejected n e) \<Longrightarrow> 400 \<le> n"
  by (auto simp: node_put_def Let_def split: outcome.splits option.splits if_splits)

lemma cancel_rejects: "fst (node_transition f sha ts room i Cancel_action v now) = Some (Rejected n e) \<Longrightarrow> 400 \<le> n"
  by (auto simp: node_transition_def act_def cancelJob_def Let_def split: option.splits if_splits reply.splits)

lemma writer_job_method:
  assumes "job_method (node_ops f sha) method room (Some i) None (Some w) read m now ts1 = (Some (st, body), ts')"
    and "st < 300" "method \<in> {''GET'', ''PUT'', ''DELETE''}" "w_id w \<noteq> []" "ts1 = expireQueued ts room now"
    and "\<forall>r. jm_get ts1 (room, i) = Some r \<longrightarrow> j_writerId r = Some (w_id w)"
    and "method \<noteq> ''PUT'' \<Longrightarrow> jm_get ts1 (room, i) \<noteq> None"
  shows "own_job_only w room i now ts ts' body"
proof -
  have mine: "\<forall>r. jm_get ts (room, i) = Some r \<longrightarrow> j_writerId r = Some (w_id w)"
    "jm_get ts1 (room, i) = None \<longleftrightarrow> jm_get ts (room, i) = None"
    using assms(5,6) by (auto simp: expireQueued_get)
  have same: "expireQueued ts1 room now = ts1" using assms(5) by (simp add: expireQueued_idem)
  consider (get) "method = ''GET''" | (put) "method = ''PUT''" | (cancel) "method = ''DELETE''" using assms(3) by blast
  then show ?thesis
  proof cases
    case get
    obtain x where x: "jm_get ts1 (room, i) = Some x" using assms(7) get by auto
    then have "body = D_job (publicJob (if m then stripped x else x))" "ts' = ts1"
      using assms(1,2) get same node_get_spec [of ts1 room i now m] by (auto simp: job_method_def node_ops_def split: prod.splits)
    then show ?thesis using x mine assms(4-6) by (auto simp: own_job_only_def publicJob_writer_iff)
  next
    case put
    obtain v where v: "job_submission (node_ops f sha) room i (Some w) v now ts1 = (Some (st, body), ts')"
      using assms(1) put by (auto simp: job_method_def split: option.splits)
    have d: "field ''recipientKeyId'' (field ''envelope'' v) = JStr (w_recipientKeyId w)"
      "\<not> exceeds (field ''expiresAt'' v) (w_expiresAt w)" using v assms(2) by (auto simp: job_submission_def split: if_splits)
    obtain r where r: "node_put f sha ts1 room i (stamped w v) now = (r, ts')" "map_option store_answer r = Some (st, body)"
      using v d by (auto simp: job_submission_def node_ops_def split: prod.splits)
    obtain p where p: "r = Some (Answer st p)" "body = D_job (taskJobMetadata p)"
      using store_answer_success [OF r(2) assms(2)] put_rejects [of f sha ts1 room i "stamped w v" now] r(1) by force
    note w = node_put_writer [OF r(1) [unfolded p(1)] assms(4) d(1) assms(6)]
    have "j_expiresAt x \<le> w_expiresAt w" if "field ''expiresAt'' v = JInt (j_expiresAt x)" for x :: job
      using d(2) that by simp
    then show ?thesis using w mine p(2) same assms(5) by (fastforce simp: own_job_only_def)
  next
    case cancel
    obtain r where r: "node_transition f sha ts1 room i Cancel_action JUndefined now = (r, ts')" "map_option store_answer r = Some (st, body)"
      using assms(1) cancel by (auto simp: job_method_def node_ops_def split: prod.splits)
    obtain p where p: "r = Some (Answer st p)" "body = D_job (taskJobMetadata p)"
      using store_answer_success [OF r(2) assms(2)] cancel_rejects [of f sha ts1 room i JUndefined now] r(1) by force
    obtain x x' where "jm_get ts1 (room, i) = Some x" "j_writerId x' = j_writerId x" "p = publicJob x'" "ts' = jm_set ts1 (room, i) x'"
      using node_cancel_writer [OF r(1) [unfolded p(1)]] by blast
    then show ?thesis using mine p(2) assms(4-6) by (auto simp: own_job_only_def publicJob_writer_iff)
  qed
qed

lemma writer_job_route:
  assumes "job_route (node_ops f sha) method path room (Some w) read m now ts = (Some (st, body), ts')"
    and "st < 300" "w_id w \<noteq> []"
  shows "\<exists>i. path = ''/task-jobs/'' @ i \<and> method \<in> {''GET'', ''PUT'', ''DELETE''} \<and> own_job_only w room i now ts ts' body"
proof -
  obtain i a where i: "job_path path = Some (Some i, a)"
    using assms(1,2) by (auto simp: job_route_def split: option.splits if_splits)
  then have m: "a = None" "method \<in> {''GET'', ''PUT'', ''DELETE''}"
    using assms(1,2) by (auto simp: job_route_def split: option.splits if_splits prod.splits)
  obtain e ts1 where g: "node_getPublic ts room i now True = (e, ts1)" by (cases "node_getPublic ts room i now True")
  have ts1: "ts1 = expireQueued ts room now" "e = map_option (\<lambda>x. publicJob (stripped x)) (jm_get ts1 (room, i))"
    using node_get_spec [OF g] by auto
  have run: "job_method (node_ops f sha) method room (Some i) None (Some w) read m now ts1 = (Some (st, body), ts')"
    and ok: "method \<noteq> ''PUT'' \<or> e \<noteq> None \<Longrightarrow> \<exists>p. e = Some p \<and> pj_writerId p = Some (w_id w)"
    using assms(1,2) i m g by (auto simp: job_route_def node_ops_def split: if_splits option.splits)
  have "\<forall>r. jm_get ts1 (room, i) = Some r \<longrightarrow> j_writerId r = Some (w_id w)"
    using ok ts1(2) by (auto dest!: publicJob_writer)
  moreover have "method \<noteq> ''PUT'' \<Longrightarrow> jm_get ts1 (room, i) \<noteq> None" using ok ts1(2) by auto
  ultimately show ?thesis
    using writer_job_method [OF run assms(2) m(2) assms(3) ts1(1)] job_path_plain i m by blast
qed

lemma resource_read_only: "snd (writer_resources f room i None now s) = s"
  by (auto simp: writer_resources_def split: option.splits)

section \<open>Properties\<close>

text \<open>C7: A writer stays within its grant. A request without the room credential is served only with a
  writer credential whose token has the granted digest and, but for reading back the outcome of a job,
  whose grant is neither revoked nor expired. What it then reaches is one of two things: the fresh
  resource report of its own id, read; or one job by its id, read, submitted or cancelled, and that job
  is its own: no other job is shown or changed (beyond the expiry of queued jobs), and a job it creates
  is addressed to the granted recipient and ends with the grant. Grants and configurations stay as they are.\<close>

theorem writer_scope:
  assumes run: "taskDispatchResponse (node_ops stringify sha) node_commit stringify sha method path (Some room) False
      credential read metadataOnly now s = (Some (status, body), s')"
    and ok: "status < 300" and grants: "writers_ok (ds_writers s)"
  shows "\<exists>w token. credential = ''writer:'' @ w_id w @ '':'' @ token \<and> utf16_codes (sha token) = utf16_codes (w_tokenHash w)
     \<and> jm_get (wt_rows (ds_writers s)) (room, w_id w) = Some w
     \<and> (if method = ''GET'' \<and> metadataOnly then now < writerRetainedUntil w \<or> (w_revokedAt w = None \<and> now < w_expiresAt w)
        else w_revokedAt w = None \<and> now < w_expiresAt w)
     \<and> ds_writers s' = ds_writers s \<and> ds_configurations s' = ds_configurations s
     \<and> (path = ''/task-resources/'' @ w_id w \<and> method = ''GET'' \<and> ds_jobs s' = ds_jobs s
        \<or> (\<exists>i. path = ''/task-jobs/'' @ i \<and> method \<in> {''GET'', ''PUT'', ''DELETE''}
             \<and> own_job_only w room i now (ds_jobs s) (ds_jobs s') body))"
proof -
  let ?ret = "method = ''GET'' \<and> metadataOnly \<and> id_path ''/task-jobs/'' path \<noteq> None"
  obtain w where w: "writer_authorize sha room credential now ?ret (ds_writers s) = Some w"
    using run ok by (cases "writer_authorize sha room credential now ?ret (ds_writers s)")
      (auto simp: taskDispatchResponse_def Let_def split: if_splits)
  obtain token where t: "credential = ''writer:'' @ w_id w @ '':'' @ token" "utf16_codes (sha token) = utf16_codes (w_tokenHash w)" "w_id w \<noteq> []"
    "jm_get (wt_rows (ds_writers s)) (room, w_id w) = Some w"
    "if ?ret then now < writerRetainedUntil w else w_revokedAt w = None \<and> now < w_expiresAt w"
    using writer_authorized [OF w grants] by blast
  have life: "if method = ''GET'' \<and> metadataOnly then now < writerRetainedUntil w \<or> (w_revokedAt w = None \<and> now < w_expiresAt w)
        else w_revokedAt w = None \<and> now < w_expiresAt w" using t(5) by (auto split: if_splits)
  have plain: "configuration_path path = None"
    using run ok w by (auto simp: taskDispatchResponse_def configuration_route_def Let_def split: if_splits option.splits)
  have "ds_writers s' = ds_writers s \<and> ds_configurations s' = ds_configurations s
     \<and> (path = ''/task-resources/'' @ w_id w \<and> method = ''GET'' \<and> ds_jobs s' = ds_jobs s
        \<or> (\<exists>i. path = ''/task-jobs/'' @ i \<and> method \<in> {''GET'', ''PUT'', ''DELETE''}
             \<and> own_job_only w room i now (ds_jobs s) (ds_jobs s') body))"
  proof (cases "id_path ''/task-resources/'' path")
    case (Some i)
    have r: "resource_route stringify method room i (Some w) read now s = (Some (status, body), s')"
      using run ok w plain Some by (auto simp: taskDispatchResponse_def Let_def split: if_splits)
    then have "i = w_id w" "method = ''GET''" using ok by (auto simp: resource_route_def split: if_splits)
    then show ?thesis using r id_path_append [OF Some] resource_read_only [of stringify room i now "ds_writers s"]
      by (auto simp: resource_route_def split: prod.splits)
  next
    case None
    then have "id_path ''/task-job-writers/'' path = None"
      using run ok w plain by (auto simp: taskDispatchResponse_def writer_route_def Let_def split: if_splits option.splits)
    then obtain jobs where j: "job_route (node_ops stringify sha) method path room (Some w) read metadataOnly now (ds_jobs s)
        = (Some (status, body), jobs)" "s' = s\<lparr>ds_jobs := jobs\<rparr>"
      using run ok w plain None by (auto simp: taskDispatchResponse_def Let_def split: if_splits prod.splits)
    then show ?thesis using writer_job_route [OF j(1) ok t(3)] by simp
  qed
  then show ?thesis using t life by blast
qed

section \<open>Witnesses\<close>

definition sample_dispatch :: "task_table dispatch_state" where
  "sample_dispatch = \<lparr>
     ds_jobs = [((''00112233445566aa'', ''job-0001''), sample_accepted\<lparr>j_writerId := Some ''writer-01''\<rparr>)],
     ds_writers = \<lparr>wt_rows = [((''00112233445566aa'', ''writer-01''), sample_writer)], wt_resources = []\<rparr>,
     ds_configurations = []\<rparr>"

lemma sample_writer_id: "w_id sample_writer = ''writer-01''"
  by (simp add: sample_writer_def)

lemma sample_read:
  "taskDispatchResponse (node_ops (\<lambda>_. []) (\<lambda>s. s)) node_commit (\<lambda>_. []) (\<lambda>s. s) ''GET'' ''/task-jobs/job-0001''
     (Some ''00112233445566aa'') False (''writer:writer-01:'' @ replicate 64 CHR ''a'') (\<lambda>_. None) False 1000 sample_dispatch
   = (Some (200, D_job (publicJob (sample_accepted\<lparr>j_writerId := Some ''writer-01''\<rparr>))), sample_dispatch)"
proof -
  have auth: "writer_authorize (\<lambda>s. s) ''00112233445566aa'' (''writer:writer-01:'' @ replicate 64 CHR ''a'') 1000 False
      (ds_writers sample_dispatch) = Some sample_writer"
    by (simp add: writer_authorize_def sample_dispatch_def writer_credential_def starts_with_def is_hex64_def hex_char_def
        char_between_def class_repeat_def id_char_def alnum_char_def Let_def jm_get_def constantTimeEqual_iff)
      (simp add: sample_writer_def constantTimeEqual_iff)
  have paths: "configuration_path ''/task-jobs/job-0001'' = None" "id_path ''/task-resources/'' ''/task-jobs/job-0001'' = None"
    "id_path ''/task-job-writers/'' ''/task-jobs/job-0001'' = None" "job_path ''/task-jobs/job-0001'' = Some (Some ''job-0001'', None)"
    "job_id_shape ''job-0001''" "validRoom (JStr ''00112233445566aa'')"
    by (simp_all add: configuration_path_def id_path_def job_path_def path_tail_def starts_with_def class_repeat_def
        id_char_def alnum_char_def char_between_def hex_char_def)
  have same: "node_getPublic (ds_jobs sample_dispatch) ''00112233445566aa'' ''job-0001'' 1000 b
      = (Some (publicJob (if b then stripped (sample_accepted\<lparr>j_writerId := Some ''writer-01''\<rparr>)
                          else sample_accepted\<lparr>j_writerId := Some ''writer-01''\<rparr>)), ds_jobs sample_dispatch)" for b
    by (simp add: node_getPublic_def expireQueued_def expireJob_def sample_dispatch_def jm_get_def Let_def)
  show ?thesis
    using auth paths same publicJob_writer_iff [of "''writer-01''" "stripped (sample_accepted\<lparr>j_writerId := Some ''writer-01''\<rparr>)"]
    by (simp add: sample_writer_id taskDispatchResponse_def job_route_def job_method_def node_ops_def Let_def)
qed

theorem writer_scope_witness:
  "\<exists>w i. ''/task-jobs/job-0001'' = ''/task-jobs/'' @ i \<and> own_job_only w ''00112233445566aa'' i 1000 (ds_jobs sample_dispatch)
     (ds_jobs sample_dispatch) (D_job (publicJob (sample_accepted\<lparr>j_writerId := Some ''writer-01''\<rparr>)))"
proof -
  have "writers_ok (ds_writers sample_dispatch)"
    by (auto simp: sample_dispatch_def writers_ok_def jm_wf_def jm_get_def room_rows_def relay_limits sample_writer_def)
  from writer_scope [OF sample_read _ this] show ?thesis by auto
qed

end
