(* ===== verification/Socket_Delivery.thy ===== *)
theory Socket_Delivery
  imports Relay_Validation
begin

text \<open>
  Sending to the sockets of the Node relay: the bounded number of bytes in flight
  (\<open>src/node/socketDelivery\<close>), the single-use allowance of a delivery for one acknowledgement beyond
  the frame window (\<open>src/responseAcknowledgements\<close>), the replay of stored frames
  (\<open>src/retainedState/socketReplay.js\<close>) and the heartbeat (\<open>src/node/heartbeat.js\<close>). Shows: the bytes
  counted are those in flight and never exceed their bound, every allowance is used at most once,
  and a socket is terminated exactly when it was silent from one sweep to the next.

  Sockets are numbered. \<open>parse\<close> stands for \<open>JSON.parse\<close> (\<open>None\<close> when it throws).
\<close>

section \<open>Acknowledgement allowances\<close>

definition MAX_OUTSTANDING :: nat where "MAX_OUTSTANDING = 512"
definition LIFETIME_MS :: int where "LIFETIME_MS = 30000"
definition MAX_ACK_BYTES :: nat where "MAX_ACK_BYTES = 1536"

lemmas [relay_limits] = MAX_OUTSTANDING_def LIFETIME_MS_def MAX_ACK_BYTES_def

type_synonym allowances = "nat \<rightharpoonup> (string, time) jmap"

definition issue :: "allowances \<Rightarrow> nat \<Rightarrow> js \<Rightarrow> time \<Rightarrow> allowances" where
  "issue acks socket deliveryId now =
     (if \<not> validIdentifier deliveryId 180 then acks
      else let d = str_of deliveryId;
               pending = jm_set (jm_delete (case acks socket of None \<Rightarrow> [] | Some p \<Rightarrow> p) d) d (now + LIFETIME_MS)
        in acks(socket \<mapsto> if length pending > MAX_OUTSTANDING then tl pending else pending))"

definition consume :: "(string \<Rightarrow> js option) \<Rightarrow> allowances \<Rightarrow> nat \<Rightarrow> string \<Rightarrow> time \<Rightarrow> bool \<times> allowances" where
  "consume parse acks socket raw now =
     (if byteLength raw > MAX_ACK_BYTES then (False, acks)
      else case parse raw of
          None \<Rightarrow> (False, acks)
        | Some frame \<Rightarrow>
            if field ''type'' frame \<noteq> JStr ''relay.ack'' \<or> \<not> validIdentifier (field ''deliveryId'' frame) 180
               \<or> length (object_keys frame) \<noteq> 2 then (False, acks)
            else (case acks socket of
                None \<Rightarrow> (False, acks)
              | Some pending \<Rightarrow> (case jm_get pending (str_of (field ''deliveryId'' frame)) of
                  None \<Rightarrow> (False, acks)
                | Some expiresAt \<Rightarrow>
                    (expiresAt > now, acks(socket \<mapsto> jm_delete pending (str_of (field ''deliveryId'' frame)))))))"

section \<open>Bytes in flight\<close>

definition MAX_BUFFERED_BYTES :: nat where "MAX_BUFFERED_BYTES = 4194304"
definition MAX_PENDING_BYTES :: int where "MAX_PENDING_BYTES = 67108864"

lemmas [relay_limits] = MAX_BUFFERED_BYTES_def MAX_PENDING_BYTES_def

text \<open>A frame handed to a socket whose \<open>release\<close> has not run, under a number of its own.\<close>

record flight =
  fl_id :: nat
  fl_socket :: nat
  fl_bytes :: nat

record delivery =
  dl_pendingBytes :: int
  dl_flights :: "flight list"
  dl_next :: nat
  dl_responses :: allowances

text \<open>What a socket shows to \<open>send\<close>: whether it is open, its buffered bytes, and whether \<open>send\<close> throws.\<close>

record socket_view =
  sv_open :: bool
  sv_buffered :: nat
  sv_throws :: bool

datatype send_result = Send_closed | Send_backpressure | Send_sent | Send_failed

definition release :: "nat \<Rightarrow> delivery \<Rightarrow> delivery" where
  "release i d = (case find (\<lambda>f. fl_id f = i) (dl_flights d) of
       None \<Rightarrow> d
     | Some f \<Rightarrow> d\<lparr>dl_pendingBytes := dl_pendingBytes d - int (fl_bytes f),
         dl_flights := filter (\<lambda>g. fl_id g \<noteq> i) (dl_flights d)\<rparr>)"

text \<open>\<open>send\<close>: backpressure closes the socket with 1013, a throwing socket is terminated.\<close>

definition socket_send :: "delivery \<Rightarrow> nat \<Rightarrow> socket_view \<Rightarrow> string \<Rightarrow> js \<Rightarrow> time \<Rightarrow> send_result \<times> delivery" where
  "socket_send d socket v raw deliveryId now =
     (if \<not> sv_open v then (Send_closed, d)
      else let bytes = byteLength raw; buffered = sv_buffered v in
        if buffered > 0 \<and> buffered + bytes > max MAX_BUFFERED_BYTES bytes
           \<or> dl_pendingBytes d + int bytes > MAX_PENDING_BYTES then (Send_backpressure, d)
        else let d1 = d\<lparr>dl_pendingBytes := dl_pendingBytes d + int bytes,
                   dl_flights := dl_flights d @ [\<lparr>fl_id = dl_next d, fl_socket = socket, fl_bytes = bytes\<rparr>],
                   dl_next := Suc (dl_next d), dl_responses := issue (dl_responses d) socket deliveryId now\<rparr>
          in if sv_throws v then (Send_failed, release (dl_next d) d1) else (Send_sent, d1))"

text \<open>The close listener of a socket releases all of its flights.\<close>

definition socket_closed :: "nat \<Rightarrow> delivery \<Rightarrow> delivery" where
  "socket_closed socket d = fold release (map fl_id (filter (\<lambda>f. fl_socket f = socket) (dl_flights d))) d"

section \<open>Replay\<close>

text \<open>\<open>replayNodeFrames\<close>: rows are sent one after the other until the socket is closed or a send fails;
  \<open>outcome\<close> says whether the socket is open before the \<open>n\<close>-th send and whether it succeeds. The frames
  that were sent, each with the delivery id its allowance is issued for.\<close>

fun replayNodeFrames ::
  "(string \<Rightarrow> js option) \<Rightarrow> (nat \<Rightarrow> bool \<times> bool) \<Rightarrow> nat \<Rightarrow> (string \<times> string option) list \<Rightarrow> (string \<times> js) list" where
  "replayNodeFrames parse outcome n [] = []"
| "replayNodeFrames parse outcome n ((raw, deliveryId) # rows) =
     (if \<not> fst (outcome n) \<or> \<not> snd (outcome n) then []
      else (raw, case deliveryId of
              Some d \<Rightarrow> JStr d
            | None \<Rightarrow> (case parse raw of None \<Rightarrow> JUndefined | Some v \<Rightarrow> field ''deliveryId'' v))
           # replayNodeFrames parse outcome (Suc n) rows)"

section \<open>Heartbeat\<close>

definition HEARTBEAT_INTERVAL_MS :: int where "HEARTBEAT_INTERVAL_MS = 30000"
definition MIN_INTERVAL_MS :: int where "MIN_INTERVAL_MS = 1000"
definition MAX_INTERVAL_MS :: int where "MAX_INTERVAL_MS = 120000"

lemmas [relay_limits] = HEARTBEAT_INTERVAL_MS_def MIN_INTERVAL_MS_def MAX_INTERVAL_MS_def

text \<open>\<open>number\<close> is the conversion \<open>Number\<close> of a string; the result 0 disables the heartbeat.\<close>

definition heartbeatIntervalFrom :: "(string \<Rightarrow> js) \<Rightarrow> string option \<Rightarrow> int" where
  "heartbeatIntervalFrom number v = (case v of
       None \<Rightarrow> HEARTBEAT_INTERVAL_MS
     | Some s \<Rightarrow>
         if s = [] then HEARTBEAT_INTERVAL_MS
         else let parsed = number s in
           if parsed = JInt 0 then 0
           else if isSafeInteger parsed \<and> num_of parsed \<ge> MIN_INTERVAL_MS \<and> num_of parsed \<le> MAX_INTERVAL_MS
             then num_of parsed else HEARTBEAT_INTERVAL_MS)"

record beat =
  hb_awaitingPong :: bool
  hb_terminated :: bool

type_synonym beats = "nat \<rightharpoonup> beat"

definition markAlive :: "nat \<Rightarrow> beats \<Rightarrow> beats" where
  "markAlive ws s = (case s ws of None \<Rightarrow> s | Some b \<Rightarrow> s(ws \<mapsto> b\<lparr>hb_awaitingPong := False\<rparr>))"

text \<open>\<open>heartbeatSweep\<close> on the connected sockets; \<open>pings ws\<close> is false when \<open>ws.ping()\<close> throws.\<close>

definition heartbeatSweep :: "(nat \<Rightarrow> bool) \<Rightarrow> beats \<Rightarrow> beats" where
  "heartbeatSweep pings s = (\<lambda>ws. case s ws of
       None \<Rightarrow> None
     | Some b \<Rightarrow> Some (if hb_awaitingPong b then b\<lparr>hb_terminated := True\<rparr>
         else if pings ws then b\<lparr>hb_awaitingPong := True\<rparr>
         else b\<lparr>hb_awaitingPong := True, hb_terminated := True\<rparr>))"

section \<open>Lemmas on allowances\<close>

definition pending_of :: "allowances \<Rightarrow> nat \<Rightarrow> (string, time) jmap" where
  "pending_of acks socket = (case acks socket of None \<Rightarrow> [] | Some p \<Rightarrow> p)"

definition allowances_ok :: "allowances \<Rightarrow> bool" where
  "allowances_ok acks \<longleftrightarrow> (\<forall>socket. jm_wf (pending_of acks socket) \<and> length (pending_of acks socket) \<le> MAX_OUTSTANDING)"

lemma pending_of_upd: "pending_of (acks(socket \<mapsto> p)) x = (if x = socket then p else pending_of acks x)"
  by (simp add: pending_of_def)

lemma jm_get_tl: "jm_wf m \<Longrightarrow> jm_get (tl m) k = (if m \<noteq> [] \<and> fst (hd m) = k then None else jm_get m k)"
  by (cases m) (auto simp: jm_get_def jm_wf_def map_of_eq_None_iff)

lemma jm_wf_tl: "jm_wf m \<Longrightarrow> jm_wf (tl m)"
  by (cases m) (auto simp: jm_wf_def)

lemma issue_pending:
  assumes "allowances_ok acks"
  shows "allowances_ok (issue acks socket v now)"
    "jm_get (pending_of (issue acks socket v now) s) k = Some e \<Longrightarrow>
       jm_get (pending_of acks s) k = Some e \<or> s = socket \<and> v = JStr k \<and> e = now + LIFETIME_MS"
proof -
  let ?p = "\<lambda>d. jm_set (jm_delete (pending_of acks socket) d) d (now + LIFETIME_MS)"
  have ok: "jm_wf (pending_of acks s)" "length (pending_of acks s) \<le> MAX_OUTSTANDING" for s
    using assms by (auto simp: allowances_ok_def)
  have wf: "jm_wf (?p d)" for d by (simp add: ok)
  have len: "length (?p d) - Suc 0 \<le> MAX_OUTSTANDING" for d
    using jm_length_delete_le [of "pending_of acks socket" d] ok(2) [of socket]
    by (simp add: jm_length_set)
  show "allowances_ok (issue acks socket v now)"
    using ok wf len by (cases v)
      (auto simp: allowances_ok_def issue_def pending_of_upd jm_wf_tl Let_def pending_of_def [symmetric])
  show "jm_get (pending_of acks s) k = Some e \<or> s = socket \<and> v = JStr k \<and> e = now + LIFETIME_MS"
    if "jm_get (pending_of (issue acks socket v now) s) k = Some e"
  proof (cases "validIdentifier v 180")
    case True
    then obtain d where "v = JStr d" by (cases v) auto
    with that True wf [of d] show ?thesis
      by (auto simp: issue_def pending_of_upd Let_def pending_of_def [symmetric] jm_get_tl split: if_splits)
  qed (use that in \<open>simp add: issue_def\<close>)
qed

definition ack_id :: "(string \<Rightarrow> js option) \<Rightarrow> string \<Rightarrow> string" where
  "ack_id parse raw = str_of (field ''deliveryId'' (the (parse raw)))"

lemma consume_cases:
  assumes "consume parse acks socket raw now = (ok, acks')"
  obtains (refused) "\<not> ok" "acks' = acks"
  | (used) e where "jm_get (pending_of acks socket) (ack_id parse raw) = Some e" "ok \<longleftrightarrow> now < e"
      "acks' = acks(socket \<mapsto> jm_delete (pending_of acks socket) (ack_id parse raw))"
proof -
  consider "consume parse acks socket raw now = (False, acks)"
    | frame pending e where "parse raw = Some frame" "acks socket = Some pending"
        "jm_get pending (str_of (field ''deliveryId'' frame)) = Some e"
        "consume parse acks socket raw now = (e > now, acks(socket \<mapsto> jm_delete pending (str_of (field ''deliveryId'' frame))))"
  proof (cases "parse raw = None \<or> acks socket = None
      \<or> jm_get (pending_of acks socket) (ack_id parse raw) = None
      \<or> MAX_ACK_BYTES < byteLength raw \<or> field ''type'' (the (parse raw)) \<noteq> JStr ''relay.ack''
      \<or> \<not> validIdentifier (field ''deliveryId'' (the (parse raw))) 180 \<or> length (object_keys (the (parse raw))) \<noteq> 2")
    case True
    then show ?thesis by (intro that(1)) (auto simp: consume_def pending_of_def ack_id_def split: option.split)
  next
    case False
    then obtain frame pending e where "parse raw = Some frame" "acks socket = Some pending"
      "jm_get (pending_of acks socket) (ack_id parse raw) = Some e" by auto
    with False show ?thesis by (intro that(2) [of frame pending e]) (simp_all add: consume_def pending_of_def ack_id_def)
  qed
  then show ?thesis
  proof cases
    case 1
    then show ?thesis using assms refused by simp
  next
    case 2
    then show ?thesis using assms used by (simp add: ack_id_def pending_of_def)
  qed
qed

lemma consume_props:
  assumes "consume parse acks socket raw now = (ok, acks')"
  shows "allowances_ok acks \<Longrightarrow> allowances_ok acks'"
    "jm_get (pending_of acks' s) k = Some e \<Longrightarrow> jm_get (pending_of acks s) k = Some e"
    "ok \<Longrightarrow> jm_get (pending_of acks' socket) (ack_id parse raw) = None"
    "ok \<Longrightarrow> \<exists>e. jm_get (pending_of acks socket) (ack_id parse raw) = Some e \<and> now < e"
  using assms
  by (cases rule: consume_cases; auto simp: allowances_ok_def pending_of_upd split: if_splits
      intro: le_trans [OF jm_length_delete_le])+

datatype ack_event = Issued nat js time | Presented nat string time

text \<open>The acknowledgements that passed on an allowance: socket, delivery id and time.\<close>

fun ack_run :: "(string \<Rightarrow> js option) \<Rightarrow> ack_event list \<Rightarrow> allowances \<Rightarrow> (nat \<times> string \<times> time) list \<times> allowances" where
  "ack_run parse [] acks = ([], acks)"
| "ack_run parse (Issued socket v now # es) acks = ack_run parse es (issue acks socket v now)"
| "ack_run parse (Presented socket raw now # es) acks = (case consume parse acks socket raw now of (ok, acks1) \<Rightarrow>
     (case ack_run parse es acks1 of (passed, acks2) \<Rightarrow>
       (if ok then (socket, ack_id parse raw, now) # passed else passed, acks2)))"

definition issues :: "nat \<Rightarrow> string \<Rightarrow> ack_event list \<Rightarrow> nat" where
  "issues socket k es = length (filter (\<lambda>e. case e of Issued s v t \<Rightarrow> s = socket \<and> v = JStr k | Presented s r t \<Rightarrow> False) es)"

definition passes :: "nat \<Rightarrow> string \<Rightarrow> (nat \<times> string \<times> time) list \<Rightarrow> nat" where
  "passes socket k ps = length (filter (\<lambda>p. fst p = socket \<and> fst (snd p) = k) ps)"

lemma ack_run_ok: "allowances_ok acks \<Longrightarrow> allowances_ok (snd (ack_run parse es acks))"
  by (induction parse es acks rule: ack_run.induct) (auto simp: issue_pending consume_props split: prod.splits)

lemma ack_run_single_use:
  "allowances_ok acks \<Longrightarrow> passes s k (fst (ack_run parse es acks))
     \<le> issues s k es + (if jm_get (pending_of acks s) k = None then 0 else 1)"
proof (induction parse es acks rule: ack_run.induct)
  case (2 parse socket v now es acks)
  have "jm_get (pending_of (issue acks socket v now) s) k = None
      \<or> jm_get (pending_of acks s) k \<noteq> None \<or> s = socket \<and> v = JStr k"
    using issue_pending(2) [OF 2(2), of socket v now s k] by auto
  then show ?case using 2(1) [OF issue_pending(1) [OF 2(2)]] by (auto simp: issues_def split: if_splits)
next
  case (3 parse socket raw now es acks)
  obtain ok acks1 where c: "consume parse acks socket raw now = (ok, acks1)" by fastforce
  obtain ps acks2 where r: "ack_run parse es acks1 = (ps, acks2)" by fastforce
  have ih: "passes s k ps \<le> issues s k es + (if jm_get (pending_of acks1 s) k = None then 0 else 1)"
    using 3(1) [OF c [symmetric] consume_props(1) [OF c 3(2)]] r by simp
  have same: "issues s k (Presented socket raw now # es) = issues s k es" by (simp add: issues_def)
  have less: "jm_get (pending_of acks s) k = None \<Longrightarrow> jm_get (pending_of acks1 s) k = None"
    using consume_props(2) [OF c, of s k] by (cases "jm_get (pending_of acks1 s) k") auto
  show ?case
  proof (cases "ok \<and> socket = s \<and> ack_id parse raw = k")
    case True
    then have "jm_get (pending_of acks1 s) k = None" "jm_get (pending_of acks s) k \<noteq> None"
      using consume_props(3,4) [OF c] by auto
    then show ?thesis using True ih c r same by (auto simp: passes_def)
  next
    case False
    then show ?thesis using ih c r same less by (auto simp: passes_def split: if_splits)
  qed
qed (simp add: passes_def issues_def)

lemma ack_run_fresh:
  "allowances_ok acks \<Longrightarrow> (s, k, now) \<in> set (fst (ack_run parse es acks)) \<Longrightarrow>
     (\<exists>t. Issued s (JStr k) t \<in> set es \<and> now < t + LIFETIME_MS) \<or> (\<exists>e. jm_get (pending_of acks s) k = Some e \<and> now < e)"
proof (induction parse es acks rule: ack_run.induct)
  case (2 parse socket v t es acks)
  from 2(1) [OF issue_pending(1) [OF 2(2)]] 2(3) issue_pending(2) [OF 2(2), of socket v t s k]
  show ?case by fastforce
next
  case (3 parse socket raw t es acks)
  obtain ok acks1 where c: "consume parse acks socket raw t = (ok, acks1)" by fastforce
  obtain ps acks2 where r: "ack_run parse es acks1 = (ps, acks2)" by fastforce
  consider "(s, k, now) \<in> set ps" | "ok" "s = socket" "k = ack_id parse raw" "now = t"
    using 3(3) c r by (auto split: if_splits)
  then show ?case
  proof cases
    case 1
    then show ?thesis using 3(1) [OF c [symmetric] consume_props(1) [OF c 3(2)]] r consume_props(2) [OF c, of s k] by fastforce
  next
    case 2
    then show ?thesis using consume_props(4) [OF c] by auto
  qed
qed simp

section \<open>Lemmas on flights\<close>

definition delivery_ok :: "delivery \<Rightarrow> bool" where
  "delivery_ok d \<longleftrightarrow> dl_pendingBytes d = int (sum_list (map fl_bytes (dl_flights d)))
     \<and> distinct (map fl_id (dl_flights d)) \<and> (\<forall>f\<in>set (dl_flights d). fl_id f < dl_next d)
     \<and> dl_pendingBytes d \<le> MAX_PENDING_BYTES"

lemma sum_list_remove_one:
  assumes "distinct (map fl_id fs)" "f \<in> set fs"
  shows "sum_list (map fl_bytes fs) = fl_bytes f + sum_list (map fl_bytes (filter (\<lambda>g. fl_id g \<noteq> fl_id f) fs))"
  using assms
proof (induction fs)
  case (Cons g fs)
  show ?case
  proof (cases "f = g")
    case True
    then have "filter (\<lambda>h. fl_id h \<noteq> fl_id f) fs = fs" using Cons.prems(1) by (auto simp: filter_id_conv image_iff)
    then show ?thesis using True by simp
  next
    case False
    then have "fl_id g \<noteq> fl_id f" using Cons.prems by force
    then show ?thesis using False Cons by simp
  qed
qed simp

lemma release_flights: "dl_flights (release i d) = filter (\<lambda>g. fl_id g \<noteq> i) (dl_flights d)"
  by (auto simp: release_def find_None_iff intro!: filter_True [symmetric] split: option.splits)

lemma release_ok: "delivery_ok d \<Longrightarrow> delivery_ok (release i d)"
proof (cases "find (\<lambda>f. fl_id f = i) (dl_flights d)")
  case (Some f)
  assume ok: "delivery_ok d"
  have f: "f \<in> set (dl_flights d)" "fl_id f = i" using Some by (auto simp: find_Some_iff)
  have "sum_list (map fl_bytes (dl_flights d)) = fl_bytes f + sum_list (map fl_bytes (filter (\<lambda>g. fl_id g \<noteq> i) (dl_flights d)))"
    using sum_list_remove_one [of "dl_flights d" f] ok f by (simp add: delivery_ok_def)
  then show ?thesis using ok Some by (auto simp: delivery_ok_def release_def distinct_map_filter)
qed (simp add: release_def)

lemma fold_release:
  "delivery_ok d \<Longrightarrow> delivery_ok (fold release is d)"
  "dl_flights (fold release is d) = filter (\<lambda>g. fl_id g \<notin> set is) (dl_flights d)"
  by (induction "is" arbitrary: d) (auto simp: release_ok release_flights intro!: filter_cong)


lemma socket_send_ok:
  assumes "delivery_ok d"
  shows "delivery_ok (snd (socket_send d socket v raw i now))"
proof -
  let ?d = "d\<lparr>dl_pendingBytes := dl_pendingBytes d + int (byteLength raw),
      dl_flights := dl_flights d @ [\<lparr>fl_id = dl_next d, fl_socket = socket, fl_bytes = byteLength raw\<rparr>],
      dl_next := Suc (dl_next d), dl_responses := issue (dl_responses d) socket i now\<rparr>"
  have "delivery_ok ?d" if "dl_pendingBytes d + int (byteLength raw) \<le> MAX_PENDING_BYTES"
    using assms that by (force simp: delivery_ok_def)
  then show ?thesis using assms release_ok by (auto simp: socket_send_def Let_def)
qed

lemma socket_send_sent:
  "socket_send d socket v raw i now = (Send_sent, d') \<Longrightarrow> sv_open v
     \<and> (sv_buffered v = 0 \<or> sv_buffered v + byteLength raw \<le> MAX_BUFFERED_BYTES)
     \<and> dl_flights d' = dl_flights d @ [\<lparr>fl_id = dl_next d, fl_socket = socket, fl_bytes = byteLength raw\<rparr>]"
  by (auto simp: socket_send_def Let_def split: if_splits)

lemma socket_send_unsent:
  "socket_send d socket v raw i now = (r, d') \<Longrightarrow> r \<noteq> Send_sent \<Longrightarrow> \<forall>f\<in>set (dl_flights d). fl_id f < dl_next d \<Longrightarrow>
     dl_flights d' = dl_flights d"
  by (auto simp: socket_send_def Let_def release_flights filter_id_conv split: if_splits) (auto dest!: bspec)

lemma socket_closed_flights: "dl_flights (socket_closed socket d) = filter (\<lambda>f. fl_socket f \<noteq> socket) (dl_flights d)"
  if "delivery_ok d"
proof -
  have "f = g" if "f \<in> set (dl_flights d)" "g \<in> set (dl_flights d)" "fl_id f = fl_id g" for f g
    using \<open>delivery_ok d\<close> that by (auto simp: delivery_ok_def distinct_map dest: inj_onD)
  then show ?thesis unfolding socket_closed_def fold_release by (intro filter_cong [OF refl]) fastforce
qed

datatype delivery_event =
    Deliver nat socket_view string js time
  | Completed nat
  | Socket_close nat

primrec deliver :: "delivery_event \<Rightarrow> delivery \<Rightarrow> delivery" where
  "deliver (Deliver socket v raw i now) d = snd (socket_send d socket v raw i now)"
| "deliver (Completed i) d = release i d"
| "deliver (Socket_close socket) d = socket_closed socket d"

definition createSocketDelivery :: delivery where
  "createSocketDelivery = \<lparr>dl_pendingBytes = 0, dl_flights = [], dl_next = 0, dl_responses = Map.empty\<rparr>"

lemma deliver_ok: "delivery_ok d \<Longrightarrow> delivery_ok (fold deliver es d)"
proof (induction es arbitrary: d)
  case (Cons e es)
  then have "delivery_ok (deliver e d)"
    by (cases e) (simp_all add: socket_send_ok release_ok socket_closed_def fold_release)
  then show ?case using Cons.IH by simp
qed simp

lemma closing_all:
  "delivery_ok d \<Longrightarrow> fl_socket ` set (dl_flights d) \<subseteq> set sockets \<Longrightarrow> dl_flights (fold socket_closed sockets d) = []"
proof (induction sockets arbitrary: d)
  case (Cons s sockets)
  have "delivery_ok (socket_closed s d)" using Cons.prems(1) by (simp add: socket_closed_def fold_release)
  moreover have "fl_socket ` set (dl_flights (socket_closed s d)) \<subseteq> set sockets"
    using Cons.prems by (auto simp: socket_closed_flights)
  ultimately show ?case using Cons.IH by simp
qed simp

section \<open>Lemmas on the heartbeat\<close>

datatype beat_event = Sweep "nat \<Rightarrow> bool" | Heard nat

primrec beat_step :: "beat_event \<Rightarrow> beats \<Rightarrow> beats" where
  "beat_step (Sweep pings) s = heartbeatSweep pings s"
| "beat_step (Heard ws) s = markAlive ws s"

text \<open>A sweep with no sign of life after it, and one with none until the next sweep.\<close>

definition unanswered :: "nat \<Rightarrow> beat_event list \<Rightarrow> bool" where
  "unanswered ws es \<longleftrightarrow> (\<exists>xs p ys. es = xs @ Sweep p # ys \<and> Heard ws \<notin> set ys)"

definition silent :: "nat \<Rightarrow> beat_event list \<Rightarrow> bool" where
  "silent ws es \<longleftrightarrow> (\<exists>xs p ys q zs. es = xs @ Sweep p # ys @ Sweep q # zs \<and> Heard ws \<notin> set ys)"

lemma unanswered_snoc:
  "\<not> unanswered ws []" "unanswered ws (es @ [Sweep p])"
  "unanswered ws (es @ [Heard i]) \<longleftrightarrow> i \<noteq> ws \<and> unanswered ws es"
proof -
  show "unanswered ws (es @ [Heard i]) \<longleftrightarrow> i \<noteq> ws \<and> unanswered ws es"
  proof
    assume "unanswered ws (es @ [Heard i])"
    then obtain xs p ys where *: "es @ [Heard i] = xs @ Sweep p # ys" "Heard ws \<notin> set ys" by (auto simp: unanswered_def)
    then obtain ys' where "ys = ys' @ [Heard i]" by (cases ys rule: rev_cases) auto
    then show "i \<noteq> ws \<and> unanswered ws es" using * by (auto simp: unanswered_def)
  next
    assume "i \<noteq> ws \<and> unanswered ws es"
    then show "unanswered ws (es @ [Heard i])" by (force simp: unanswered_def)
  qed
  show "unanswered ws (es @ [Sweep p])" unfolding unanswered_def by (intro exI [of _ es] exI [of _ p] exI [of _ "[]"]) simp
qed (simp add: unanswered_def)

lemma silent_snoc:
  "\<not> silent ws []" "silent ws (es @ [Heard i]) \<longleftrightarrow> silent ws es"
  "silent ws (es @ [Sweep p]) \<longleftrightarrow> silent ws es \<or> unanswered ws es"
proof -
  have iff: "silent ws (es @ [x]) \<longleftrightarrow> silent ws es \<or> (\<exists>q. x = Sweep q) \<and> unanswered ws es" for x
  proof
    assume "silent ws (es @ [x])"
    then obtain xs p ys q zs where *: "es @ [x] = (xs @ Sweep p # ys) @ Sweep q # zs" "Heard ws \<notin> set ys"
      by (auto simp: silent_def)
    show "silent ws es \<or> (\<exists>q. x = Sweep q) \<and> unanswered ws es"
    proof (cases zs rule: rev_cases)
      case Nil
      then show ?thesis using * by (auto simp: unanswered_def)
    next
      case (snoc zs' z)
      then have "es = xs @ Sweep p # ys @ Sweep q # zs'" using *(1) by simp
      then show ?thesis using *(2) unfolding silent_def by blast
    qed
  next
    assume "silent ws es \<or> (\<exists>q. x = Sweep q) \<and> unanswered ws es"
    then show "silent ws (es @ [x])"
      by (elim disjE conjE exE) (force simp: silent_def unanswered_def)+
  qed
  show "silent ws (es @ [Heard i]) \<longleftrightarrow> silent ws es" "silent ws (es @ [Sweep p]) \<longleftrightarrow> silent ws es \<or> unanswered ws es"
    using iff by simp_all
qed (simp add: silent_def)

definition fresh_beat :: beat where
  "fresh_beat = \<lparr>hb_awaitingPong = False, hb_terminated = False\<rparr>"

lemma beat_run:
  assumes "s ws = Some fresh_beat"
  shows "fold beat_step es s ws = Some \<lparr>hb_awaitingPong = unanswered ws es,
     hb_terminated = (silent ws es \<or> (\<exists>p. Sweep p \<in> set es \<and> \<not> p ws))\<rparr>"
proof (induction es rule: rev_induct)
  case (snoc e es)
  then show ?case
    by (cases e) (auto simp: heartbeatSweep_def markAlive_def unanswered_snoc silent_snoc split: option.splits)
qed (simp add: assms fresh_beat_def unanswered_snoc silent_snoc)

lemma heartbeatIntervalFrom_bounds: "heartbeatIntervalFrom number v \<in> insert 0 {1000..120000}"
  by (auto simp: heartbeatIntervalFrom_def relay_limits Let_def split: option.splits)

section \<open>Properties\<close>

text \<open>Every delivery allows one acknowledgement beyond the frame window, at most once and within 30
  seconds: on each socket and for each delivery id at most as many acknowledgements pass as frames with
  that id were sent to it, each of them within 30 seconds of one, and at most 512 are outstanding.\<close>

theorem acknowledgement_single_use:
  "passes socket k (fst (ack_run parse events Map.empty)) \<le> issues socket k events
   \<and> (\<forall>now. (socket, k, now) \<in> set (fst (ack_run parse events Map.empty)) \<longrightarrow>
        (\<exists>t. Issued socket (JStr k) t \<in> set events \<and> now < t + 30000))
   \<and> length (pending_of (snd (ack_run parse events Map.empty)) socket) \<le> 512"
proof -
  have ok: "allowances_ok Map.empty" by (simp add: allowances_ok_def pending_of_def)
  show ?thesis
    using ack_run_single_use [OF ok, of socket k parse events] ack_run_fresh [OF ok, of socket k _ parse events]
      ack_run_ok [OF ok, of parse events]
    by (auto simp: pending_of_def allowances_ok_def relay_limits)
qed

text \<open>C32: The bytes waiting for slow receivers are bounded and accounted for exactly. After any sends,
  completions (in any order, repeated or for frames already released) and closes, the counter is the sum
  of the frames whose send has not completed, at most 64 MiB; a frame is handed to a socket only when its
  buffer is empty or stays within 4 MiB; and once the sockets with frames in flight are closed the
  counter is zero.\<close>

theorem bytes_in_flight:
  assumes "d = fold deliver events createSocketDelivery"
  shows "dl_pendingBytes d = int (sum_list (map fl_bytes (dl_flights d))) \<and> dl_pendingBytes d \<le> 67108864
   \<and> (\<forall>v raw i now d'. socket_send d socket v raw i now = (Send_sent, d') \<longrightarrow>
        sv_buffered v = 0 \<or> sv_buffered v + byteLength raw \<le> 4194304)
   \<and> (fl_socket ` set (dl_flights d) \<subseteq> set sockets \<longrightarrow> dl_pendingBytes (fold socket_closed sockets d) = 0)"
proof -
  have ok: "delivery_ok d"
    unfolding assms by (rule deliver_ok) (simp add: delivery_ok_def createSocketDelivery_def relay_limits)
  have "delivery_ok (fold socket_closed sockets d)"
    using deliver_ok [OF ok, of "map Socket_close sockets"]
    by (simp add: fold_map comp_def deliver.simps(3) [abs_def])
  then have "fl_socket ` set (dl_flights d) \<subseteq> set sockets \<Longrightarrow> dl_pendingBytes (fold socket_closed sockets d) = 0"
    using closing_all [OF ok, of sockets] by (simp add: delivery_ok_def)
  then show ?thesis using ok socket_send_sent by (fastforce simp: delivery_ok_def relay_limits)
qed

text \<open>C33: The heartbeat terminates exactly the dead sockets. A connected socket is terminated when two
  sweeps pass without a pong, a ping or a frame of it in between, or when it cannot be pinged, and never
  otherwise, whatever the other sockets do.\<close>

theorem heartbeat_detects_dead:
  assumes "s ws = Some fresh_beat"
  shows "(\<exists>b. fold beat_step events s ws = Some b \<and> hb_terminated b)
     \<longleftrightarrow> silent ws events \<or> (\<exists>pings. Sweep pings \<in> set events \<and> \<not> pings ws)"
  using beat_run [of s ws events] assms by auto

section \<open>Witnesses\<close>

definition sample_ack :: js where
  "sample_ack = JObj [(''type'', JStr ''relay.ack''), (''deliveryId'', JStr ''d'')]"

theorem acknowledgement_single_use_witness:
  "(1, ''d'', 10) \<in> set (fst (ack_run (\<lambda>_. Some sample_ack) [Issued 1 (JStr ''d'') 0, Presented 1 ''ack'' 10, Presented 1 ''ack'' 11] Map.empty))
   \<and> passes 1 ''d'' (fst (ack_run (\<lambda>_. Some sample_ack) [Issued 1 (JStr ''d'') 0, Presented 1 ''ack'' 10, Presented 1 ''ack'' 11] Map.empty)) \<le> 1"
proof -
  let ?es = "[Issued 1 (JStr ''d'') 0, Presented 1 ''ack'' 10, Presented 1 ''ack'' 11]"
  have "js_length ''d'' = 1" by (simp add: js_length_def utf16_units_def)
  then have i: "issue Map.empty 1 (JStr ''d'') 0 = [1 \<mapsto> [(''d'', 30000)]]"
    by (simp add: issue_def jm_delete_def relay_limits Let_def)
  have c: "consume (\<lambda>_. Some sample_ack) [1 \<mapsto> [(''d'', 30000)]] 1 ''ack'' 10 = (True, [1 \<mapsto> []])"
    "consume (\<lambda>_. Some sample_ack) [1 \<mapsto> []] 1 ''ack'' 11 = (False, [1 \<mapsto> []])"
    using \<open>js_length ''d'' = 1\<close>
    by (simp_all add: consume_def sample_ack_def byteLength_def relay_limits jm_delete_def jm_get_def)
  have "fst (ack_run (\<lambda>_. Some sample_ack) ?es Map.empty) = [(1, ''d'', 10)]"
    using i c by (simp add: ack_id_def sample_ack_def)
  then show ?thesis using acknowledgement_single_use [of 1 "''d''" "\<lambda>_. Some sample_ack" ?es] by (simp add: issues_def)
qed

theorem bytes_in_flight_witness:
  "dl_pendingBytes (fold deliver [Deliver 1 \<lparr>sv_open = True, sv_buffered = 0, sv_throws = False\<rparr> ''abc'' JUndefined 0,
       Completed 7] createSocketDelivery) = 3
   \<and> dl_pendingBytes (fold socket_closed [1] (fold deliver [Deliver 1 \<lparr>sv_open = True, sv_buffered = 0, sv_throws = False\<rparr>
       ''abc'' JUndefined 0, Completed 7] createSocketDelivery)) = 0"
proof -
  let ?d = "fold deliver [Deliver 1 \<lparr>sv_open = True, sv_buffered = 0, sv_throws = False\<rparr> ''abc'' JUndefined 0,
       Completed 7] createSocketDelivery"
  have "dl_flights ?d = [\<lparr>fl_id = 0, fl_socket = 1, fl_bytes = 3\<rparr>]"
    by (simp add: socket_send_def createSocketDelivery_def byteLength_def relay_limits release_def)
  then show ?thesis using bytes_in_flight [OF refl, of "[Deliver 1 \<lparr>sv_open = True, sv_buffered = 0, sv_throws = False\<rparr> ''abc'' JUndefined 0,
       Completed 7]" 1 "[1]"] by simp
qed

theorem heartbeat_detects_dead_witness:
  "\<exists>b. fold beat_step [Sweep (\<lambda>_. True), Heard 2, Sweep (\<lambda>_. True)] [1 \<mapsto> fresh_beat, 2 \<mapsto> fresh_beat] 1 = Some b \<and> hb_terminated b"
proof -
  have "silent 1 [Sweep (\<lambda>_. True), Heard 2, Sweep (\<lambda>_. True)]"
    unfolding silent_def by (rule exI [of _ "[]"], rule exI [of _ "\<lambda>_. True"], rule exI [of _ "[Heard 2]"]) auto
  then show ?thesis using heartbeat_detects_dead [of "[1 \<mapsto> fresh_beat, 2 \<mapsto> fresh_beat]" 1
      "[Sweep (\<lambda>_. True), Heard 2, Sweep (\<lambda>_. True)]"] by simp
qed

end
