(* ===== verification/Managed_Admission.thy ===== *)
theory Managed_Admission
  imports Connection_Policy
begin

text \<open>
  Admission to the managed relay: signed tickets (\<open>src/node/managed-admission.js\<close>), their renewal on a
  live socket (\<open>src/node/managed-connection.js\<close>), the gate in front of a WebSocket upgrade
  (\<open>src/node/upgrade-gate.js\<close>) and the quota identity of a client (\<open>src/node/client-access.js\<close>). Shows:
  whatever a socket sends, its ticket stays one of the same account, computer, role and key, signed for
  its room and at most six minutes ahead, and the socket is closed when the ticket ends; a waiting
  device is refused at the upgrade and an admitted one is not held up by closes it did not cause.

  \<open>hmac\<close> stands for the HMAC of a text under the signing key, \<open>decode64url\<close> for base64url decoding,
  \<open>parse\<close> for \<open>JSON.parse\<close> (\<open>None\<close> when it throws), \<open>stringify\<close> for \<open>JSON.stringify\<close> and \<open>sha\<close> for the
  hexadecimal SHA-256 digest. A ticket is the JSON value of its payload.
\<close>

section \<open>Tickets\<close>

definition hex_any :: "char \<Rightarrow> bool" where
  "hex_any c \<longleftrightarrow> hex_char c \<or> char_between CHR ''A'' CHR ''F'' c"

definition UUID_PATTERN :: "(char \<Rightarrow> bool) list" where
  "UUID_PATTERN = replicate 8 hex_any @ [\<lambda>c. c = CHR ''-''] @ replicate 4 hex_any @ [\<lambda>c. c = CHR ''-'', char_between CHR ''1'' CHR ''8'']
     @ replicate 3 hex_any @ [\<lambda>c. c = CHR ''-'', \<lambda>c. c \<in> {CHR ''8'', CHR ''9'', CHR ''a'', CHR ''b'', CHR ''A'', CHR ''B''}]
     @ replicate 3 hex_any @ [\<lambda>c. c = CHR ''-''] @ replicate 12 hex_any"

text \<open>\<open>UUID.test\<close> converts its argument: an array of one matching string passes. Where the conversion
  throws, the caller catches and refuses.\<close>

fun uuid_test :: "js \<Rightarrow> bool" where
  "uuid_test (JStr s) = list_all2 (\<lambda>p c. p c) UUID_PATTERN s"
| "uuid_test (JArr [v]) = uuid_test v"
| "uuid_test _ = False"

definition base64url_char :: "char \<Rightarrow> bool" where
  "base64url_char c \<longleftrightarrow> alnum_char c \<or> c = CHR ''_'' \<or> c = CHR ''-''"

definition base64_char :: "char \<Rightarrow> bool" where
  "base64_char c \<longleftrightarrow> alnum_char c \<or> c = CHR ''+'' \<or> c = CHR ''/''"

text \<open>A canonical base64 public key of 44 characters. A value that is no string never equals the
  re-encoded text.\<close>

fun valid_public_key :: "js \<Rightarrow> bool" where
  "valid_public_key (JStr s) \<longleftrightarrow> length s = 44 \<and> list_all base64_char (take 43 s) \<and> s ! 43 = CHR ''=''
     \<and> map_option btoa (atob s) = Some s"
| "valid_public_key _ = False"

definition ticket_ok :: "js \<Rightarrow> js \<Rightarrow> time \<Rightarrow> bool" where
  "ticket_ok v room now \<longleftrightarrow>
     (field ''version'' v = JInt 1 \<and> field ''role'' v = JUndefined \<or> field ''version'' v = JInt 2 \<and> field ''role'' v = JStr ''phone'')
     \<and> field ''source'' v \<in> {JUndefined, JStr ''subscription'', JStr ''beta''}
     \<and> uuid_test (field ''accountId'' v) \<and> uuid_test (field ''computerId'' v) \<and> valid_public_key (field ''publicKey'' v)
     \<and> strict_eq (field ''room'' v) room \<and> isSafeInteger (field ''expiresAt'' v)
     \<and> num_of (field ''expiresAt'' v) > now \<and> num_of (field ''expiresAt'' v) \<le> now + 360000"

definition TICKET_LABEL :: string where "TICKET_LABEL = ''granttap-managed-v1.''"

fun readManagedTicket ::
  "(string \<Rightarrow> string) \<Rightarrow> (string \<Rightarrow> string) \<Rightarrow> (string \<Rightarrow> js option) \<Rightarrow> js \<Rightarrow> js \<Rightarrow> time \<Rightarrow> js option" where
  "readManagedTicket hmac decode64url parse (JStr token) room now =
     (let payload = takeWhile (\<lambda>c. c \<noteq> CHR ''.'') token; signature = drop (Suc (length payload)) token in
      if js_length token > 2048 \<or> CHR ''.'' \<notin> set token \<or> CHR ''.'' \<in> set signature \<or> payload = []
         \<or> \<not> list_all base64url_char payload \<or> \<not> class_repeat base64url_char 43 43 signature then None
      else if decode64url signature \<noteq> hmac (TICKET_LABEL @ payload) then None
      else (case parse (decode64url payload) of
          None \<Rightarrow> None
        | Some v \<Rightarrow> if ticket_ok v room now then Some v else None))"
| "readManagedTicket hmac decode64url parse _ room now = None"

definition ticket_role :: "js \<Rightarrow> string" where
  "ticket_role ticket = (if nullish (field ''role'' ticket) then ''machine'' else str_of (field ''role'' ticket))"

definition managedCooldownIdentity :: "(js \<Rightarrow> string) \<Rightarrow> (string \<Rightarrow> string) \<Rightarrow> js option \<Rightarrow> string option" where
  "managedCooldownIdentity stringify sha ticket = map_option (\<lambda>t. ''managed:'' @ sha (stringify
     (JArr [field ''accountId'' t, field ''computerId'' t, JStr (ticket_role t), field ''publicKey'' t]))) ticket"

section \<open>The upgrade gate\<close>

record refusal =
  rf_status :: nat
  rf_reason :: string
  rf_retryAfter :: "int option"

definition upgradeRefusal ::
  "(js \<Rightarrow> string) \<Rightarrow> (string \<Rightarrow> string) \<Rightarrow> cool_config \<Rightarrow> bool \<Rightarrow> bool \<Rightarrow> string option \<Rightarrow> js option \<Rightarrow> js \<Rightarrow> js
     \<Rightarrow> nat \<Rightarrow> nat \<Rightarrow> time \<Rightarrow> cool_entries \<Rightarrow> refusal option \<times> cool_entries" where
  "upgradeRefusal stringify sha c authorized admissionRequired ticketHeader ticket recipientKeyId room
       roomSize maxRoomSockets now entries =
     (if \<not> authorized then (Some \<lparr>rf_status = 401, rf_reason = ''unauthorized'', rf_retryAfter = None\<rparr>, entries)
      else if admissionRequired \<and> (case ticketHeader of None \<Rightarrow> False | Some h \<Rightarrow> h \<noteq> []) \<and> ticket = None then
        (Some \<lparr>rf_status = 403, rf_reason = ''admission-invalid'', rf_retryAfter = None\<rparr>, entries)
      else if recipientKeyId \<noteq> JUndefined \<and> \<not> validRecipientKeyId recipientKeyId then
        (Some \<lparr>rf_status = 400, rf_reason = ''recipient-invalid'', rf_retryAfter = None\<rparr>, entries)
      else let legacy = upgradeIdentity room recipientKeyId;
               entries1 = (if ticket \<noteq> None then snd (remaining c entries legacy True now) else entries);
               key = (case managedCooldownIdentity stringify sha ticket of Some k \<Rightarrow> Some k | None \<Rightarrow> legacy)
        in (case remaining c entries1 key (ticket \<noteq> None) now of (waitMs, entries2) \<Rightarrow>
          (if waitMs > 0 then
             Some \<lparr>rf_status = 429, rf_reason = ''cool-down'', rf_retryAfter = Some (max 1 (ceil_seconds waitMs))\<rparr>
           else if roomSize \<ge> maxRoomSockets then
             Some \<lparr>rf_status = 503, rf_reason = ''room-full'', rf_retryAfter = None\<rparr>
           else None, entries2)))"

section \<open>The admission of a live socket\<close>

text \<open>The part of \<open>ws.relayState\<close> that admission reads and writes, with the deadline of its timer. The
  expiry of the ticket is also a field of \<open>node_socket\<close>, where the policy reads it.\<close>

record managed_socket =
  ms_socket :: node_socket
  ms_commercial :: bool
  ms_ticket :: "js option"
  ms_timer :: "time option"

definition armManagedExpiry :: "managed_socket \<Rightarrow> js \<Rightarrow> managed_socket" where
  "armManagedExpiry s ticket = s\<lparr>ms_ticket := Some ticket, ms_timer := Some (num_of (field ''expiresAt'' ticket)),
     ms_socket := (ms_socket s)\<lparr>n_ticketExpiresAt := Some (num_of (field ''expiresAt'' ticket))\<rparr>\<rparr>"

definition same_admission :: "js \<Rightarrow> js \<Rightarrow> bool" where
  "same_admission a b \<longleftrightarrow> strict_eq (field ''version'' a) (field ''version'' b) \<and> strict_eq (field ''role'' a) (field ''role'' b)
     \<and> strict_eq (field ''accountId'' a) (field ''accountId'' b) \<and> strict_eq (field ''computerId'' a) (field ''computerId'' b)
     \<and> strict_eq (field ''publicKey'' a) (field ''publicKey'' b)"

fun role_text :: "role \<Rightarrow> string" where
  "role_text Machine = ''machine''"
| "role_text Phone = ''phone''"

definition renewable :: "managed_socket \<Rightarrow> js \<Rightarrow> js \<Rightarrow> bool" where
  "renewable s current next_ticket \<longleftrightarrow> same_admission next_ticket current
     \<and> (case n_role (ms_socket s) of None \<Rightarrow> True | Some r \<Rightarrow> role_text r = ticket_role current)
     \<and> num_of (field ''expiresAt'' next_ticket) > num_of (field ''expiresAt'' current)"

datatype renewal = Not_renewal | Renewal_ignored | Renewal_rejected "policy_close option" | Renewal_accepted js

text \<open>\<open>renewManagedConnection\<close>; \<open>verify\<close> reads a ticket for the socket's room, if admission is required.\<close>

definition renewManagedConnection ::
  "cool_config \<Rightarrow> (js \<Rightarrow> js option) option \<Rightarrow> js \<Rightarrow> time \<Rightarrow> managed_socket \<Rightarrow> cool_entries
     \<Rightarrow> renewal \<times> managed_socket \<times> cool_entries" where
  "renewManagedConnection c verify v now s entries =
     (if field ''type'' v \<noteq> JStr ''relay.admission'' then (Not_renewal, s, entries)
      else if \<not> ms_commercial s then (Renewal_ignored, s, entries)
      else (case (Option.bind verify (\<lambda>f. f (field ''ticket'' v)), ms_ticket s) of
          (Some next_ticket, Some current) \<Rightarrow>
            if renewable s current next_ticket then
              (Renewal_accepted (JObj [(''type'', JStr ''relay.admission.accepted''), (''expiresAt'', field ''expiresAt'' next_ticket)]),
               armManagedExpiry s next_ticket, entries)
            else (case closeForPolicy c (ms_socket s) entries Admission_renewal_rejected JUndefined now of (frame, ws, es) \<Rightarrow>
              (Renewal_rejected frame, s\<lparr>ms_socket := ws\<rparr>, es))
        | _ \<Rightarrow> (case closeForPolicy c (ms_socket s) entries Admission_renewal_rejected JUndefined now of (frame, ws, es) \<Rightarrow>
              (Renewal_rejected frame, s\<lparr>ms_socket := ws\<rparr>, es))))"

text \<open>The timer of a ticket fires once its deadline is over.\<close>

definition admission_timer ::
  "cool_config \<Rightarrow> time \<Rightarrow> managed_socket \<Rightarrow> cool_entries \<Rightarrow> policy_close option \<times> managed_socket \<times> cool_entries" where
  "admission_timer c now s entries = (case ms_timer s of
       None \<Rightarrow> (None, s, entries)
     | Some deadline \<Rightarrow>
         if now < deadline then (None, s, entries)
         else (case closeForPolicy c (ms_socket s) entries Admission_expired JUndefined now of (frame, ws, es) \<Rightarrow>
           (frame, s\<lparr>ms_socket := ws, ms_timer := None\<rparr>, es)))"

section \<open>The quota identity of a client\<close>

record client_identity =
  ci_category :: string
  ci_account :: js
  ci_device :: "(js \<times> string \<times> js) option"
  ci_expiresAt :: js
  ci_clientIp :: "string option"

text \<open>\<open>isIP\<close> is Node's. The peer address is without its IPv4-mapping prefix, and the address a proxy
  forwards counts only when the peer is a trusted proxy. The device text joins its three parts with colons.\<close>

definition strip_mapped :: "string \<Rightarrow> string" where
  "strip_mapped s = (if starts_with ''::ffff:'' s then drop 7 s else s)"

definition clientIdentity ::
  "(string \<Rightarrow> bool) \<Rightarrow> string list \<Rightarrow> string option \<Rightarrow> js \<Rightarrow> js option \<Rightarrow> client_identity" where
  "clientIdentity isIP trusted remoteAddress forwarded ticket =
     (let peer = map_option strip_mapped remoteAddress;
          clientIp = (case peer of None \<Rightarrow> None
            | Some p \<Rightarrow> if p \<in> set trusted \<and> is_string forwarded \<and> isIP (str_of forwarded) then Some (str_of forwarded) else peer)
      in case ticket of
           Some t \<Rightarrow> \<lparr>ci_category = (if field ''source'' t = JStr ''subscription'' then ''subscriber''
                else if field ''source'' t = JStr ''beta'' then ''beta'' else ''registered''),
              ci_account = field ''accountId'' t,
              ci_device = Some (field ''computerId'' t, ticket_role t, field ''publicKey'' t),
              ci_expiresAt = field ''expiresAt'' t, ci_clientIp = clientIp\<rparr>
         | None \<Rightarrow> \<lparr>ci_category = ''anonymous'', ci_account = JUndefined, ci_device = None, ci_expiresAt = JUndefined,
              ci_clientIp = clientIp\<rparr>)"

record decision =
  dc_allowed :: bool
  dc_category :: string
  dc_reason :: string
  dc_fallback :: bool
  dc_leaseId :: "string option"
  dc_retryAfter :: int

definition setClientDecision :: "decision option \<Rightarrow> (string \<times> string) list" where
  "setClientDecision d = (case d of None \<Rightarrow> [] | Some d \<Rightarrow>
     [(''X-Hostwatch-Client-Category'', dc_category d),
      (''X-Hostwatch-Client-Limit'', if dc_allowed d then ''none'' else dc_reason d)]
     @ (if dc_fallback d then [(''X-Hostwatch-Client-Mode'', ''local-fallback'')] else []))"

text \<open>One tick of the lease refresh of \<open>trackClientConnection\<close> with the answer of the quota service:
  the lease from then on, and the reason the socket is closed with 4429, if it is.\<close>

definition refresh_lease :: "bool \<Rightarrow> bool \<Rightarrow> decision \<Rightarrow> string \<Rightarrow> string \<times> string option" where
  "refresh_lease running open d leaseId =
     (if running \<or> \<not> open then (leaseId, None)
      else (case dc_leaseId d of Some l \<Rightarrow> if dc_allowed d \<and> l \<noteq> [] then l else leaseId | None \<Rightarrow> leaseId,
            if \<not> dc_allowed d \<and> dc_reason d \<noteq> ''adapter-proof-rejected'' then Some (dc_reason d) else None))"

section \<open>Lemmas\<close>

lemma readManagedTicket_ok: "readManagedTicket hmac dec parse token room now = Some t \<Longrightarrow> ticket_ok t room now"
  by (cases token) (auto simp: Let_def split: if_splits option.splits)

lemma closeForPolicy_kept:
  "closeForPolicy c s es token v now = (frame, s', es') \<Longrightarrow> n_room s' = n_room s \<and> n_ticketExpiresAt s' = n_ticketExpiresAt s
     \<and> \<not> n_open s' \<and> (frame = None \<longleftrightarrow> \<not> n_open s)"
  by (auto simp: closeForPolicy_def split: if_splits prod.splits)

lemma same_admission_trans: "same_admission a b \<Longrightarrow> b = c \<or> same_admission b c \<Longrightarrow> same_admission a c"
  by (auto simp: same_admission_def strict_eq_def)

datatype admission_event = Renew js time | Timer time

primrec event_time :: "admission_event \<Rightarrow> time" where
  "event_time (Renew v now) = now"
| "event_time (Timer now) = now"

text \<open>What happens to a socket whose tickets are verified with the signing key, one event after the other.\<close>

definition verifier where
  "verifier hmac dec parse s now = (\<lambda>token. readManagedTicket hmac dec parse token (JStr (n_room (ms_socket s))) now)"

fun admission_step where
  "admission_step c hmac dec parse (Renew v now) (s, es) =
     snd (renewManagedConnection c (Some (verifier hmac dec parse s now)) v now s es)"
| "admission_step c hmac dec parse (Timer now) (s, es) = snd (admission_timer c now s es)"

text \<open>The ticket of a socket that was admitted with \<open>t0\<close>.\<close>

definition admitted_as :: "string \<Rightarrow> js \<Rightarrow> time \<Rightarrow> managed_socket \<Rightarrow> bool" where
  "admitted_as room t0 latest s \<longleftrightarrow> (\<exists>t. ms_ticket s = Some t \<and> (t = t0 \<or> same_admission t t0)
     \<and> strict_eq (field ''room'' t) (JStr room) \<and> n_room (ms_socket s) = room
     \<and> num_of (field ''expiresAt'' t0) \<le> num_of (field ''expiresAt'' t) \<and> num_of (field ''expiresAt'' t) \<le> latest + 360000
     \<and> n_ticketExpiresAt (ms_socket s) = Some (num_of (field ''expiresAt'' t))
     \<and> (n_open (ms_socket s) \<longrightarrow> ms_timer s = Some (num_of (field ''expiresAt'' t))))"

lemma renewal_cases:
  assumes "renewManagedConnection c (Some f) v now s es = (r, s', es')"
  obtains "s' = s" "r = Not_renewal \<or> r = Renewal_ignored"
  | frame where "s' = s\<lparr>ms_socket := fst (snd (closeForPolicy c (ms_socket s) es Admission_renewal_rejected JUndefined now))\<rparr>"
      "r = Renewal_rejected frame"
  | next_ticket current where "f (field ''ticket'' v) = Some next_ticket" "ms_ticket s = Some current"
      "renewable s current next_ticket" "s' = armManagedExpiry s next_ticket"
proof -
  obtain frame ws es1 where c: "closeForPolicy c (ms_socket s) es Admission_renewal_rejected JUndefined now = (frame, ws, es1)"
    by (metis prod_cases3)
  show ?thesis
  proof (cases "field ''type'' v \<noteq> JStr ''relay.admission'' \<or> \<not> ms_commercial s")
    case True
    then show ?thesis using assms that(1) by (auto simp: renewManagedConnection_def split: if_splits)
  next
    case False
    show ?thesis
    proof (cases "\<exists>t u. f (field ''ticket'' v) = Some t \<and> ms_ticket s = Some u \<and> renewable s u t")
      case True
      then obtain t u where tu: "f (field ''ticket'' v) = Some t" "ms_ticket s = Some u" "renewable s u t" by blast
      then have "s' = armManagedExpiry s t" using assms False by (simp add: renewManagedConnection_def)
      with tu show ?thesis by (rule that(3))
    next
      case no: False
      then have "r = Renewal_rejected frame" "s' = s\<lparr>ms_socket := ws\<rparr>"
        using assms False c by (simp_all add: renewManagedConnection_def split: option.splits)
      then show ?thesis using c that(2) by simp
    qed
  qed
qed

lemma admission_step_admitted:
  assumes "admitted_as room t0 latest s" "event_time e \<le> latest"
  shows "admitted_as room t0 latest (fst (admission_step c hmac dec parse e (s, es)))"
proof (cases e)
  case (Renew v now)
  obtain r s' es' where r: "renewManagedConnection c (Some (verifier hmac dec parse s now)) v now s es = (r, s', es')"
    by (metis prod_cases3)
  then have e: "fst (admission_step c hmac dec parse e (s, es)) = s'" using Renew by simp
  from r show ?thesis
  proof (cases rule: renewal_cases)
    case 1
    then show ?thesis using assms e by simp
  next
    case (2 frame)
    obtain fr ws es1 where "closeForPolicy c (ms_socket s) es Admission_renewal_rejected JUndefined now = (fr, ws, es1)"
      by (metis prod_cases3)
    then show ?thesis using 2 assms e closeForPolicy_kept by (fastforce simp: admitted_as_def)
  next
    case (3 next_ticket current)
    have ok: "ticket_ok next_ticket (JStr room) now"
      using 3(1) assms(1) readManagedTicket_ok by (auto simp: verifier_def admitted_as_def)
    have cur: "current = t0 \<or> same_admission current t0" "num_of (field ''expiresAt'' t0) \<le> num_of (field ''expiresAt'' current)"
      "n_room (ms_socket s) = room" using 3(2) assms(1) by (auto simp: admitted_as_def)
    have new: "same_admission next_ticket t0"
      "num_of (field ''expiresAt'' current) < num_of (field ''expiresAt'' next_ticket)"
      using 3(3) cur(1) by (auto simp: renewable_def intro: same_admission_trans)
    show ?thesis using ok cur new assms(2) Renew 3(4) e
      by (auto simp: admitted_as_def armManagedExpiry_def ticket_ok_def)
  qed
next
  case (Timer now)
  obtain fr ws es1 where "closeForPolicy c (ms_socket s) es Admission_expired JUndefined now = (fr, ws, es1)"
    by (metis prod_cases3)
  then show ?thesis using assms Timer closeForPolicy_kept
    by (fastforce simp: admitted_as_def admission_timer_def split: option.splits)
qed

lemma admission_run_admitted:
  "admitted_as room t0 latest s \<Longrightarrow> \<forall>e\<in>set events. event_time e \<le> latest \<Longrightarrow>
     admitted_as room t0 latest (fst (fold (admission_step c hmac dec parse) events (s, es)))"
proof (induction events arbitrary: s es)
  case (Cons e events)
  obtain s1 es1 where "admission_step c hmac dec parse e (s, es) = (s1, es1)" by fastforce
  with Cons admission_step_admitted [of room t0 latest s e c hmac dec parse es] show ?case by simp
qed simp

section \<open>Properties\<close>

text \<open>C10: Admission can be renewed but not transferred. Whatever admission frames a socket of the managed
  relay sends and whenever its timer runs, the ticket it holds is one for the same account, computer,
  role and key as the ticket it was admitted with at the upgrade, for the same room, never ends earlier,
  and ends at most six minutes after the latest event; and when the timer finds that ticket over, the
  socket is closed.\<close>

theorem admission_not_transferable:
  assumes "ms_ticket s = Some t0" "ticket_ok t0 (JStr (n_room (ms_socket s))) start"
    and "n_ticketExpiresAt (ms_socket s) = Some (num_of (field ''expiresAt'' t0))"
    and "ms_timer s = Some (num_of (field ''expiresAt'' t0))"
    and "\<forall>e\<in>set events. start \<le> event_time e \<and> event_time e \<le> latest" "start \<le> latest"
    and "fold (admission_step c hmac decode64url parse) events (s, entries) = (s', entries')"
  shows "\<exists>t. ms_ticket s' = Some t \<and> (t = t0 \<or> same_admission t t0)
     \<and> field ''room'' t = JStr (n_room (ms_socket s))
     \<and> num_of (field ''expiresAt'' t0) \<le> num_of (field ''expiresAt'' t) \<and> num_of (field ''expiresAt'' t) \<le> latest + 360000
     \<and> (num_of (field ''expiresAt'' t) \<le> now \<longrightarrow> \<not> n_open (ms_socket (fst (snd (admission_timer c now s' entries')))))"
proof -
  have "admitted_as (n_room (ms_socket s)) t0 latest s"
    using assms(1-4,6) by (auto simp: admitted_as_def ticket_ok_def)
  from admission_run_admitted [OF this] assms(5,7) have "admitted_as (n_room (ms_socket s)) t0 latest s'"
    by (metis fst_conv)
  then obtain t where t: "ms_ticket s' = Some t" "t = t0 \<or> same_admission t t0" "field ''room'' t = JStr (n_room (ms_socket s))"
    "num_of (field ''expiresAt'' t0) \<le> num_of (field ''expiresAt'' t)" "num_of (field ''expiresAt'' t) \<le> latest + 360000"
    "n_open (ms_socket s') \<longrightarrow> ms_timer s' = Some (num_of (field ''expiresAt'' t))"
    by (auto simp: admitted_as_def strict_eq_def)
  have "\<not> n_open (ms_socket (fst (snd (admission_timer c now s' entries'))))" if over: "num_of (field ''expiresAt'' t) \<le> now"
  proof -
    obtain frame ws es1 where cl: "closeForPolicy c (ms_socket s') entries' Admission_expired JUndefined now = (frame, ws, es1)"
      by (metis prod_cases3)
    show ?thesis using over t(6) cl closeForPolicy_kept [OF cl]
      by (cases "n_open (ms_socket s')") (auto simp: admission_timer_def split: option.splits)
  qed
  with t show ?thesis by blast
qed

section \<open>Witnesses\<close>

definition sample_ticket :: "time \<Rightarrow> js" where
  "sample_ticket expiresAt = JObj [(''version'', JInt 1), (''accountId'', JStr ''00000000-0000-4000-8000-000000000001''),
     (''computerId'', JStr ''00000000-0000-4000-8000-000000000002''), (''publicKey'', JStr (replicate 43 CHR ''A'' @ ''='')),
     (''room'', JStr ''00112233445566aa''), (''expiresAt'', JInt expiresAt)]"

definition sample_managed :: managed_socket where
  "sample_managed = \<lparr>ms_socket = \<lparr>n_room = ''00112233445566aa'', n_role = Some Machine, n_recipientKeyId = None,
       n_identity = Some ''managed:1'', n_ticketExpiresAt = Some 5000, n_open = True, n_policyClose = False\<rparr>,
     ms_commercial = True, ms_ticket = Some (sample_ticket 5000), ms_timer = Some 5000\<rparr>"

definition sample_renewal :: js where
  "sample_renewal = JObj [(''type'', JStr ''relay.admission''), (''ticket'', JStr (''a.'' @ replicate 43 CHR ''a''))]"

lemma sample_texts:
  "uuid_test (JStr ''00000000-0000-4000-8000-000000000001'')" "uuid_test (JStr ''00000000-0000-4000-8000-000000000002'')"
  "valid_public_key (JStr (replicate 43 CHR ''A'' @ ''=''))"
  by code_simp+

lemma sample_ticket_ok: "ticket_ok (sample_ticket 5000) (JStr ''00112233445566aa'') 0"
  unfolding ticket_ok_def using sample_texts
  by (simp add: sample_ticket_def strict_eq_def max_safe_integer_def del: uuid_test.simps valid_public_key.simps)

theorem admission_not_transferable_witness:
  "\<exists>t. ms_ticket (fst (fold (admission_step default_cool_down (\<lambda>_. []) (\<lambda>_. []) (\<lambda>_. Some (sample_ticket 9000)))
        [Renew sample_renewal 100] (sample_managed, []))) = Some t
     \<and> (t = sample_ticket 5000 \<or> same_admission t (sample_ticket 5000)) \<and> num_of (field ''expiresAt'' t) \<le> 100 + 360000"
proof -
  have s: "ms_ticket sample_managed = Some (sample_ticket 5000)"
    "ticket_ok (sample_ticket 5000) (JStr (n_room (ms_socket sample_managed))) 0"
    "n_ticketExpiresAt (ms_socket sample_managed) = Some (num_of (field ''expiresAt'' (sample_ticket 5000)))"
    "ms_timer sample_managed = Some (num_of (field ''expiresAt'' (sample_ticket 5000)))"
    using sample_ticket_ok by (simp_all add: sample_managed_def sample_ticket_def)
  have e: "\<forall>e\<in>set [Renew sample_renewal 100]. 0 \<le> event_time e \<and> event_time e \<le> 100" "(0::time) \<le> 100" by simp_all
  from admission_not_transferable [OF s e surjective_pairing] show ?thesis by blast
qed

end
