(* ===== verification/Node_Session.thy ===== *)
theory Node_Session
  imports Delivery_Queue Retained_State Socket_Delivery Managed_Admission
begin

text \<open>
  The Node relay's sockets at work: the routing of one text frame, \<open>handleSocketMessage\<close>
  (\<open>src/node/socket-messages.js\<close>), over the mailboxes, the retained state, the delivery, the connection
  policy and the admission of the other theories, and the presence of a room
  (\<open>src/roomPresence/index.js\<close>). Shows: a frame reaches only other open sockets of the same room with
  the addressed role and key, and only when it was accepted from a socket of the role it claims; a
  reliable frame is stored before it is forwarded or acknowledged as stored.

  \<open>parse\<close> and \<open>stringify\<close> stand for \<open>JSON.parse\<close> and \<open>JSON.stringify\<close>. \<open>env ws n\<close> gives the bytes buffered
  in a socket and whether its \<open>send\<close> throws, at the \<open>n\<close>-th frame sent by the process; \<open>disk\<close> says whether
  the writes of the retained state and of the mailbox succeed. A frame is handled with one reading of
  the clock. Metrics and log lines are left out.
\<close>

definition MAX_WEBSOCKET_MESSAGE_BYTES :: nat where "MAX_WEBSOCKET_MESSAGE_BYTES = 33554432"
lemmas [relay_limits] = MAX_WEBSOCKET_MESSAGE_BYTES_def

section \<open>State\<close>

text \<open>\<open>ws.relayState\<close>.\<close>

record relay_socket =
  rs_managed :: managed_socket
  rs_relayControl :: bool
  rs_ingressFlow :: bool
  rs_ingressReceived :: "nat option"
  rs_window :: frame_window
  rs_presenceEnabled :: bool
  rs_presenceAt :: "time option"

abbreviation rs_room :: "relay_socket \<Rightarrow> string" where "rs_room rs \<equiv> n_room (ms_socket (rs_managed rs))"
abbreviation rs_role :: "relay_socket \<Rightarrow> role option" where "rs_role rs \<equiv> n_role (ms_socket (rs_managed rs))"
abbreviation rs_key :: "relay_socket \<Rightarrow> string option" where "rs_key rs \<equiv> n_recipientKeyId (ms_socket (rs_managed rs))"
abbreviation rs_open :: "relay_socket \<Rightarrow> bool" where "rs_open rs \<equiv> n_open (ms_socket (rs_managed rs))"

definition with_socket :: "(node_socket \<Rightarrow> node_socket) \<Rightarrow> relay_socket \<Rightarrow> relay_socket" where
  "with_socket f rs = rs\<lparr>rs_managed := (rs_managed rs)\<lparr>ms_socket := f (ms_socket (rs_managed rs))\<rparr>\<rparr>"

text \<open>The sockets of all rooms in the order they connected.\<close>

record node_relay =
  nr_rooms :: rooms
  nr_states :: state_table
  nr_presence :: "string \<rightharpoonup> presence_row list"
  nr_sockets :: "(nat, relay_socket) jmap"
  nr_delivery :: delivery
  nr_coolDowns :: cool_entries

text \<open>What leaves the relay: frames by way of the delivery, labelled with why they are sent, control messages sent directly, closes,
  the rest of a replay that waits for its first frame, and a wake request.\<close>

datatype sent_as = Forwarded | Replayed | Stored_receipt | Presence_update

datatype relay_out =
    Out_frame nat sent_as string
  | Out_control nat js
  | Out_close nat policy_close
  | Out_backpressure nat
  | Out_terminated nat
  | Out_replay nat "(string \<times> string option) list"
  | Out_wake string js

type_synonym send_env = "nat \<Rightarrow> nat \<Rightarrow> nat \<times> bool"

definition set_socket :: "nat \<Rightarrow> relay_socket \<Rightarrow> node_relay \<Rightarrow> node_relay" where
  "set_socket ws rs s = s\<lparr>nr_sockets := jm_set (nr_sockets s) ws rs\<rparr>"

text \<open>\<open>delivery.send\<close> to a socket: backpressure closes it, a throwing socket is terminated.\<close>

definition deliver_to :: "send_env \<Rightarrow> time \<Rightarrow> sent_as \<Rightarrow> nat \<Rightarrow> string \<Rightarrow> js \<Rightarrow> node_relay \<Rightarrow> relay_out list \<times> node_relay" where
  "deliver_to env now why ws raw deliveryId s = (case jm_get (nr_sockets s) ws of
       None \<Rightarrow> ([], s)
     | Some rs \<Rightarrow>
         (case socket_send (nr_delivery s) ws \<lparr>sv_open = rs_open rs, sv_buffered = fst (env ws (dl_next (nr_delivery s))),
             sv_throws = snd (env ws (dl_next (nr_delivery s)))\<rparr> raw deliveryId now of (r, d) \<Rightarrow>
           let s1 = s\<lparr>nr_delivery := d\<rparr>; closed = set_socket ws (with_socket (n_open_update (\<lambda>_. False)) rs) s1
           in (case r of
               Send_sent \<Rightarrow> ([Out_frame ws why raw], s1)
             | Send_closed \<Rightarrow> ([], s1)
             | Send_backpressure \<Rightarrow> ([Out_backpressure ws], closed)
             | Send_failed \<Rightarrow> ([Out_terminated ws], closed))))"

definition room_sockets :: "string \<Rightarrow> node_relay \<Rightarrow> (nat \<times> relay_socket) list" where
  "room_sockets room s = filter (\<lambda>e. rs_room (snd e) = room) (nr_sockets s)"

text \<open>A loop that sends to several sockets.\<close>

fun deliver_all :: "send_env \<Rightarrow> time \<Rightarrow> sent_as \<Rightarrow> string \<Rightarrow> js \<Rightarrow> nat list \<Rightarrow> node_relay \<Rightarrow> relay_out list \<times> node_relay" where
  "deliver_all env now why raw i [] s = ([], s)"
| "deliver_all env now why raw i (ws # wss) s = (case deliver_to env now why ws raw i s of (os, s1) \<Rightarrow>
     (case deliver_all env now why raw i wss s1 of (os', s2) \<Rightarrow> (os @ os', s2)))"

section \<open>Presence\<close>

definition presence_rows :: "string \<Rightarrow> node_relay \<Rightarrow> presence_row list" where
  "presence_rows room s = (case nr_presence s room of None \<Rightarrow> [] | Some rows \<Rightarrow> rows)"

definition presence_note :: "string \<Rightarrow> role option \<Rightarrow> string option \<Rightarrow> time \<Rightarrow> node_relay \<Rightarrow> node_relay" where
  "presence_note room role i now s = s\<lparr>nr_presence := (nr_presence s)(room \<mapsto>
     updatePresence (presence_rows room s) (map_option role_text role) i now)\<rparr>"

text \<open>\<open>presenceMessage\<close>: a device is online when one of the sockets has its role and key.\<close>

definition device_json :: "(string option \<times> string option) list \<Rightarrow> time \<Rightarrow> presence_row \<Rightarrow> js" where
  "device_json online now row =
     (let live = (Some (pr_role row), Some (pr_id row)) \<in> set online
      in JObj [(''id'', JStr (pr_id row)), (''role'', JStr (pr_role row)),
        (''lastSeenAt'', JInt (if live then now else pr_lastSeenAt row)), (''online'', JBool live)])"

definition presenceMessage :: "string \<Rightarrow> presence_row list \<Rightarrow> (string option \<times> string option) list \<Rightarrow> time \<Rightarrow> js" where
  "presenceMessage room rows online now = JObj [(''type'', JStr ''relay.presence''), (''room'', JStr room),
     (''generatedAt'', JInt now), (''devices'', JArr (map (device_json online now) rows))]"

definition publishNodePresence ::
  "(js \<Rightarrow> string) \<Rightarrow> send_env \<Rightarrow> time \<Rightarrow> string \<Rightarrow> node_relay \<Rightarrow> relay_out list \<times> node_relay" where
  "publishNodePresence stringify env now room s =
     (let peers = filter (\<lambda>e. rs_open (snd e)) (room_sockets room s);
          message = presenceMessage room (presence_rows room s)
            (map (\<lambda>e. (map_option role_text (rs_role (snd e)), rs_key (snd e))) peers) now
      in deliver_all env now Presence_update (stringify message) JUndefined
           (map fst (filter (\<lambda>e. rs_presenceEnabled (snd e) \<and> rs_role (snd e) = Some Phone) peers)) s)"

definition closeNodeSocket ::
  "(js \<Rightarrow> string) \<Rightarrow> send_env \<Rightarrow> time \<Rightarrow> nat \<Rightarrow> node_relay \<Rightarrow> relay_out list \<times> node_relay" where
  "closeNodeSocket stringify env now ws s = (case jm_get (nr_sockets s) ws of
       None \<Rightarrow> ([], s)
     | Some rs \<Rightarrow> publishNodePresence stringify env now (rs_room rs)
         (presence_note (rs_room rs) (rs_role rs) (rs_key rs) now (s\<lparr>nr_sockets := jm_delete (nr_sockets s) ws\<rparr>)))"

section \<open>One frame\<close>

fun role_of :: "js \<Rightarrow> role option" where
  "role_of (JStr s) = (if s = ''machine'' then Some Machine else if s = ''phone'' then Some Phone else None)"
| "role_of _ = None"

definition close_socket ::
  "cool_config \<Rightarrow> time \<Rightarrow> nat \<Rightarrow> relay_socket \<Rightarrow> close_token \<Rightarrow> js \<Rightarrow> node_relay \<Rightarrow> relay_out list \<times> node_relay" where
  "close_socket c now ws rs token envelope s =
     (case closeForPolicy c (ms_socket (rs_managed rs)) (nr_coolDowns s) token envelope now of (frame, ns, es) \<Rightarrow>
       (case frame of None \<Rightarrow> [] | Some f \<Rightarrow> [Out_close ws f],
        set_socket ws (with_socket (\<lambda>_. ns) rs) s\<lparr>nr_coolDowns := es\<rparr>))"

text \<open>\<open>dropMessage\<close>: a notice for a sender that negotiated control frames.\<close>

definition dropMessage :: "nat \<Rightarrow> relay_socket \<Rightarrow> js \<Rightarrow> string \<Rightarrow> relay_out list" where
  "dropMessage ws rs envelope reason =
     (if rs_relayControl rs \<and> truthy (field ''deliveryId'' envelope) \<and> rs_open rs
      then [Out_control ws (droppedNotice (field ''deliveryId'' envelope) reason)] else [])"

text \<open>\<open>replayNodeFrames\<close> up to its first wait: the first row is sent, the rest waits for its completion.\<close>

definition start_replay ::
  "send_env \<Rightarrow> time \<Rightarrow> (string \<Rightarrow> js option) \<Rightarrow> nat \<Rightarrow> (string \<times> string option) list \<Rightarrow> node_relay \<Rightarrow> relay_out list \<times> node_relay" where
  "start_replay env now parse ws rows s = (case rows of
       [] \<Rightarrow> ([], s)
     | (raw, i) # rest \<Rightarrow>
         (case deliver_to env now Replayed ws raw (case i of Some d \<Rightarrow> JStr d
              | None \<Rightarrow> (case parse raw of None \<Rightarrow> JUndefined | Some v \<Rightarrow> field ''deliveryId'' v)) s of (os, s1) \<Rightarrow>
           (os @ (if Out_frame ws Replayed raw \<in> set os then [Out_replay ws rest] else []), s1)))"

text \<open>\<open>registerRole\<close>: the role and identity of the first accepted frame, and the stored frames for it.\<close>

definition registerRole ::
  "send_env \<Rightarrow> time \<Rightarrow> (string \<Rightarrow> js option) \<Rightarrow> nat \<Rightarrow> role \<Rightarrow> js \<Rightarrow> relay_socket \<Rightarrow> node_relay
     \<Rightarrow> relay_out list \<times> relay_socket \<times> node_relay" where
  "registerRole env now parse ws role envelope rs s =
     (let rs1 = with_socket (\<lambda>n. n\<lparr>n_role := Some role, n_identity := identityOf (n\<lparr>n_role := Some role\<rparr>) envelope\<rparr>) rs;
          saved = (if role = Phone then map (\<lambda>raw. (raw, None)) (state_list (nr_states s) (rs_room rs) (rs_key rs) now) else [])
      in (case node_queue (nr_rooms s) (rs_room rs) role now of (queue, rooms) \<Rightarrow>
        let rows = filter (\<lambda>r. matchesQueuedRecipient parse (fst r) (rs_key rs))
              (saved @ map (\<lambda>item. (item_raw item, item_deliveryId item)) queue)
        in (case start_replay env now parse ws rows (set_socket ws rs1 (s\<lparr>nr_rooms := rooms\<rparr>)) of (os, s1) \<Rightarrow>
          (os, case jm_get (nr_sockets s1) ws of Some rs2 \<Rightarrow> rs2 | None \<Rightarrow> rs1, s1))))"

text \<open>The sockets a frame is forwarded to.\<close>

definition targets :: "nat \<Rightarrow> string \<Rightarrow> js \<Rightarrow> node_relay \<Rightarrow> nat list" where
  "targets ws room envelope s = map fst (filter (\<lambda>e. fst e \<noteq> ws \<and> rs_open (snd e)
     \<and> (field ''to'' envelope = JStr ''all'' \<or> rs_role (snd e) \<noteq> None \<and> rs_role (snd e) = role_of (field ''to'' envelope))
     \<and> matchesRecipient envelope (rs_key (snd e))) (room_sockets room s))"

definition js_time :: "js \<Rightarrow> time option" where
  "js_time v = (if nullish v then None else Some (num_of v))"

text \<open>The end of the handler: the frame goes to its targets, and a wake is requested.\<close>

definition forward_frame ::
  "send_env \<Rightarrow> time \<Rightarrow> nat \<Rightarrow> string \<Rightarrow> js \<Rightarrow> string \<Rightarrow> node_relay \<Rightarrow> relay_out list \<times> node_relay" where
  "forward_frame env now ws room envelope raw s =
     (case deliver_all env now Forwarded raw (field ''deliveryId'' envelope) (targets ws room envelope s) s of (os, s1) \<Rightarrow>
       (os @ (if field ''to'' envelope = JStr ''phone'' \<and> field ''wake'' envelope = JBool True then [Out_wake room envelope] else []), s1))"

text \<open>The mailbox of a reliable frame, and what the sender is told.\<close>

definition store_frame ::
  "(js \<Rightarrow> string) \<Rightarrow> cool_config \<Rightarrow> send_env \<Rightarrow> bool \<Rightarrow> time \<Rightarrow> nat \<Rightarrow> relay_socket \<Rightarrow> js \<Rightarrow> string \<Rightarrow> role \<Rightarrow> node_relay
     \<Rightarrow> (relay_out list \<times> node_relay) \<times> bool" where
  "store_frame stringify c env disk now ws rs envelope raw to_role s =
     (let i = str_of (field ''deliveryId'' envelope) in
      if \<not> disk then ((dropMessage ws rs envelope ''storage-unavailable'', s), False)
      else (case enqueue (nr_rooms s) (rs_room rs) to_role raw i (js_time (field ''expiresAt'' envelope)) now of (stored, rooms) \<Rightarrow>
        let s1 = s\<lparr>nr_rooms := rooms\<rparr> in
        (case queueOutcome stored (Some i) of
            Close token \<Rightarrow> (close_socket c now ws rs token JUndefined s1, False)
          | Drop reason \<Rightarrow> ((dropMessage ws rs envelope reason, s1), False)
          | Forward \<Rightarrow>
              (if rs_relayControl rs \<and> field ''from'' envelope = JStr ''phone'' \<and> to_role = Machine
                  \<and> isDurableSubmission (Some i) \<and> rs_open rs
               then deliver_to env now Stored_receipt ws (stringify (storedSubmissionNotice i)) JUndefined s1 else ([], s1), True))))"

text \<open>A deliverable envelope of a socket with a role.\<close>

definition route_frame ::
  "(js \<Rightarrow> string) \<Rightarrow> cool_config \<Rightarrow> send_env \<Rightarrow> bool \<times> bool \<Rightarrow> time \<Rightarrow> nat \<Rightarrow> relay_socket \<Rightarrow> js \<Rightarrow> string \<Rightarrow> node_relay
     \<Rightarrow> relay_out list \<times> node_relay" where
  "route_frame stringify c env disk now ws rs envelope raw s =
     (let due = (case rs_presenceAt rs of None \<Rightarrow> True | Some t \<Rightarrow> t = 0 \<or> now - t \<ge> 30000);
          rs1 = (if due then rs\<lparr>rs_presenceAt := Some now\<rparr> else rs);
          s1 = (if due then set_socket ws rs1 (presence_note (rs_room rs) (rs_role rs) (rs_key rs) now s) else s);
          kept = (if truthy (field ''stateKey'' envelope)
                  then (if fst disk then state_put (nr_states s1) (rs_room rs) envelope raw now (presence_rows (rs_room rs) s1) else None)
                  else Some (nr_states s1))
      in case kept of
           None \<Rightarrow> (dropMessage ws rs1 envelope ''storage-unavailable'', s1)
         | Some states \<Rightarrow>
             let s2 = s1\<lparr>nr_states := states\<rparr> in
             (case role_of (field ''to'' envelope) of
                Some to_role \<Rightarrow>
                  if truthy (field ''deliveryId'' envelope) then
                    (case store_frame stringify c env (snd disk) now ws rs1 envelope raw to_role s2 of ((os, s3), go) \<Rightarrow>
                      if go then (case forward_frame env now ws (rs_room rs) envelope raw s3 of (os', s4) \<Rightarrow> (os @ os', s4))
                      else (os, s3))
                  else forward_frame env now ws (rs_room rs) envelope raw s2
              | None \<Rightarrow> forward_frame env now ws (rs_room rs) envelope raw s2))"

text \<open>A deliverable envelope: the cool-down of a first frame, admission, the role.\<close>

definition accept_envelope ::
  "(js \<Rightarrow> string) \<Rightarrow> (string \<Rightarrow> js option) \<Rightarrow> cool_config \<Rightarrow> send_env \<Rightarrow> bool \<times> bool \<Rightarrow> time \<Rightarrow> nat \<Rightarrow> relay_socket \<Rightarrow> js \<Rightarrow> string
     \<Rightarrow> node_relay \<Rightarrow> relay_out list \<times> node_relay" where
  "accept_envelope stringify parse c env disk now ws rs envelope raw s =
     (let from_role = role_of (field ''from'' envelope);
          (refused, ns, es) = (if rs_role rs = None then refuseCoolingSocket c (ms_socket (rs_managed rs)) (nr_coolDowns s) envelope now
                               else (None, ms_socket (rs_managed rs), nr_coolDowns s));
          rs1 = with_socket (\<lambda>_. ns) rs; s1 = set_socket ws rs1 s\<lparr>nr_coolDowns := es\<rparr>
      in case refused of
           Some frame \<Rightarrow> ([Out_close ws frame], s1)
         | None \<Rightarrow>
           (if ms_commercial (rs_managed rs) \<and> (case ms_ticket (rs_managed rs) of None \<Rightarrow> False
                 | Some t \<Rightarrow> field ''from'' envelope \<noteq> JStr (ticket_role t))
            then close_socket c now ws rs1 Admission_required envelope s1
            else if ms_commercial (rs_managed rs) \<and> from_role = Some Machine \<and> \<not> admittedSocket (ms_socket (rs_managed rs)) now
            then close_socket c now ws rs1 (admissionCloseToken envelope) envelope s1
            else (case (rs_role rs, from_role) of
                (None, Some role) \<Rightarrow>
                  (case registerRole env now parse ws role envelope rs1 s1 of (os, rs2, s2) \<Rightarrow>
                    (case publishNodePresence stringify env now (rs_room rs)
                        (presence_note (rs_room rs) (rs_role rs2) (rs_key rs) now s2) of (os', s3) \<Rightarrow>
                      (case route_frame stringify c env disk now ws
                          (case jm_get (nr_sockets s3) ws of Some rs3 \<Rightarrow> rs3 | None \<Rightarrow> rs2) envelope raw s3 of (os'', s4) \<Rightarrow>
                        (os @ os' @ os'', s4))))
              | _ \<Rightarrow> if rs_role rs \<noteq> from_role then ([], s1)
                     else route_frame stringify c env disk now ws rs1 envelope raw s1)))"

text \<open>\<open>handleSocketMessage\<close>; \<open>None\<close> when the validation of the envelope throws.\<close>

definition handleSocketMessage ::
  "(js \<Rightarrow> string) \<Rightarrow> (string \<Rightarrow> js option) \<Rightarrow> cool_config \<Rightarrow> (js \<Rightarrow> string \<Rightarrow> js option) option \<Rightarrow> send_env \<Rightarrow> bool \<times> bool \<Rightarrow> time
     \<Rightarrow> nat \<Rightarrow> string \<Rightarrow> node_relay \<Rightarrow> (relay_out list \<times> node_relay) option" where
  "handleSocketMessage stringify parse c verify env disk now ws raw s = (case jm_get (nr_sockets s) ws of
       None \<Rightarrow> Some ([], s)
     | Some rs \<Rightarrow>
       if \<not> rs_open rs then Some ([], s)
       else if byteLength raw > MAX_WEBSOCKET_MESSAGE_BYTES then Some (close_socket c now ws rs Oversize_token JUndefined s)
       else
         (case consume parse (dl_responses (nr_delivery s)) ws raw now of (acked, acks) \<Rightarrow>
          let (ok, w) = (if acked then (True, rs_window rs) else acceptSocketFrame (rs_window rs) now MAX_SOCKET_MESSAGES_PER_SECOND);
              rs1 = rs\<lparr>rs_window := w\<rparr>; s1 = set_socket ws rs1 s\<lparr>nr_delivery := (nr_delivery s)\<lparr>dl_responses := acks\<rparr>\<rparr>
          in if \<not> ok then Some (close_socket c now ws rs1 Rate_limit JUndefined s1)
             else case parse raw of
                 None \<Rightarrow> Some ([], s1)
               | Some envelope \<Rightarrow>
                 (case renewManagedConnection c (map_option (\<lambda>f t. f t (rs_room rs)) verify) envelope now (rs_managed rs1) (nr_coolDowns s1) of
                    (renewal, ms, es) \<Rightarrow>
                   let rs2 = rs1\<lparr>rs_managed := ms\<rparr>; s2 = set_socket ws rs2 s1\<lparr>nr_coolDowns := es\<rparr> in
                   (case renewal of
                      Renewal_ignored \<Rightarrow> Some ([], s2)
                    | Renewal_rejected frame \<Rightarrow> Some (case frame of None \<Rightarrow> [] | Some f \<Rightarrow> [Out_close ws f], s2)
                    | Renewal_accepted message \<Rightarrow> Some ([Out_control ws message], s2)
                    | Not_renewal \<Rightarrow>
                      (case noteIngressFrame (rs_ingressFlow rs2) (rs_ingressReceived rs2) of (received, notices) \<Rightarrow>
                       let rs3 = rs2\<lparr>rs_ingressReceived := received\<rparr>; s3 = set_socket ws rs3 s2; os = map (Out_control ws) notices
                       in if field ''type'' envelope = JStr ''relay.ack'' \<and> validIdentifier (field ''deliveryId'' envelope) 180 then
                            Some (os, case rs_role rs3 of None \<Rightarrow> s3
                              | Some role \<Rightarrow> s3\<lparr>nr_rooms := node_acknowledge (nr_rooms s3) (rs_room rs) role (str_of (field ''deliveryId'' envelope)) now\<rparr>)
                          else (case envelopeProblem envelope (rs_room rs) now None of
                              Throws \<Rightarrow> None
                            | Expired \<Rightarrow> Some (os @ dropMessage ws rs3 envelope ''expired'', s3)
                            | Invalid \<Rightarrow> Some (os, s3)
                            | Deliverable \<Rightarrow> (case accept_envelope stringify parse c env disk now ws rs3 envelope raw s3 of (os', s4) \<Rightarrow>
                                Some (os @ os', s4))))))))"

section \<open>What a handler leaves alone\<close>

abbreviation closed_socket :: "relay_socket \<Rightarrow> relay_socket" where
  "closed_socket \<equiv> with_socket (n_open_update (\<lambda>_. False))"

lemma with_socket_simps [simp]:
  "rs_open (closed_socket rs) = False" "rs_room (closed_socket rs) = rs_room rs" "closed_socket (closed_socket rs) = closed_socket rs"
  "ms_socket (rs_managed (with_socket f rs)) = f (ms_socket (rs_managed rs))"
  by (simp_all add: with_socket_def)

text \<open>Every socket but \<open>ws\<close> stays as it was or is closed.\<close>

definition peers_kept :: "nat \<Rightarrow> node_relay \<Rightarrow> node_relay \<Rightarrow> bool" where
  "peers_kept ws s s' \<longleftrightarrow> (jm_wf (nr_sockets s) \<longrightarrow> jm_wf (nr_sockets s'))
     \<and> (\<forall>t trs'. t \<noteq> ws \<longrightarrow> jm_get (nr_sockets s') t = Some trs' \<longrightarrow>
          (\<exists>trs. jm_get (nr_sockets s) t = Some trs \<and> (trs' = trs \<or> trs' = closed_socket trs)))"

lemma peers_kept_refl [simp]: "peers_kept ws s s"
  by (auto simp: peers_kept_def)

lemma peers_kept_trans [trans]: "peers_kept ws s s1 \<Longrightarrow> peers_kept ws s1 s2 \<Longrightarrow> peers_kept ws s s2"
  unfolding peers_kept_def by (metis with_socket_simps(3))

lemma peers_kept_same: "nr_sockets s' = nr_sockets s \<Longrightarrow> peers_kept ws s s'"
  by (auto simp: peers_kept_def)

lemma peers_kept_set [simp]: "peers_kept ws s (set_socket ws rs s)"
  by (auto simp: peers_kept_def set_socket_def)

lemma peers_kept_open:
  "peers_kept ws s s' \<Longrightarrow> t \<noteq> ws \<Longrightarrow> jm_get (nr_sockets s') t = Some trs \<Longrightarrow> rs_open trs \<Longrightarrow> jm_get (nr_sockets s) t = Some trs"
  unfolding peers_kept_def by (metis with_socket_simps(1))

lemma peers_kept_wf: "peers_kept ws s s' \<Longrightarrow> jm_wf (nr_sockets s) \<Longrightarrow> jm_wf (nr_sockets s')"
  by (simp add: peers_kept_def)

lemma set_socket_fields [simp]:
  "nr_rooms (set_socket ws rs s) = nr_rooms s" "nr_states (set_socket ws rs s) = nr_states s"
  "nr_presence (set_socket ws rs s) = nr_presence s" "jm_get (nr_sockets (set_socket ws rs s)) t = (if t = ws then Some rs else jm_get (nr_sockets s) t)"
  by (simp_all add: set_socket_def)

text \<open>A send touches its socket and the delivery only.\<close>

lemma deliver_to_props:
  assumes "deliver_to env now why t raw i s = (os, s')"
  shows "Out_frame x y z \<in> set os \<Longrightarrow> x = t \<and> y = why \<and> z = raw \<and> (\<exists>trs. jm_get (nr_sockets s) t = Some trs \<and> rs_open trs)"
    "peers_kept ws s s'" "nr_rooms s' = nr_rooms s" "nr_states s' = nr_states s" "nr_presence s' = nr_presence s"
    "jm_get (nr_sockets s) u = Some rs \<Longrightarrow> \<exists>rs'. jm_get (nr_sockets s') u = Some rs' \<and> (rs' = rs \<or> rs' = closed_socket rs)"
proof -
  consider "os = []" "nr_sockets s' = nr_sockets s" "nr_rooms s' = nr_rooms s" "nr_states s' = nr_states s" "nr_presence s' = nr_presence s"
    | trs where "jm_get (nr_sockets s) t = Some trs" "rs_open trs" "os = [Out_frame t why raw]" "nr_sockets s' = nr_sockets s"
        "nr_rooms s' = nr_rooms s" "nr_states s' = nr_states s" "nr_presence s' = nr_presence s"
    | trs where "jm_get (nr_sockets s) t = Some trs" "os = [Out_backpressure t] \<or> os = [Out_terminated t]"
        "nr_sockets s' = jm_set (nr_sockets s) t (closed_socket trs)"
        "nr_rooms s' = nr_rooms s" "nr_states s' = nr_states s" "nr_presence s' = nr_presence s"
  proof (cases "jm_get (nr_sockets s) t")
    case None
    then show ?thesis using assms that(1) by (simp add: deliver_to_def)
  next
    case (Some trs)
    obtain r d where r: "socket_send (nr_delivery s) t \<lparr>sv_open = rs_open trs, sv_buffered = fst (env t (dl_next (nr_delivery s))),
        sv_throws = snd (env t (dl_next (nr_delivery s)))\<rparr> raw i now = (r, d)" by fastforce
    have sent: "r = Send_sent \<Longrightarrow> rs_open trs" using socket_send_sent r by fastforce
    show ?thesis using assms Some r sent that
      by (cases r) (auto simp: deliver_to_def set_socket_def Let_def)
  qed
  note c = this
  show "Out_frame x y z \<in> set os \<Longrightarrow> x = t \<and> y = why \<and> z = raw \<and> (\<exists>trs. jm_get (nr_sockets s) t = Some trs \<and> rs_open trs)"
    using c by cases auto
  show "peers_kept ws s s'" using c by cases (auto simp: peers_kept_def)
  show "nr_rooms s' = nr_rooms s" "nr_states s' = nr_states s" "nr_presence s' = nr_presence s" using c by (cases; simp)+
  show "jm_get (nr_sockets s) u = Some rs \<Longrightarrow> \<exists>rs'. jm_get (nr_sockets s') u = Some rs' \<and> (rs' = rs \<or> rs' = closed_socket rs)"
    using c by cases auto
qed

lemma deliver_all_props:
  "deliver_all env now why raw i wss s = (os, s') \<Longrightarrow>
     (\<forall>x y z. Out_frame x y z \<in> set os \<longrightarrow> x \<in> set wss \<and> y = why \<and> z = raw)
     \<and> peers_kept ws s s' \<and> nr_rooms s' = nr_rooms s \<and> nr_states s' = nr_states s \<and> nr_presence s' = nr_presence s
     \<and> (\<forall>rs. jm_get (nr_sockets s) u = Some rs \<longrightarrow> (\<exists>rs'. jm_get (nr_sockets s') u = Some rs' \<and> (rs' = rs \<or> rs' = closed_socket rs)))"
proof (induction wss arbitrary: s os s')
  case (Cons t wss)
  obtain os1 s1 where d: "deliver_to env now why t raw i s = (os1, s1)" by fastforce
  obtain os2 s2 where a: "deliver_all env now why raw i wss s1 = (os2, s2)" by fastforce
  have e: "os = os1 @ os2" "s' = s2" using Cons.prems d a by simp_all
  note p = deliver_to_props [OF d] and q = Cons.IH [OF a]
  show ?case
  proof (intro conjI allI impI)
    fix x y z assume "Out_frame x y z \<in> set os"
    then show "x \<in> set (t # wss)" "y = why" "z = raw" using p(1) [of x y z] q e by auto
  next
    show "peers_kept ws s s'" using p(2) [of ws] q e peers_kept_trans by blast
    show "nr_rooms s' = nr_rooms s" "nr_states s' = nr_states s" "nr_presence s' = nr_presence s" using p(3-5) q e by simp_all
  next
    fix rs assume "jm_get (nr_sockets s) u = Some rs"
    then obtain rs1 where "jm_get (nr_sockets s1) u = Some rs1" "rs1 = rs \<or> rs1 = closed_socket rs" using p(6) by blast
    then show "\<exists>rs'. jm_get (nr_sockets s') u = Some rs' \<and> (rs' = rs \<or> rs' = closed_socket rs)"
      using q e by (metis with_socket_simps(3))
  qed
qed auto

lemma close_socket_props:
  assumes "close_socket c now ws rs token v s = (os, s')"
  shows "Out_frame x y z \<notin> set os" "peers_kept ws s s'" "nr_rooms s' = nr_rooms s"
  using assms by (auto simp: close_socket_def set_socket_def peers_kept_def split: prod.splits option.splits)

lemma dropMessage_frames [simp]: "Out_frame x y z \<notin> set (dropMessage ws rs v reason)"
  by (simp add: dropMessage_def)

lemma presence_note_fields [simp]:
  "nr_sockets (presence_note room role i now s) = nr_sockets s" "nr_rooms (presence_note room role i now s) = nr_rooms s"
  "nr_states (presence_note room role i now s) = nr_states s"
  by (simp_all add: presence_note_def)

section \<open>Where frames go\<close>

text \<open>An open socket of the room, other than the sender's, with the addressed role and key.\<close>

definition addressed :: "nat \<Rightarrow> string \<Rightarrow> js \<Rightarrow> node_relay \<Rightarrow> nat \<Rightarrow> bool" where
  "addressed ws room envelope s t \<longleftrightarrow> t \<noteq> ws \<and> (\<exists>trs. jm_get (nr_sockets s) t = Some trs \<and> rs_room trs = room \<and> rs_open trs
     \<and> (field ''to'' envelope = JStr ''all'' \<or> rs_role trs \<noteq> None \<and> rs_role trs = role_of (field ''to'' envelope))
     \<and> matchesRecipient envelope (rs_key trs))"

text \<open>A reliable frame is in the mailbox of the role it is addressed to.\<close>

definition held :: "string \<Rightarrow> js \<Rightarrow> rooms \<Rightarrow> bool" where
  "held room envelope rooms \<longleftrightarrow> (\<forall>role. role_of (field ''to'' envelope) = Some role \<longrightarrow> truthy (field ''deliveryId'' envelope) \<longrightarrow>
     Some (str_of (field ''deliveryId'' envelope)) \<in> item_deliveryId ` set (node_rows room role rooms))"

text \<open>A phone of the room that asked for presence.\<close>

definition watches :: "string \<Rightarrow> node_relay \<Rightarrow> nat \<Rightarrow> bool" where
  "watches room s t \<longleftrightarrow> (\<exists>trs. jm_get (nr_sockets s) t = Some trs \<and> rs_room trs = room \<and> rs_presenceEnabled trs \<and> rs_role trs = Some Phone)"

text \<open>The stored frames a newly registered socket may be sent.\<close>

definition replayable :: "(string \<Rightarrow> js option) \<Rightarrow> time \<Rightarrow> relay_socket \<Rightarrow> role \<Rightarrow> node_relay \<Rightarrow> string \<Rightarrow> bool" where
  "replayable parse now rs role s text \<longleftrightarrow> matchesQueuedRecipient parse text (rs_key rs)
     \<and> (text \<in> item_raw ` set (node_rows (rs_room rs) role (nr_rooms s))
        \<or> role = Phone \<and> text \<in> set (state_list (nr_states s) (rs_room rs) (rs_key rs) now))"

lemma targets_addressed: "jm_wf (nr_sockets s) \<Longrightarrow> t \<in> set (targets ws room envelope s) \<Longrightarrow> addressed ws room envelope s t"
  by (auto simp: targets_def room_sockets_def addressed_def dest: jm_get_mem)

lemma addressed_before: "peers_kept ws s s' \<Longrightarrow> addressed ws room envelope s' t \<Longrightarrow> addressed ws room envelope s t"
  unfolding addressed_def using peers_kept_open by blast

lemma forward_frame_props:
  assumes "forward_frame env now ws room envelope raw s = (os, s')" "jm_wf (nr_sockets s)"
  shows "Out_frame t why text \<in> set os \<Longrightarrow> why = Forwarded \<and> text = raw \<and> addressed ws room envelope s t"
    "peers_kept ws s s'" "nr_rooms s' = nr_rooms s"
proof -
  obtain os1 where d: "deliver_all env now Forwarded raw (field ''deliveryId'' envelope) (targets ws room envelope s) s = (os1, s')"
    "\<And>x y z. Out_frame x y z \<in> set os \<longleftrightarrow> Out_frame x y z \<in> set os1"
    using assms(1) by (fastforce simp: forward_frame_def split: prod.splits if_splits)
  note p = deliver_all_props [OF d(1)]
  show "Out_frame t why text \<in> set os \<Longrightarrow> why = Forwarded \<and> text = raw \<and> addressed ws room envelope s t"
    using p d(2) targets_addressed [OF assms(2)] by blast
  show "peers_kept ws s s'" "nr_rooms s' = nr_rooms s" using p by blast+
qed

lemma enqueue_forward_held:
  assumes "enqueue rooms room role raw d x now = (stored, rooms')" "queueOutcome stored (Some d) = Forward"
  shows "Some d \<in> item_deliveryId ` set (node_rows room role rooms')"
proof -
  have "stored = STORED \<or> stored = DUPLICATE" using assms(2) by (auto simp: queueOutcome_def split: if_splits)
  with assms(1) show ?thesis
  proof (cases rule: enqueue_cases)
    case (4 rows)
    then show ?thesis using imageI [OF retained_set(1) [OF 4(4)], of item_deliveryId] by simp
  qed auto
qed

lemma store_frame_props:
  assumes "store_frame stringify c env disk now ws rs envelope raw role s = ((os, s'), go)"
  shows "Out_frame t why text \<in> set os \<Longrightarrow> why = Stored_receipt \<and> t = ws \<and> role = Machine \<and> field ''from'' envelope = JStr ''phone''
      \<and> text = stringify (storedSubmissionNotice (str_of (field ''deliveryId'' envelope))) \<and> go"
    "peers_kept ws s s'"
    "go \<Longrightarrow> Some (str_of (field ''deliveryId'' envelope)) \<in> item_deliveryId ` set (node_rows (rs_room rs) role (nr_rooms s'))"
proof -
  let ?i = "str_of (field ''deliveryId'' envelope)"
  obtain stored rooms where q: "enqueue (nr_rooms s) (rs_room rs) role raw ?i (js_time (field ''expiresAt'' envelope)) now = (stored, rooms)"
    by fastforce
  consider (drop) reason s1 where "os = dropMessage ws rs envelope reason" "s' = s1" "nr_sockets s1 = nr_sockets s" "\<not> go"
    | (close) token where "close_socket c now ws rs token JUndefined (s\<lparr>nr_rooms := rooms\<rparr>) = (os, s')" "\<not> go"
    | (sent) "deliver_to env now Stored_receipt ws (stringify (storedSubmissionNotice ?i)) JUndefined (s\<lparr>nr_rooms := rooms\<rparr>) = (os, s')"
        "go" "role = Machine" "field ''from'' envelope = JStr ''phone''" "queueOutcome stored (Some ?i) = Forward"
    | (quiet) "os = []" "s' = s\<lparr>nr_rooms := rooms\<rparr>" "go" "queueOutcome stored (Some ?i) = Forward"
  proof (cases disk)
    case False
    then show ?thesis using assms by (intro drop [of "''storage-unavailable''" s]) (simp_all add: store_frame_def Let_def)
  next
    case True
    show ?thesis
    proof (cases "queueOutcome stored (Some ?i)")
      case Forward
      show ?thesis
      proof (cases "rs_relayControl rs \<and> field ''from'' envelope = JStr ''phone'' \<and> role = Machine \<and> isDurableSubmission (Some ?i) \<and> rs_open rs")
        case True
        then show ?thesis using assms q \<open>disk\<close> Forward by (intro sent) (simp_all add: store_frame_def Let_def)
      next
        case False
        have "store_frame stringify c env disk now ws rs envelope raw role s = (([], s\<lparr>nr_rooms := rooms\<rparr>), True)"
          using \<open>disk\<close> by (simp only: store_frame_def Let_def q prod.case Forward queue_outcome.case if_not_P [OF False] not_True_eq_False if_False)
        then show ?thesis using assms Forward by (intro quiet) simp_all
      qed
    next
      case (Drop reason)
      then show ?thesis using assms q True by (intro drop [of reason "s\<lparr>nr_rooms := rooms\<rparr>"]) (auto simp: store_frame_def Let_def)
    next
      case (Close token)
      then show ?thesis using assms q True by (intro close [of token]) (simp_all add: store_frame_def Let_def)
    qed
  qed
  note c = this
  show "Out_frame t why text \<in> set os \<Longrightarrow> why = Stored_receipt \<and> t = ws \<and> role = Machine \<and> field ''from'' envelope = JStr ''phone''
      \<and> text = stringify (storedSubmissionNotice ?i) \<and> go"
    using c close_socket_props(1) deliver_to_props(1) by cases fastforce+
  have b: "peers_kept ws s (s\<lparr>nr_rooms := rooms\<rparr>)" by (rule peers_kept_same) simp
  show "peers_kept ws s s'"
    using c peers_kept_trans [OF b close_socket_props(2)] peers_kept_trans [OF b deliver_to_props(2)] b
    by cases (auto intro: peers_kept_same)
  show "go \<Longrightarrow> Some ?i \<in> item_deliveryId ` set (node_rows (rs_room rs) role (nr_rooms s'))"
    using c enqueue_forward_held [OF q] deliver_to_props(3) by cases fastforce+
qed


text \<open>What a frame that the relay sends for an accepted envelope is.\<close>

definition legitimate ::
  "(js \<Rightarrow> string) \<Rightarrow> nat \<Rightarrow> string \<Rightarrow> js \<Rightarrow> string \<Rightarrow> node_relay \<Rightarrow> node_relay \<Rightarrow> nat \<Rightarrow> sent_as \<Rightarrow> string \<Rightarrow> bool" where
  "legitimate stringify ws room envelope raw s s' t why text \<longleftrightarrow>
     why = Forwarded \<and> text = raw \<and> addressed ws room envelope s t \<and> held room envelope (nr_rooms s')
     \<or> why = Stored_receipt \<and> t = ws \<and> text = stringify (storedSubmissionNotice (str_of (field ''deliveryId'' envelope)))
        \<and> field ''from'' envelope = JStr ''phone'' \<and> role_of (field ''to'' envelope) = Some Machine
        \<and> truthy (field ''deliveryId'' envelope) \<and> held room envelope (nr_rooms s')"

lemma legitimate_before:
  "peers_kept ws s s1 \<Longrightarrow> legitimate stringify ws room envelope raw s1 s' t why text \<Longrightarrow> legitimate stringify ws room envelope raw s s' t why text"
  using addressed_before by (auto simp: legitimate_def)

lemma route_frame_props:
  assumes run: "route_frame stringify c env disk now ws rs envelope raw s = (os, s')" and wf: "jm_wf (nr_sockets s)"
  shows "Out_frame t why text \<in> set os \<Longrightarrow> legitimate stringify ws (rs_room rs) envelope raw s s' t why text"
    "peers_kept ws s s'"
proof -
  let ?room = "rs_room rs"
  define due where "due \<longleftrightarrow> (case rs_presenceAt rs of None \<Rightarrow> True | Some t \<Rightarrow> t = 0 \<or> now - t \<ge> 30000)"
  define rs1 where "rs1 = (if due then rs\<lparr>rs_presenceAt := Some now\<rparr> else rs)"
  define s1 where "s1 = (if due then set_socket ws rs1 (presence_note ?room (rs_role rs) (rs_key rs) now s) else s)"
  have room: "rs_room rs1 = ?room" by (simp add: rs1_def)
  have k1: "peers_kept ws s (s1\<lparr>nr_states := st\<rparr>)" for st
    by (auto simp: s1_def set_socket_def peers_kept_def)
  consider (drop) "os = dropMessage ws rs1 envelope ''storage-unavailable''" "s' = s1"
    | (plain) st where "forward_frame env now ws ?room envelope raw (s1\<lparr>nr_states := st\<rparr>) = (os, s')"
        "role_of (field ''to'' envelope) = None \<or> \<not> truthy (field ''deliveryId'' envelope)"
    | (stored) st role os1 s2 os2 where "role_of (field ''to'' envelope) = Some role" "truthy (field ''deliveryId'' envelope)"
        "store_frame stringify c env (snd disk) now ws rs1 envelope raw role (s1\<lparr>nr_states := st\<rparr>) = ((os1, s2), True)"
        "forward_frame env now ws ?room envelope raw s2 = (os2, s')" "os = os1 @ os2"
    | (refused) st role where "role_of (field ''to'' envelope) = Some role"
        "store_frame stringify c env (snd disk) now ws rs1 envelope raw role (s1\<lparr>nr_states := st\<rparr>) = ((os, s'), False)"
    using run unfolding route_frame_def Let_def due_def [symmetric] rs1_def [symmetric] s1_def [symmetric]
    by (fastforce split: option.splits if_splits prod.splits)
  note c = this
  have "(Out_frame t why text \<in> set os \<longrightarrow> legitimate stringify ws ?room envelope raw s s' t why text) \<and> peers_kept ws s s'"
    using c
  proof cases
    case drop
    then show ?thesis using k1 [of "nr_states s1"] by simp
  next
    case (plain st)
    note f = forward_frame_props [OF plain(1) peers_kept_wf [OF k1 wf]]
    have "held ?room envelope (nr_rooms s')" using plain(2) by (auto simp: held_def)
    then show ?thesis using f(1) [of t why "text"] addressed_before [OF k1] peers_kept_trans [OF k1 f(2)]
      unfolding legitimate_def by blast
  next
    case (stored st role os1 s2 os2)
    note q = store_frame_props [OF stored(3)]
    have k2: "peers_kept ws s s2" using peers_kept_trans [OF k1 q(2)] .
    note f = forward_frame_props [OF stored(4) peers_kept_wf [OF k2 wf]]
    have "held ?room envelope (nr_rooms s')" using q(3) f(3) stored(1) room by (simp add: held_def)
    moreover have "Out_frame t why text \<in> set os1 \<or> Out_frame t why text \<in> set os2" if "Out_frame t why text \<in> set os"
      using that stored(5) by auto
    ultimately show ?thesis
      using f(1) [of t why "text"] addressed_before [OF k2] peers_kept_trans [OF k2 f(2)] q(1) [of t why "text"] stored(1,2)
      unfolding legitimate_def by blast
  next
    case (refused st role)
    note q = store_frame_props [OF refused(2)]
    show ?thesis using q(1) peers_kept_trans [OF k1 q(2)] by auto
  qed
  then show "Out_frame t why text \<in> set os \<Longrightarrow> legitimate stringify ws ?room envelope raw s s' t why text" "peers_kept ws s s'"
    by blast+
qed

lemma start_replay_props:
  assumes "start_replay env now parse ws rows s = (os, s')"
  shows "Out_frame t why text \<in> set os \<Longrightarrow> why = Replayed \<and> t = ws \<and> text \<in> fst ` set rows"
    "Out_replay t rest \<in> set os \<Longrightarrow> t = ws \<and> set rest \<subseteq> set rows"
    "peers_kept ws s s'" "jm_get (nr_sockets s) ws = Some rs \<Longrightarrow> \<exists>rs'. jm_get (nr_sockets s') ws = Some rs' \<and> (rs' = rs \<or> rs' = closed_socket rs)"
proof -
  have "(Out_frame t why text \<in> set os \<longrightarrow> why = Replayed \<and> t = ws \<and> text \<in> fst ` set rows)
      \<and> (Out_replay t rest \<in> set os \<longrightarrow> t = ws \<and> set rest \<subseteq> set rows) \<and> peers_kept ws s s'
      \<and> (\<forall>rs. jm_get (nr_sockets s) ws = Some rs \<longrightarrow> (\<exists>rs'. jm_get (nr_sockets s') ws = Some rs' \<and> (rs' = rs \<or> rs' = closed_socket rs)))"
  proof (cases rows)
    case (Cons r rest')
    obtain raw i where r: "r = (raw, i)" by fastforce
    obtain os1 where d: "deliver_to env now Replayed ws raw (case i of Some d \<Rightarrow> JStr d
              | None \<Rightarrow> (case parse raw of None \<Rightarrow> JUndefined | Some v \<Rightarrow> field ''deliveryId'' v)) s = (os1, s')"
      "os = os1 @ (if Out_frame ws Replayed raw \<in> set os1 then [Out_replay ws rest'] else [])"
      using assms Cons r by (auto simp: start_replay_def split: prod.splits)
    have "Out_replay t rest \<notin> set os1"
      using d(1) by (auto simp: deliver_to_def Let_def split: option.splits prod.splits send_result.splits)
    moreover have "Out_frame t why text \<in> set os1" if "Out_frame t why text \<in> set os" using that d(2) by (simp split: if_splits)
    moreover have "Out_replay t rest = Out_replay ws rest'" if "Out_replay t rest \<in> set os" "Out_replay t rest \<notin> set os1"
      using that d(2) by (simp split: if_splits)
    moreover have "raw \<in> fst ` set rows" "set rest' \<subseteq> set rows" using Cons r by auto
    ultimately show ?thesis using deliver_to_props(1) [OF d(1), of t why "text"] deliver_to_props(2,6) [OF d(1)] by blast
  qed (use assms in \<open>auto simp: start_replay_def\<close>)
  then show "Out_frame t why text \<in> set os \<Longrightarrow> why = Replayed \<and> t = ws \<and> text \<in> fst ` set rows"
    "Out_replay t rest \<in> set os \<Longrightarrow> t = ws \<and> set rest \<subseteq> set rows"
    "peers_kept ws s s'" "jm_get (nr_sockets s) ws = Some rs \<Longrightarrow> \<exists>rs'. jm_get (nr_sockets s') ws = Some rs' \<and> (rs' = rs \<or> rs' = closed_socket rs)"
    by blast+
qed

lemma watches_before: "peers_kept ws s s' \<Longrightarrow> t \<noteq> ws \<Longrightarrow> watches room s' t \<Longrightarrow> watches room s t"
  unfolding watches_def peers_kept_def by (fastforce simp: with_socket_def)

lemma publish_props:
  assumes "publishNodePresence stringify env now room s = (os, s')" "jm_wf (nr_sockets s)"
  shows "Out_frame t why text \<in> set os \<Longrightarrow> why = Presence_update \<and> watches room s t" "peers_kept ws s s'"
    "jm_get (nr_sockets s) u = Some rs \<Longrightarrow> \<exists>rs'. jm_get (nr_sockets s') u = Some rs' \<and> (rs' = rs \<or> rs' = closed_socket rs)"
proof -
  note d = deliver_all_props [OF assms(1) [unfolded publishNodePresence_def Let_def]]
  show "Out_frame t why text \<in> set os \<Longrightarrow> why = Presence_update \<and> watches room s t"
    using d assms(2) by (fastforce simp: room_sockets_def watches_def dest: jm_get_mem)
  show "peers_kept ws s s'"
    "jm_get (nr_sockets s) u = Some rs \<Longrightarrow> \<exists>rs'. jm_get (nr_sockets s') u = Some rs' \<and> (rs' = rs \<or> rs' = closed_socket rs)"
    using d by blast+
qed

lemma registerRole_props:
  assumes "registerRole env now parse ws role envelope rs s = (os, rs2, s2)"
  shows "Out_frame t why text \<in> set os \<Longrightarrow> why = Replayed \<and> t = ws \<and> replayable parse now rs role s text"
    "peers_kept ws s s2" "rs_room rs2 = rs_room rs" "rs_key rs2 = rs_key rs" "rs_role rs2 = Some role" "jm_get (nr_sockets s2) ws = Some rs2"
proof -
  let ?f = "\<lambda>n. n\<lparr>n_role := Some role, n_identity := identityOf (n\<lparr>n_role := Some role\<rparr>) envelope\<rparr>"
  obtain queue rooms where q: "node_queue (nr_rooms s) (rs_room rs) role now = (queue, rooms)" by fastforce
  define saved where "saved = (if role = Phone then map (\<lambda>raw. (raw, None :: string option)) (state_list (nr_states s) (rs_room rs) (rs_key rs) now) else [])"
  define rows where "rows = filter (\<lambda>r. matchesQueuedRecipient parse (fst r) (rs_key rs))
              (saved @ map (\<lambda>item. (item_raw item, item_deliveryId item)) queue)"
  let ?s = "set_socket ws (with_socket ?f rs) (s\<lparr>nr_rooms := rooms\<rparr>)"
  have r: "start_replay env now parse ws rows ?s = (os, s2)"
    "rs2 = (case jm_get (nr_sockets s2) ws of Some r \<Rightarrow> r | None \<Rightarrow> with_socket ?f rs)"
    using assms q by (auto simp: registerRole_def Let_def rows_def saved_def split: prod.splits)
  note p = start_replay_props [OF r(1)]
  have "replayable parse now rs role s x" if "x \<in> fst ` set rows" for x
    using that node_queue_rows(1) [OF q] by (auto simp: rows_def saved_def replayable_def split: if_splits)
  then show "Out_frame t why text \<in> set os \<Longrightarrow> why = Replayed \<and> t = ws \<and> replayable parse now rs role s text"
    using p(1) [of t why "text"] by blast
  have "peers_kept ws s ?s" by (auto simp: peers_kept_def set_socket_def)
  then show "peers_kept ws s s2" using p(3) peers_kept_trans by blast
  obtain rs' where rs': "jm_get (nr_sockets s2) ws = Some rs'" "rs' = with_socket ?f rs \<or> rs' = closed_socket (with_socket ?f rs)"
    using p(4) by fastforce
  then show "rs_room rs2 = rs_room rs" "rs_key rs2 = rs_key rs" "rs_role rs2 = Some role" "jm_get (nr_sockets s2) ws = Some rs2"
    using r(2) by (auto simp: with_socket_def)
qed

text \<open>The sender of an accepted envelope has the role it claims, and its admission on a managed relay.\<close>

definition sender_ok :: "time \<Rightarrow> relay_socket \<Rightarrow> js \<Rightarrow> bool" where
  "sender_ok now rs envelope \<longleftrightarrow> role_of (field ''from'' envelope) \<noteq> None
     \<and> (rs_role rs = None \<or> rs_role rs = role_of (field ''from'' envelope))
     \<and> (ms_commercial (rs_managed rs) \<longrightarrow> (\<forall>t. ms_ticket (rs_managed rs) = Some t \<longrightarrow> field ''from'' envelope = JStr (ticket_role t))
        \<and> (role_of (field ''from'' envelope) = Some Machine \<longrightarrow> admittedSocket (ms_socket (rs_managed rs)) now))"

definition frame_ok ::
  "(js \<Rightarrow> string) \<Rightarrow> (string \<Rightarrow> js option) \<Rightarrow> time \<Rightarrow> nat \<Rightarrow> relay_socket \<Rightarrow> js \<Rightarrow> string \<Rightarrow> node_relay \<Rightarrow> node_relay \<Rightarrow> nat \<Rightarrow> sent_as
     \<Rightarrow> string \<Rightarrow> bool" where
  "frame_ok stringify parse now ws rs envelope raw s s' t why text \<longleftrightarrow> (case why of
       Replayed \<Rightarrow> t = ws \<and> rs_role rs = None
         \<and> (\<exists>role. role_of (field ''from'' envelope) = Some role \<and> replayable parse now rs role s text)
     | Presence_update \<Rightarrow> rs_role rs = None \<and> (t = ws \<or> watches (rs_room rs) s t)
     | _ \<Rightarrow> legitimate stringify ws (rs_room rs) envelope raw s s' t why text)"

lemma legitimate_ok:
  "legitimate stringify ws (rs_room rs) envelope raw s s' t why text \<Longrightarrow> frame_ok stringify parse now ws rs envelope raw s s' t why text"
  by (auto simp: frame_ok_def legitimate_def split: sent_as.splits)

lemma refuseCooling_kept:
  "refuseCoolingSocket c n es envelope now = (None, n', es') \<Longrightarrow> n' = n"
  by (auto simp: refuseCoolingSocket_def split: prod.splits if_splits)

lemma with_same [simp]: "with_socket (\<lambda>_. ms_socket (rs_managed rs)) rs = rs"
  by (simp add: with_socket_def)

text \<open>An accepted envelope, branch by branch.\<close>

lemma accept_envelope_cases:
  assumes run: "accept_envelope stringify parse c env disk now ws rs envelope raw s = (os, s')"
    and sender: "role_of (field ''from'' envelope) = Some role"
  obtains (closed) "\<And>x y z. Out_frame x y z \<notin> set os" "peers_kept ws s s'"
  | (registered) es os1 rs2 s2 os2 s3 rs3 os3 where "sender_ok now rs envelope" "rs_role rs = None"
      "registerRole env now parse ws role envelope rs (set_socket ws rs s\<lparr>nr_coolDowns := es\<rparr>) = (os1, rs2, s2)"
      "publishNodePresence stringify env now (rs_room rs) (presence_note (rs_room rs) (rs_role rs2) (rs_key rs) now s2) = (os2, s3)"
      "rs3 = (case jm_get (nr_sockets s3) ws of Some r \<Rightarrow> r | None \<Rightarrow> rs2)"
      "route_frame stringify c env disk now ws rs3 envelope raw s3 = (os3, s')" "os = os1 @ os2 @ os3"
  | (known) es where "sender_ok now rs envelope" "rs_role rs = Some role"
      "route_frame stringify c env disk now ws rs envelope raw (set_socket ws rs s\<lparr>nr_coolDowns := es\<rparr>) = (os, s')"
proof -
  obtain refused ns es where r: "(if rs_role rs = None then refuseCoolingSocket c (ms_socket (rs_managed rs)) (nr_coolDowns s) envelope now
      else (None, ms_socket (rs_managed rs), nr_coolDowns s)) = (refused, ns, es)" by (metis prod_cases3)
  define s1 where "s1 = set_socket ws rs s\<lparr>nr_coolDowns := es\<rparr>"
  define badrole where "badrole \<longleftrightarrow> ms_commercial (rs_managed rs) \<and> (case ms_ticket (rs_managed rs) of None \<Rightarrow> False
                 | Some t \<Rightarrow> field ''from'' envelope \<noteq> JStr (ticket_role t))"
  define unadmitted where "unadmitted \<longleftrightarrow> ms_commercial (rs_managed rs) \<and> role = Machine \<and> \<not> admittedSocket (ms_socket (rs_managed rs)) now"
  have k1: "peers_kept ws s s1" by (auto simp: s1_def set_socket_def peers_kept_def)
  show ?thesis
  proof (cases refused)
    case (Some frame)
    then have "os = [Out_close ws frame]" "s' = set_socket ws (with_socket (\<lambda>_. ns) rs) s\<lparr>nr_coolDowns := es\<rparr>"
      using run r by (simp_all add: accept_envelope_def)
    then show ?thesis by (intro closed) (auto simp: set_socket_def peers_kept_def)
  next
    case None
    have ns: "ns = ms_socket (rs_managed rs)" using r None refuseCooling_kept by (auto split: if_splits)
    have "accept_envelope stringify parse c env disk now ws rs envelope raw s = (if badrole then close_socket c now ws rs Admission_required envelope s1
        else if unadmitted then close_socket c now ws rs (admissionCloseToken envelope) envelope s1
        else (case (rs_role rs, Some role) of
                (None, Some role) \<Rightarrow>
                  (case registerRole env now parse ws role envelope rs s1 of (os, rs2, s2) \<Rightarrow>
                    (case publishNodePresence stringify env now (rs_room rs)
                        (presence_note (rs_room rs) (rs_role rs2) (rs_key rs) now s2) of (os', s3) \<Rightarrow>
                      (case route_frame stringify c env disk now ws
                          (case jm_get (nr_sockets s3) ws of Some rs3 \<Rightarrow> rs3 | None \<Rightarrow> rs2) envelope raw s3 of (os'', s4) \<Rightarrow>
                        (os @ os' @ os'', s4))))
              | _ \<Rightarrow> if rs_role rs \<noteq> Some role then ([], s1)
                     else route_frame stringify c env disk now ws rs envelope raw s1))"
      unfolding accept_envelope_def Let_def r None ns
      by (simp only: prod.case option.case with_same sender option.inject s1_def badrole_def unadmitted_def)
    note body = run [symmetric, unfolded this]
    show ?thesis
    proof (cases "badrole \<or> unadmitted")
      case True
      define token where "token = (if badrole then Admission_required else admissionCloseToken envelope)"
      have "close_socket c now ws rs token envelope s1 = (os, s')"
      proof (cases badrole)
        case True
        then show ?thesis using body unfolding token_def by (simp only: if_True)
      next
        case False
        then have "unadmitted" using True by blast
        with False show ?thesis using body unfolding token_def by (simp only: if_True if_False)
      qed
      note close = close_socket_props [OF this]
      show ?thesis by (rule closed [OF close(1) peers_kept_trans [OF k1 close(2)]])
    next
      case False
      have ok: "sender_ok now rs envelope" if "rs_role rs = None \<or> rs_role rs = Some role"
        using that False sender by (auto simp: sender_ok_def badrole_def unadmitted_def split: option.splits)
      consider "rs_role rs = None" | "rs_role rs = Some role" | "rs_role rs \<notin> {None, Some role}" by (metis empty_iff insertE)
      then show ?thesis
      proof cases
        case 1
        obtain os1 rs2 s2 where a: "registerRole env now parse ws role envelope rs s1 = (os1, rs2, s2)" by (metis prod_cases3)
        obtain os2 s3 where b: "publishNodePresence stringify env now (rs_room rs)
            (presence_note (rs_room rs) (rs_role rs2) (rs_key rs) now s2) = (os2, s3)" by fastforce
        obtain os3 s4 where d: "route_frame stringify c env disk now ws (case jm_get (nr_sockets s3) ws of Some r \<Rightarrow> r | None \<Rightarrow> rs2) envelope raw s3 = (os3, s4)"
          by fastforce
        have e: "os = os1 @ os2 @ os3" "s' = s4" using body False 1 a b d by simp_all
        show ?thesis by (rule registered [OF ok 1 a [unfolded s1_def] b refl d [folded e(2)] e(1)]) (use 1 in simp)
      next
        case 2
        then show ?thesis using ok body False known [of es] by (simp add: s1_def)
      next
        case 3
        then have "os = []" "s' = s1" using body False by (auto split: option.splits)
        then show ?thesis using k1 by (intro closed) simp_all
      qed
    qed
  qed
qed

lemma accept_envelope_props:
  assumes run: "accept_envelope stringify parse c env disk now ws rs envelope raw s = (os, s')"
    and sender: "role_of (field ''from'' envelope) = Some role" and wf: "jm_wf (nr_sockets s)"
  shows "Out_frame t why text \<in> set os \<Longrightarrow> frame_ok stringify parse now ws rs envelope raw s s' t why text \<and> sender_ok now rs envelope"
    "peers_kept ws s s'"
proof -
  have "(Out_frame t why text \<in> set os \<longrightarrow> frame_ok stringify parse now ws rs envelope raw s s' t why text \<and> sender_ok now rs envelope)
      \<and> peers_kept ws s s'"
    using run sender
  proof (cases rule: accept_envelope_cases)
    case closed
    then show ?thesis by blast
  next
    case (known es)
    let ?s = "set_socket ws rs s\<lparr>nr_coolDowns := es\<rparr>"
    have k: "peers_kept ws s ?s" by (auto simp: set_socket_def peers_kept_def)
    note f = route_frame_props [OF known(3) peers_kept_wf [OF k wf]]
    show ?thesis using f(1) [THEN legitimate_before [OF k], THEN legitimate_ok] known(1) peers_kept_trans [OF k f(2)] by blast
  next
    case (registered es os1 rs2 s2 os2 s3 rs3 os3)
    let ?s = "set_socket ws rs s\<lparr>nr_coolDowns := es\<rparr>" and ?t = "presence_note (rs_room rs) (rs_role rs2) (rs_key rs) now s2"
    have k: "peers_kept ws s ?s" by (auto simp: set_socket_def peers_kept_def)
    note a = registerRole_props [OF registered(3)]
    have k2: "peers_kept ws s ?t" using peers_kept_trans [OF k a(2)] by (simp add: peers_kept_def)
    note b = publish_props [OF registered(4) peers_kept_wf [OF k2 wf]]
    have k3: "peers_kept ws s s3" using peers_kept_trans [OF k2 b(2)] .
    have room: "rs_room rs3 = rs_room rs" using b(3) [of ws rs2] a(3,6) registered(5) by auto
    note f = route_frame_props [OF registered(6) peers_kept_wf [OF k3 wf], unfolded room]
    have "frame_ok stringify parse now ws rs envelope raw s s' t why text" if frame: "Out_frame t why text \<in> set os"
    proof -
      consider "Out_frame t why text \<in> set os1" | "Out_frame t why text \<in> set os2" | "Out_frame t why text \<in> set os3"
        using frame registered(7) by auto
      then show ?thesis
      proof cases
        case 1
        then show ?thesis using a(1) registered(2) sender by (fastforce simp: frame_ok_def replayable_def)
      next
        case 2
        then show ?thesis using b(1) watches_before [OF k2] registered(2) by (fastforce simp: frame_ok_def)
      next
        case 3
        then show ?thesis using f(1) [THEN legitimate_before [OF k3], THEN legitimate_ok] by blast
      qed
    qed
    then show ?thesis using registered(1) peers_kept_trans [OF k3 f(2)] by blast
  qed
  then show "Out_frame t why text \<in> set os \<Longrightarrow> frame_ok stringify parse now ws rs envelope raw s s' t why text \<and> sender_ok now rs envelope"
    "peers_kept ws s s'" by blast+
qed

section \<open>The handler\<close>

text \<open>A frame leaves the handler by way of an accepted envelope only.\<close>

lemma handler_frames:
  assumes run: "handleSocketMessage stringify parse c verify env disk now ws raw s = Some (os, s')"
    and frame: "Out_frame t why text \<in> set os"
  obtains rs rs3 envelope s3 os' where "jm_get (nr_sockets s) ws = Some rs" "rs_open rs" "parse raw = Some envelope"
    "envelopeProblem envelope (rs_room rs) now None = Deliverable" "rs_managed rs3 = rs_managed rs"
    "accept_envelope stringify parse c env disk now ws rs3 envelope raw s3 = (os', s')" "Out_frame t why text \<in> set os'"
    "peers_kept ws s s3" "nr_rooms s3 = nr_rooms s" "nr_states s3 = nr_states s"
proof -
  obtain rs where rs: "jm_get (nr_sockets s) ws = Some rs" "rs_open rs" "byteLength raw \<le> MAX_WEBSOCKET_MESSAGE_BYTES"
    using run frame close_socket_props(1) [of c now ws _ Oversize_token JUndefined s]
    by (auto simp: handleSocketMessage_def split: option.splits if_splits)
  obtain acked acks where a: "consume parse (dl_responses (nr_delivery s)) ws raw now = (acked, acks)" by fastforce
  obtain ok w where w: "(if acked then (True, rs_window rs) else acceptSocketFrame (rs_window rs) now MAX_SOCKET_MESSAGES_PER_SECOND) = (ok, w)"
    by fastforce
  define rs1 where "rs1 = rs\<lparr>rs_window := w\<rparr>"
  define s1 where "s1 = set_socket ws rs1 s\<lparr>nr_delivery := (nr_delivery s)\<lparr>dl_responses := acks\<rparr>\<rparr>"
  have ok: "ok"
  proof (rule ccontr)
    assume "\<not> ok"
    then have "(os, s') = close_socket c now ws rs1 Rate_limit JUndefined s1"
      using run rs a w by (simp add: handleSocketMessage_def rs1_def s1_def Let_def)
    then show False using close_socket_props(1) frame by metis
  qed
  obtain envelope where e: "parse raw = Some envelope"
    using run rs a w ok frame by (cases "parse raw") (auto simp: handleSocketMessage_def rs1_def s1_def)
  obtain renewal ms es where r: "renewManagedConnection c (map_option (\<lambda>f t. f t (rs_room rs)) verify) envelope now (rs_managed rs1) (nr_coolDowns s1)
      = (renewal, ms, es)" by (metis prod_cases3)
  define rs2 where "rs2 = rs1\<lparr>rs_managed := ms\<rparr>"
  define s2 where "s2 = set_socket ws rs2 s1\<lparr>nr_coolDowns := es\<rparr>"
  obtain received notices where n: "noteIngressFrame (rs_ingressFlow rs2) (rs_ingressReceived rs2) = (received, notices)" by fastforce
  define rs3 where "rs3 = rs2\<lparr>rs_ingressReceived := received\<rparr>"
  define s3 where "s3 = set_socket ws rs3 s2"
  let ?ack = "field ''type'' envelope = JStr ''relay.ack'' \<and> validIdentifier (field ''deliveryId'' envelope) 180"
  have body: "Some (os, s') = (case renewal of
        Renewal_ignored \<Rightarrow> Some ([], s2)
      | Renewal_rejected frame \<Rightarrow> Some (case frame of None \<Rightarrow> [] | Some f \<Rightarrow> [Out_close ws f], s2)
      | Renewal_accepted message \<Rightarrow> Some ([Out_control ws message], s2)
      | Not_renewal \<Rightarrow> if ?ack then Some (map (Out_control ws) notices, case rs_role rs3 of None \<Rightarrow> s3
          | Some role \<Rightarrow> s3\<lparr>nr_rooms := node_acknowledge (nr_rooms s3) (rs_room rs) role (str_of (field ''deliveryId'' envelope)) now\<rparr>)
        else (case envelopeProblem envelope (rs_room rs) now None of
            Throws \<Rightarrow> None
          | Expired \<Rightarrow> Some (map (Out_control ws) notices @ dropMessage ws rs3 envelope ''expired'', s3)
          | Invalid \<Rightarrow> Some (map (Out_control ws) notices, s3)
          | Deliverable \<Rightarrow> (case accept_envelope stringify parse c env disk now ws rs3 envelope raw s3 of (os', s4) \<Rightarrow>
              Some (map (Out_control ws) notices @ os', s4))))"
    using run rs a w ok e r n
    by (simp only: handleSocketMessage_def option.case not_True_eq_False if_False prod.case Let_def not_le [symmetric]
        rs1_def s1_def rs2_def s2_def rs3_def s3_def)
  have renewal: "renewal = Not_renewal" using body frame by (cases renewal) (auto split: option.splits)
  then have ms: "ms = rs_managed rs1"
    using r by (auto simp: renewManagedConnection_def split: if_splits option.splits prod.splits)
  obtain os' where acc: "accept_envelope stringify parse c env disk now ws rs3 envelope raw s3 = (os', s')"
    "os = map (Out_control ws) notices @ os'" "envelopeProblem envelope (rs_room rs) now None = Deliverable"
  proof (cases "envelopeProblem envelope (rs_room rs) now None")
    case Deliverable
    then show ?thesis using body renewal frame that by (auto split: if_splits prod.splits option.splits)
  qed (use body renewal frame in \<open>auto split: if_splits option.splits\<close>)
  have "Out_frame t why text \<in> set os'" using frame acc(2) by auto
  moreover have "rs_managed rs3 = rs_managed rs" by (simp add: rs3_def rs2_def rs1_def ms)
  moreover have "peers_kept ws s s3" "nr_rooms s3 = nr_rooms s" "nr_states s3 = nr_states s"
    by (auto simp: s3_def s2_def s1_def peers_kept_def set_socket_def)
  ultimately show ?thesis using that rs e acc by blast
qed

lemma frame_ok_managed:
  "rs_managed rs' = rs_managed rs \<Longrightarrow>
     frame_ok stringify parse now ws rs' envelope raw s s' t why text = frame_ok stringify parse now ws rs envelope raw s s' t why text"
  by (cases why) (simp_all add: frame_ok_def replayable_def)

lemma deliverable_roles:
  "envelopeProblem envelope room now m = Deliverable \<Longrightarrow> role_of (field ''from'' envelope) \<noteq> None
     \<and> field ''to'' envelope \<in> {JStr ''machine'', JStr ''phone'', JStr ''all''}"
  by (drule deliverable_header) (auto simp: envelope_header_ok_def)

section \<open>Properties\<close>

text \<open>C2: The relay sends a frame only to those it is for, and a reliable one only once it is stored. Whatever
  text arrives on a socket, a frame that leaves the relay because of it is one of these: the very text,
  of a deliverable envelope, from an open socket of the role the envelope claims (on a managed relay with
  the admission for it), to an open socket of the same room, not the sender's, with the addressed role
  and key, and when the envelope has a delivery id it is by then in the mailbox of that role; the receipt
  of a stored submission, to the phone that sent it, under the same condition; a stored frame for the
  role and key of the socket, when the envelope is its first; or the presence of the room, to a phone of
  the room that asked for it.\<close>

theorem frames_reach_addressees:
  assumes "handleSocketMessage stringify parse c verify env disk now ws raw s = Some (outs, s')"
    and "jm_wf (nr_sockets s)" "Out_frame t why text \<in> set outs"
  shows "\<exists>rs envelope. jm_get (nr_sockets s) ws = Some rs \<and> rs_open rs \<and> parse raw = Some envelope
     \<and> envelopeProblem envelope (rs_room rs) now None = Deliverable \<and> sender_ok now rs envelope
     \<and> frame_ok stringify parse now ws rs envelope raw s s' t why text"
proof -
  from assms(1,3) obtain rs rs3 envelope s3 os' where h: "jm_get (nr_sockets s) ws = Some rs" "rs_open rs" "parse raw = Some envelope"
    "envelopeProblem envelope (rs_room rs) now None = Deliverable" "rs_managed rs3 = rs_managed rs"
    "accept_envelope stringify parse c env disk now ws rs3 envelope raw s3 = (os', s')" "Out_frame t why text \<in> set os'"
    "peers_kept ws s s3" "nr_rooms s3 = nr_rooms s" "nr_states s3 = nr_states s"
    by (rule handler_frames)
  obtain role where role: "role_of (field ''from'' envelope) = Some role" using deliverable_roles [OF h(4)] by blast
  have "frame_ok stringify parse now ws rs3 envelope raw s3 s' t why text \<and> sender_ok now rs3 envelope"
    by (rule accept_envelope_props(1) [OF h(6) role peers_kept_wf [OF h(8) assms(2)] h(7)])
  then have "frame_ok stringify parse now ws rs envelope raw s3 s' t why text" "sender_ok now rs envelope"
    using frame_ok_managed [OF h(5)] by (simp_all add: sender_ok_def h(5))
  then have "frame_ok stringify parse now ws rs envelope raw s s' t why text"
    using legitimate_before [OF h(8)] watches_before [OF h(8)] h(9,10)
    by (cases why) (fastforce simp: frame_ok_def replayable_def)+
  then show ?thesis using h \<open>sender_ok now rs envelope\<close> by blast
qed

section \<open>Witnesses\<close>

definition sample_session :: "role \<Rightarrow> relay_socket" where
  "sample_session role = \<lparr>rs_managed = \<lparr>ms_socket = \<lparr>n_room = ''00112233445566aa'', n_role = Some role, n_recipientKeyId = None,
       n_identity = None, n_ticketExpiresAt = None, n_open = True, n_policyClose = False\<rparr>,
       ms_commercial = False, ms_ticket = None, ms_timer = None\<rparr>,
     rs_relayControl = False, rs_ingressFlow = False, rs_ingressReceived = None,
     rs_window = \<lparr>windowStartedAt = None, windowMessages = 0\<rparr>, rs_presenceEnabled = False, rs_presenceAt = Some 1000\<rparr>"

definition sample_relay :: node_relay where
  "sample_relay = \<lparr>nr_rooms = Map.empty, nr_states = [], nr_presence = Map.empty,
     nr_sockets = [(1, sample_session Machine), (2, sample_session Phone)], nr_delivery = createSocketDelivery, nr_coolDowns = []\<rparr>"

definition sample_frame :: js where
  "sample_frame = sample_envelope ''00112233445566aa'' ''machine'' ''phone'' []"

lemma sample_frame_deliverable: "envelopeProblem sample_frame ''00112233445566aa'' 1000 None = Deliverable"
  by (simp add: sample_frame_def sample_eval)

lemma sample_frame_fields:
  "field ''type'' sample_frame = JUndefined" "field ''from'' sample_frame = JStr ''machine''" "field ''to'' sample_frame = JStr ''phone''"
  "field ''stateKey'' sample_frame = JUndefined" "field ''deliveryId'' sample_frame = JUndefined" "field ''wake'' sample_frame = JUndefined"
  "field ''recipientKeyId'' sample_frame = JUndefined"
  by (simp_all add: sample_frame_def sample_envelope_def)

lemma sample_forward:
  "\<exists>s'. handleSocketMessage (\<lambda>_. []) (\<lambda>_. Some sample_frame) default_cool_down None (\<lambda>_ _. (0, False)) (True, True) 1000 1 ''frame'' sample_relay
     = Some ([Out_frame 2 Forwarded ''frame''], s')"
  by (simp add: handleSocketMessage_def sample_relay_def jm_get_def sample_session_def byteLength_def relay_limits consume_def
      sample_frame_fields sample_frame_deliverable acceptSocketFrame_def window_open_def MAX_SOCKET_MESSAGES_PER_SECOND_def
      renewManagedConnection_def noteIngressFrame_def accept_envelope_def route_frame_def forward_frame_def targets_def room_sockets_def
      with_socket_def set_socket_def matchesRecipient_def deliver_to_def socket_send_def createSocketDelivery_def issue_def Let_def)

theorem frames_reach_addressees_witness:
  "\<exists>rs s'. jm_get (nr_sockets sample_relay) 1 = Some rs \<and> sender_ok 1000 rs sample_frame
     \<and> frame_ok (\<lambda>_. []) (\<lambda>_. Some sample_frame) 1000 1 rs sample_frame ''frame'' sample_relay s' 2 Forwarded ''frame''"
proof -
  obtain s' where h: "handleSocketMessage (\<lambda>_. []) (\<lambda>_. Some sample_frame) default_cool_down None (\<lambda>_ _. (0, False)) (True, True) 1000 1 ''frame'' sample_relay
     = Some ([Out_frame 2 Forwarded ''frame''], s')" using sample_forward by blast
  have "jm_wf (nr_sockets sample_relay)" by (simp add: jm_wf_def sample_relay_def)
  from frames_reach_addressees [OF h this, of 2 Forwarded "''frame''"] show ?thesis by auto
qed

end
