(* ===== verification/Relay_Log.thy ===== *)
theory Relay_Log
  imports Connection_Policy "HOL-Library.Multiset"
begin

text \<open>
  The structured diagnostics of the relay, \<open>src/relay/relayLog.js\<close>. Shows: a line holds nothing but a
  short room tag, a role, small numbers and a reason token, whatever the caller passes; and the limits
  on the number of lines hold, in particular the memory of at most 1000 recent lines is never too small
  to suppress a repetition within ten seconds, because the limit per second keeps it from filling up.

  A line is the record of its fields; \<open>None\<close> is the exception of a conversion to a string.
\<close>

section \<open>Fields\<close>

definition LOG_INTERVAL_MS :: int where "LOG_INTERVAL_MS = 10000"
definition LOG_MAX_PER_SECOND :: nat where "LOG_MAX_PER_SECOND = 50"
definition LOG_MAX_KEYS :: nat where "LOG_MAX_KEYS = 1000"

lemmas [relay_limits] = LOG_INTERVAL_MS_def LOG_MAX_PER_SECOND_def LOG_MAX_KEYS_def

definition lower_char :: "char \<Rightarrow> bool" where
  "lower_char c \<longleftrightarrow> char_between CHR ''a'' CHR ''z'' c"

text \<open>\<open>/^[a-z][a-z0-9-]{0,47}$/\<close>, on a string and, after conversion, on any value: the text of the value when it is a token.\<close>

definition log_token :: "string \<Rightarrow> bool" where
  "log_token s \<longleftrightarrow> s \<noteq> [] \<and> lower_char (hd s)
     \<and> class_repeat (\<lambda>c. lower_char c \<or> char_between CHR ''0'' CHR ''9'' c \<or> c = CHR ''-'') 0 47 (tl s)"

text \<open>Booleans and \<open>[object Object]\<close>, whose texts are \<open>true\<close>, \<open>false\<close> and no token; numbers start with a
  digit or a minus sign.\<close>

fun log_token_text :: "js \<Rightarrow> string option" where
  "log_token_text (JStr s) = (if log_token s then Some s else None)"
| "log_token_text (JBool b) = Some (if b then ''true'' else ''false'')"
| "log_token_text (JArr [v]) = (if nullish v then None else log_token_text v)"
| "log_token_text _ = None"

definition roomTag :: "js \<Rightarrow> string" where
  "roomTag room = (if is_string room \<and> class_repeat hex_char 16 64 (str_of room) then take 8 (str_of room) else ''-'')"

record log_entry =
  le_room :: string
  le_role :: string
  le_code :: "int option"
  le_status :: "int option"
  le_retryAfter :: "int option"
  le_reason :: "js option"

definition log_number :: "js \<Rightarrow> int option" where
  "log_number v = (if isSafeInteger v \<and> num_of v \<ge> 0 then Some (num_of v) else None)"

definition sanitizeLogFields :: "js \<Rightarrow> log_entry option" where
  "sanitizeLogFields given =
     (let reason = field ''reason'' given in
      if given = JNull \<or> to_string_throws reason then None
      else Some \<lparr>le_room = roomTag (field ''room'' given),
        le_role = (if field ''role'' given \<in> {JStr ''machine'', JStr ''phone''} then str_of (field ''role'' given) else ''-''),
        le_code = log_number (field ''code'' given), le_status = log_number (field ''status'' given),
        le_retryAfter = log_number (field ''retryAfter'' given),
        le_reason = (if log_token_text reason \<noteq> None then Some reason else None)\<rparr>)"

section \<open>The logger\<close>

text \<open>The key under which repetitions are suppressed; its parts never contain the separator of the source.\<close>

type_synonym log_key = "string \<times> string \<times> string \<times> string option \<times> int option"

definition log_key_of :: "string \<Rightarrow> log_entry \<Rightarrow> log_key" where
  "log_key_of event e = (event, le_room e, le_role e, Option.bind (le_reason e) log_token_text, case le_code e of Some c \<Rightarrow> Some c | None \<Rightarrow> le_status e)"

record log_state =
  lg_seen :: "(log_key, time \<times> nat) jmap"
  lg_started :: "time option"
  lg_lines :: nat

definition createRelayLog :: log_state where
  "createRelayLog = \<lparr>lg_seen = [], lg_started = None, lg_lines = 0\<rparr>"

record log_line =
  ll_time :: time
  ll_event :: string
  ll_entry :: log_entry
  ll_suppressed :: "nat option"

definition event_token :: "string \<Rightarrow> bool" where
  "event_token event = log_token (map (\<lambda>c. if c = CHR ''.'' \<or> c = CHR ''_'' then CHR ''-'' else c) event)"

text \<open>A clean entry: whether and what is written, and the state after it.\<close>

definition log_entry_step :: "string \<Rightarrow> log_entry \<Rightarrow> time \<Rightarrow> log_state \<Rightarrow> log_line option \<times> log_state" where
  "log_entry_step event entry now s =
     (let key = log_key_of event entry; previous = jm_get (lg_seen s) key;
          suppress = (case previous of None \<Rightarrow> (\<lambda>m. m) | Some (t, n) \<Rightarrow> (\<lambda>m. jm_set m key (t, n + 1)))
      in if (case previous of None \<Rightarrow> False | Some (t, n) \<Rightarrow> now - t < LOG_INTERVAL_MS)
         then (None, s\<lparr>lg_seen := suppress (lg_seen s)\<rparr>)
         else let s1 = (if (case lg_started s of None \<Rightarrow> True | Some t \<Rightarrow> now - t \<ge> 1000)
                        then s\<lparr>lg_started := Some now, lg_lines := 0\<rparr> else s)
           in if lg_lines s1 \<ge> LOG_MAX_PER_SECOND then (None, s1\<lparr>lg_seen := suppress (lg_seen s1)\<rparr>)
              else let seen = jm_set (jm_delete (lg_seen s1) key) key (now, 0)
                in (Some \<lparr>ll_time = now, ll_event = event, ll_entry = entry,
                          ll_suppressed = (case previous of None \<Rightarrow> None | Some (t, n) \<Rightarrow> if n = 0 then None else Some n)\<rparr>,
                    s1\<lparr>lg_lines := lg_lines s1 + 1, lg_seen := if length seen > LOG_MAX_KEYS then tl seen else seen\<rparr>))"

definition relay_log :: "string \<Rightarrow> js \<Rightarrow> time \<Rightarrow> log_state \<Rightarrow> (log_line option \<times> log_state) option" where
  "relay_log event given now s =
     (if \<not> event_token event then Some (None, s)
      else map_option (\<lambda>entry. log_entry_step event entry now s) (sanitizeLogFields given))"

section \<open>Runs\<close>

text \<open>The lines written for a sequence of calls; a call that throws leaves the logger as it was.\<close>

fun log_run :: "(string \<times> js \<times> time) list \<Rightarrow> log_state \<Rightarrow> log_line list \<times> log_state" where
  "log_run [] s = ([], s)"
| "log_run ((event, given, now) # calls) s = (case relay_log event given now s of
       None \<Rightarrow> log_run calls s
     | Some (line, s1) \<Rightarrow> (case log_run calls s1 of (ls, s2) \<Rightarrow> (case line of None \<Rightarrow> ls | Some l \<Rightarrow> l # ls, s2)))"

definition line_key :: "log_line \<Rightarrow> log_key" where
  "line_key l = log_key_of (ll_event l) (ll_entry l)"

text \<open>The invariant, with the lines \<open>ws\<close> written so far: the lines since \<open>x\<close> are bounded by the seconds
  that started since, the remembered lines are among those written, in the order of their times, and
  every line of the last ten seconds is remembered.\<close>

definition since :: "time \<Rightarrow> log_line list \<Rightarrow> nat" where
  "since x ws = length (filter (\<lambda>l. x \<le> ll_time l) ws)"

definition rate_ok :: "log_state \<Rightarrow> log_line list \<Rightarrow> bool" where
  "rate_ok s ws \<longleftrightarrow> lg_lines s \<le> LOG_MAX_PER_SECOND \<and> (case lg_started s of
       None \<Rightarrow> ws = []
     | Some start \<Rightarrow> \<forall>x. int (since x ws) \<le> (if x \<le> start then 50 * ((start - x) div 1000 + 1) else 0) + int (lg_lines s))"

definition seen_ok :: "log_state \<Rightarrow> log_line list \<Rightarrow> bool" where
  "seen_ok s ws \<longleftrightarrow> jm_wf (lg_seen s) \<and> sorted (map (\<lambda>e. fst (snd e)) (lg_seen s)) \<and> length (lg_seen s) \<le> LOG_MAX_KEYS
     \<and> mset (map (\<lambda>e. fst (snd e)) (lg_seen s)) \<subseteq># mset (map ll_time ws)"

definition remembered :: "time \<Rightarrow> log_state \<Rightarrow> log_line list \<Rightarrow> bool" where
  "remembered now s ws \<longleftrightarrow> (\<forall>l\<in>set ws. now - ll_time l < LOG_INTERVAL_MS \<longrightarrow>
     (\<exists>t n. jm_get (lg_seen s) (line_key l) = Some (t, n) \<and> ll_time l \<le> t))"

section \<open>The rate\<close>

lemma since_append: "since x (ws @ [l]) = since x ws + (if x \<le> ll_time l then 1 else 0)"
  by (simp add: since_def)

lemma log_entry_step_cases:
  assumes "log_entry_step event entry now s = (line, s')"
  defines "key \<equiv> log_key_of event entry"
  obtains (suppressed) "line = None" "lg_started s' = lg_started s" "lg_lines s' = lg_lines s"
      "lg_seen s' = lg_seen s \<or> (\<exists>t n. jm_get (lg_seen s) key = Some (t, n) \<and> lg_seen s' = jm_set (lg_seen s) key (t, n + 1))"
  | (full) "line = None" "lg_started s' = lg_started s" "lg_lines s' = lg_lines s" "lg_started s \<noteq> None"
      "lg_seen s' = lg_seen s \<or> (\<exists>t n. jm_get (lg_seen s) key = Some (t, n) \<and> lg_seen s' = jm_set (lg_seen s) key (t, n + 1))"
  | (written) l where "line = Some l" "ll_time l = now" "line_key l = key" "ll_event l = event" "ll_entry l = entry"
      "\<And>t n. jm_get (lg_seen s) key = Some (t, n) \<Longrightarrow> LOG_INTERVAL_MS \<le> now - t"
      "lg_seen s' = (let seen = jm_set (jm_delete (lg_seen s) key) key (now, 0) in if length seen > LOG_MAX_KEYS then tl seen else seen)"
      "(case lg_started s of None \<Rightarrow> True | Some t \<Rightarrow> now - t \<ge> 1000) \<and> lg_started s' = Some now \<and> lg_lines s' = 1
       \<or> (\<exists>t. lg_started s = Some t \<and> now - t < 1000) \<and> lg_started s' = lg_started s \<and> lg_lines s' = lg_lines s + 1
          \<and> lg_lines s < LOG_MAX_PER_SECOND"
proof -
  let ?prev = "jm_get (lg_seen s) key"
  define s1 where "s1 = (if (case lg_started s of None \<Rightarrow> True | Some t \<Rightarrow> now - t \<ge> 1000)
                        then s\<lparr>lg_started := Some now, lg_lines := 0\<rparr> else s)"
  have new: "lg_lines s1 \<ge> LOG_MAX_PER_SECOND \<Longrightarrow> s1 = s \<and> lg_started s \<noteq> None"
    by (auto simp: s1_def relay_limits split: if_splits option.splits)
  show ?thesis
  proof (cases "case ?prev of None \<Rightarrow> False | Some (t, n) \<Rightarrow> now - t < LOG_INTERVAL_MS")
    case True
    then obtain t n where p: "?prev = Some (t, n)" "now - t < LOG_INTERVAL_MS" by (auto split: option.splits)
    then have "line = None" "s' = s\<lparr>lg_seen := jm_set (lg_seen s) key (t, n + 1)\<rparr>"
      using assms(1) by (simp_all add: log_entry_step_def Let_def key_def)
    then show ?thesis using p by (intro suppressed) auto
  next
    case recent: False
    show ?thesis
    proof (cases "lg_lines s1 \<ge> LOG_MAX_PER_SECOND")
      case True
      then have s1: "s1 = s" "lg_started s \<noteq> None" using new by blast+
      have "line = None" "s' = s\<lparr>lg_seen := (case ?prev of None \<Rightarrow> lg_seen s | Some (t, n) \<Rightarrow> jm_set (lg_seen s) key (t, n + 1))\<rparr>"
        using assms(1) recent True unfolding log_entry_step_def Let_def key_def [symmetric] s1_def [symmetric] s1
        by (auto split: option.splits prod.splits)
      then show ?thesis using s1 by (intro full) (auto split: option.splits)
    next
      case False
      define l where "l = \<lparr>ll_time = now, ll_event = event, ll_entry = entry,
          ll_suppressed = (case ?prev of None \<Rightarrow> None | Some (t, n) \<Rightarrow> if n = 0 then None else Some n)\<rparr>"
      have e: "line = Some l" "lg_started s' = lg_started s1" "lg_lines s' = lg_lines s1 + 1"
        "lg_seen s' = (let seen = jm_set (jm_delete (lg_seen s1) key) key (now, 0) in if length seen > LOG_MAX_KEYS then tl seen else seen)"
        using assms(1) recent False unfolding log_entry_step_def Let_def key_def [symmetric] s1_def [symmetric] l_def
        by (auto split: option.splits prod.splits)
      have "lg_seen s1 = lg_seen s" by (simp add: s1_def)
      then show ?thesis
        using e recent False by (intro written [of l]) (auto simp: l_def line_key_def key_def s1_def split: option.splits if_splits prod.splits)
    qed
  qed
qed

lemma rate_ok_same: "rate_ok s ws \<Longrightarrow> lg_started s' = lg_started s \<Longrightarrow> lg_lines s' = lg_lines s \<Longrightarrow> rate_ok s' ws"
  unfolding rate_ok_def by (simp only:)

lemma rate_step:
  assumes ok: "rate_ok s ws" and times: "\<forall>l\<in>set ws. ll_time l \<le> now" "lg_started s = Some start \<Longrightarrow> start \<le> now"
    and step: "log_entry_step event entry now s = (line, s')"
  shows "rate_ok s' (case line of None \<Rightarrow> ws | Some l \<Rightarrow> ws @ [l])"
  using step
proof (cases rule: log_entry_step_cases)
  case (written l)
  have later: "since x ws = 0" if "now < x" for x
    using times(1) that by (auto simp: since_def filter_empty_conv)
  show ?thesis
  proof (cases "\<exists>t. lg_started s = Some t \<and> now - t < 1000")
    case True
    then obtain t where t: "lg_started s = Some t" "now - t < 1000" by blast
    then have e: "lg_started s' = Some t" "lg_lines s' = lg_lines s + 1" "lg_lines s < LOG_MAX_PER_SECOND"
      using written(8) by auto
    have "int (since x ws) \<le> (if x \<le> t then 50 * ((t - x) div 1000 + 1) else 0) + int (lg_lines s)" for x
      using ok t by (simp add: rate_ok_def)
    moreover have "since x (ws @ [l]) \<le> since x ws + 1" for x by (simp add: since_append)
    ultimately have "int (since x (ws @ [l])) \<le> (if x \<le> t then 50 * ((t - x) div 1000 + 1) else 0) + int (lg_lines s')" for x
      using e(2) by (smt (verit) of_nat_1 of_nat_add of_nat_le_iff)
    then show ?thesis using e written(1) unfolding rate_ok_def by simp
  next
    case False
    then have e: "lg_started s' = Some now" "lg_lines s' = 1" using written(8) by (auto split: option.splits)
    have "int (since x ws) \<le> 50 * ((now - x) div 1000 + 1)" if "x \<le> now" for x
    proof (cases "lg_started s")
      case None
      then show ?thesis using ok that by (simp add: rate_ok_def since_def)
    next
      case (Some t)
      then have t: "t + 1000 \<le> now" using False by auto
      have b: "int (since x ws) \<le> (if x \<le> t then 50 * ((t - x) div 1000 + 1) else 0) + int (lg_lines s)" "lg_lines s \<le> 50"
        using ok Some by (simp_all add: rate_ok_def relay_limits)
      have "(t - x) div 1000 + 1 \<le> (now - x) div 1000"
        using t zdiv_mono1 [of "t - x + 1000" "now - x" 1000] by simp
      moreover have "0 \<le> (now - x) div 1000" using that by simp
      ultimately show ?thesis using b by (auto split: if_splits)
    qed
    then show ?thesis using e written(1,2) later unfolding rate_ok_def
      by (auto simp: since_append relay_limits add.commute)
  qed
qed (use ok rate_ok_same in auto)

section \<open>What is remembered\<close>

lemma jm_set_times: "jm_get m k = Some (t, n) \<Longrightarrow> map (\<lambda>e. fst (snd e)) (jm_set m k (t, n')) = map (\<lambda>e. fst (snd e)) m"
  by (induction m) (auto simp: jm_get_def split: if_splits)

lemma recent_lines:
  assumes "rate_ok s ws" "lg_started s = Some start" "start \<le> now"
  shows "since (now - 9999) ws \<le> 550"
proof -
  have "int (since (now - 9999) ws) \<le> (if now - 9999 \<le> start then 50 * ((start - (now - 9999)) div 1000 + 1) else 0) + int (lg_lines s)"
    "lg_lines s \<le> 50" using assms(1,2) by (simp_all add: rate_ok_def relay_limits)
  moreover have "(start - (now - 9999)) div 1000 \<le> 9" using assms(3) zdiv_mono1 [of "start - (now - 9999)" 9999 1000] by simp
  ultimately show ?thesis by (auto split: if_splits)
qed

lemma submset_since:
  assumes "mset ts \<subseteq># mset (map ll_time ws)"
  shows "length (filter (\<lambda>t. x \<le> t) ts) \<le> since x ws"
proof -
  have "filter_mset (\<lambda>t. x \<le> t) (mset ts) \<subseteq># filter_mset (\<lambda>t. x \<le> t) (mset (map ll_time ws))"
    using assms by (rule multiset_filter_mono)
  from size_mset_mono [OF this] have "length (filter (\<lambda>t. x \<le> t) ts) \<le> length (filter (\<lambda>t. x \<le> t) (map ll_time ws))"
    by (simp only: mset_filter [symmetric] size_mset)
  then show ?thesis by (simp add: since_def filter_map comp_def)
qed

text \<open>The oldest of more than 1000 remembered lines is older than ten seconds.\<close>

lemma forgotten_is_old:
  assumes "sorted ts" "mset ts \<subseteq># mset (map ll_time ws)" "since (now - 9999) ws \<le> 550" "length ts > 1000"
  shows "LOG_INTERVAL_MS \<le> now - hd ts"
proof (rule ccontr)
  assume young: "\<not> ?thesis"
  have "now - 9999 \<le> x" if "x \<in> set ts" for x
  proof -
    have "hd ts \<le> x" using assms(1,4) that by (cases ts) auto
    then show ?thesis using young by (simp add: relay_limits)
  qed
  then have "filter (\<lambda>x. now - 9999 \<le> x) ts = ts" by (simp add: filter_id_conv)
  then show False using submset_since [OF assms(2), of "now - 9999"] assms(3,4) by simp
qed

definition log_inv :: "time \<Rightarrow> log_state \<Rightarrow> log_line list \<Rightarrow> bool" where
  "log_inv now s ws \<longleftrightarrow> rate_ok s ws \<and> seen_ok s ws \<and> remembered now s ws \<and> (\<forall>l\<in>set ws. ll_time l \<le> now)
     \<and> (\<forall>start. lg_started s = Some start \<longrightarrow> start \<le> now)"

lemma log_inv_later: "log_inv now s ws \<Longrightarrow> now \<le> now' \<Longrightarrow> log_inv now' s ws"
  unfolding log_inv_def remembered_def by fastforce

lemma seen_times_le:
  assumes "seen_ok s ws" "\<forall>l\<in>set ws. ll_time l \<le> now" "e \<in> set (lg_seen s)"
  shows "fst (snd e) \<le> now"
proof -
  have "fst (snd e) \<in># mset (map (\<lambda>e. fst (snd e)) (lg_seen s))" using assms(3) by auto
  moreover have "mset (map (\<lambda>e. fst (snd e)) (lg_seen s)) \<subseteq># mset (map ll_time ws)" using assms(1) by (simp add: seen_ok_def)
  ultimately have "fst (snd e) \<in># mset (map ll_time ws)" by (rule mset_subset_eqD [rotated])
  then show ?thesis using assms(2) by auto
qed

lemma suppress_inv:
  assumes "log_inv now s ws" "lg_started s' = lg_started s" "lg_lines s' = lg_lines s"
    and "lg_seen s' = lg_seen s \<or> (\<exists>t n. jm_get (lg_seen s) key = Some (t, n) \<and> lg_seen s' = jm_set (lg_seen s) key (t, n + 1))"
  shows "log_inv now s' ws"
proof -
  have times: "map (\<lambda>e. fst (snd e)) (lg_seen s') = map (\<lambda>e. fst (snd e)) (lg_seen s)" "jm_wf (lg_seen s) \<Longrightarrow> jm_wf (lg_seen s')"
    using assms(4) jm_set_times by auto
  have "seen_ok s' ws" using assms(1) times unfolding log_inv_def seen_ok_def by (metis length_map)
  moreover have "remembered now s' ws" using assms(1,4) by (fastforce simp: log_inv_def remembered_def)
  moreover have "rate_ok s' ws" using rate_ok_same [of s ws s'] assms(1-3) unfolding log_inv_def by blast
  ultimately show ?thesis using assms(1-3) by (simp add: log_inv_def)
qed

lemma write_inv:
  assumes inv: "log_inv now s ws" and rate: "rate_ok s' (ws @ [l])" and started: "lg_started s' = Some start" "start \<le> now"
    and l: "ll_time l = now" "line_key l = key"
    and seen: "lg_seen s' = (let seen = jm_set (jm_delete (lg_seen s) key) key (now, 0) in if length seen > LOG_MAX_KEYS then tl seen else seen)"
  shows "log_inv now s' (ws @ [l])"
proof -
  let ?at = "\<lambda>e :: log_key \<times> time \<times> nat. fst (snd e)"
  define kept where "kept = jm_delete (lg_seen s) key"
  define all where "all = kept @ [(key, now, 0)]"
  have ok: "jm_wf (lg_seen s)" "sorted (map ?at (lg_seen s))" "mset (map ?at (lg_seen s)) \<subseteq># mset (map ll_time ws)"
    "length (lg_seen s) \<le> LOG_MAX_KEYS" using inv by (simp_all add: log_inv_def seen_ok_def)
  have set_all: "jm_set kept key (now, 0) = all" by (simp add: all_def kept_def jm_set_absent)
  then have s': "lg_seen s' = (if length all > LOG_MAX_KEYS then tl all else all)" using seen by (simp add: kept_def)
  have wf: "jm_wf all" unfolding set_all [symmetric] by (simp add: kept_def ok(1))
  have "mset (map ?at kept) \<subseteq># mset (map ?at (lg_seen s))"
    by (simp add: kept_def jm_delete_def image_mset_subseteq_mono)
  then have sub: "mset (map ?at all) \<subseteq># mset (map ll_time (ws @ [l]))"
    using ok(3) l(1) by (simp add: all_def)
  have "sorted (map ?at kept)" using ok(2) by (simp add: kept_def jm_delete_def sorted_filter)
  moreover have "\<forall>e\<in>set kept. ?at e \<le> now"
    using seen_times_le [of s ws now] inv by (auto simp: kept_def jm_delete_def log_inv_def)
  ultimately have srt: "sorted (map ?at all)" by (auto simp: all_def sorted_append)
  have old: "LOG_INTERVAL_MS \<le> now - ?at (hd all)" if "length all > LOG_MAX_KEYS"
  proof -
    have "hd (map ?at all) = ?at (hd all)" by (rule hd_map) (simp add: all_def)
    then show ?thesis using forgotten_is_old [OF srt sub recent_lines [OF rate started]] that by (simp add: relay_limits)
  qed
  have get: "jm_get all k = (if k = key then Some (now, 0) else jm_get (lg_seen s) k)" for k
    unfolding set_all [symmetric] by (simp add: kept_def)
  have found: "\<exists>n. jm_get (lg_seen s') k = Some (t, n)" if "jm_get all k = Some (t, n)" "now - t < LOG_INTERVAL_MS" for k t n
  proof (cases "length all > LOG_MAX_KEYS")
    case True
    have "fst (hd all) \<noteq> k"
    proof
      assume "fst (hd all) = k"
      moreover have "hd all \<in> set all" by (rule hd_in_set) (simp add: all_def)
      ultimately have "?at (hd all) = t" using jm_get_mem [OF wf, of k "snd (hd all)"] that(1) by (metis fst_conv option.inject prod.collapse)
      then show False using old [OF True] that(2) by simp
    qed
    moreover have "tl all = filter (\<lambda>e. fst e \<noteq> fst (hd all)) all"
      using wf by (cases all) (auto simp: jm_wf_def image_iff intro!: filter_True [symmetric])
    ultimately show ?thesis using True that(1) s' jm_get_delete [of all "fst (hd all)" k] by (auto simp: jm_delete_def)
  qed (use that s' in auto)
  have "seen_ok s' (ws @ [l])"
  proof -
    have "length all \<le> Suc LOG_MAX_KEYS" using ok(4) jm_length_delete_le [of "lg_seen s" key] by (simp add: all_def kept_def)
    moreover have "mset (map ?at (tl all)) \<subseteq># mset (map ?at all)" by (cases all) auto
    moreover have "mset (map ?at (tl all)) \<subseteq># mset (map ll_time (ws @ [l]))" "sorted (map ?at (tl all))" "jm_wf (tl all)"
      using subset_mset.order_trans [OF calculation(2) sub] srt wf by (simp_all add: jm_wf_def distinct_tl map_tl sorted_tl)
    ultimately show ?thesis using wf srt sub s' unfolding seen_ok_def by (simp split: if_splits)
  qed
  moreover have "remembered now s' (ws @ [l])"
    unfolding remembered_def
  proof (intro ballI impI)
    fix x assume x: "x \<in> set (ws @ [l])" "now - ll_time x < LOG_INTERVAL_MS"
    show "\<exists>t n. jm_get (lg_seen s') (line_key x) = Some (t, n) \<and> ll_time x \<le> t"
    proof (cases "line_key x = key")
      case True
      then show ?thesis using found [of key now 0] get [of key] x inv l by (auto simp: log_inv_def relay_limits)
    next
      case False
      then have "x \<in> set ws" using x l by auto
      then obtain t n where t: "jm_get (lg_seen s) (line_key x) = Some (t, n)" "ll_time x \<le> t"
        using inv x(2) by (auto simp: log_inv_def remembered_def)
      then show ?thesis using found [of "line_key x" t n] get [of "line_key x"] False x(2) by auto
    qed
  qed
  ultimately show ?thesis using inv rate started l by (auto simp: log_inv_def)
qed

lemma log_step_inv:
  assumes inv: "log_inv now s ws" and step: "log_entry_step event entry now s = (line, s')"
  shows "log_inv now s' (case line of None \<Rightarrow> ws | Some l \<Rightarrow> ws @ [l])"
  using step
proof (cases rule: log_entry_step_cases)
  case (written l)
  have "rate_ok s' (ws @ [l])" using rate_step [OF _ _ _ step] inv written(1) by (auto simp: log_inv_def)
  moreover obtain start where "lg_started s' = Some start" "start \<le> now"
    using written(8) inv by (auto simp: log_inv_def split: option.splits)
  ultimately show ?thesis using write_inv [OF inv _ _ _ written(2,3,7)] written(1) by simp
qed (use suppress_inv [OF inv] in auto)

text \<open>A line is written only when the last line under its key is ten seconds old.\<close>

lemma log_step_spaced:
  assumes inv: "log_inv now s ws" and step: "log_entry_step event entry now s = (Some l, s')"
  shows "ll_time l = now" "\<forall>x\<in>set ws. line_key x = line_key l \<longrightarrow> LOG_INTERVAL_MS \<le> now - ll_time x"
proof -
  have w: "ll_time l = now" "line_key l = log_key_of event entry"
    "\<And>t n. jm_get (lg_seen s) (log_key_of event entry) = Some (t, n) \<Longrightarrow> LOG_INTERVAL_MS \<le> now - t"
    using step by (cases rule: log_entry_step_cases; auto)+
  show "ll_time l = now" by (rule w)
  show "\<forall>x\<in>set ws. line_key x = line_key l \<longrightarrow> LOG_INTERVAL_MS \<le> now - ll_time x"
  proof (intro ballI impI, rule ccontr)
    fix x assume x: "x \<in> set ws" "line_key x = line_key l" "\<not> LOG_INTERVAL_MS \<le> now - ll_time x"
    then obtain t n where "jm_get (lg_seen s) (line_key x) = Some (t, n)" "ll_time x \<le> t"
      using inv by (auto simp: log_inv_def remembered_def)
    then show False using w(2,3) x(2,3) by fastforce
  qed
qed

definition spaced :: "log_line list \<Rightarrow> bool" where
  "spaced ws \<longleftrightarrow> sorted_wrt (\<lambda>x y. line_key x = line_key y \<longrightarrow> LOG_INTERVAL_MS \<le> ll_time y - ll_time x) ws"

lemma spaced_append: "spaced ws \<Longrightarrow> \<forall>x\<in>set ws. line_key x = line_key l \<longrightarrow> LOG_INTERVAL_MS \<le> ll_time l - ll_time x \<Longrightarrow> spaced (ws @ [l])"
  by (simp add: spaced_def sorted_wrt_append)

lemma log_run_inv:
  "sorted (now # map (\<lambda>c. snd (snd c)) calls) \<Longrightarrow> log_inv now s ws \<Longrightarrow> spaced ws \<Longrightarrow> log_run calls s = (ls, s') \<Longrightarrow>
     \<exists>latest. log_inv latest s' (ws @ ls) \<and> spaced (ws @ ls) \<and> (\<forall>t \<in> insert now (snd ` snd ` set calls). t \<le> latest)
       \<and> latest \<in> insert now (snd ` snd ` set calls)"
proof (induction calls arbitrary: now s ws ls)
  case Nil
  then show ?case by auto
next
  case (Cons call calls)
  obtain event given t where call: "call = (event, given, t)" by (metis prod_cases3)
  have t: "now \<le> t" "sorted (t # map (\<lambda>c. snd (snd c)) calls)" using Cons.prems(1) call by auto
  note inv = log_inv_later [OF Cons.prems(2) t(1)]
  have rest: ?case if r: "log_inv t s1 ws1" "spaced ws1" "log_run calls s1 = (ls1, s')" "ws @ ls = ws1 @ ls1" for s1 ws1 ls1
  proof -
    obtain latest where l: "log_inv latest s' (ws1 @ ls1)" "spaced (ws1 @ ls1)"
      "\<forall>x \<in> insert t (snd ` snd ` set calls). x \<le> latest" "latest \<in> insert t (snd ` snd ` set calls)"
      using Cons.IH [OF t(2) r(1-3)] by blast
    have ins: "insert now (snd ` snd ` set (call # calls)) = insert now (insert t (snd ` snd ` set calls))" using call by simp
    have "now \<le> latest" using l(3) t(1) by (meson insertI1 order_trans)
    then have "\<forall>x \<in> insert now (insert t (snd ` snd ` set calls)). x \<le> latest" using l(3) by simp
    then show ?thesis using l(1,2,4) unfolding ins r(4) by blast
  qed
  consider "relay_log event given t s = None" | line s1 where "relay_log event given t s = Some (line, s1)" by fastforce
  then show ?case
  proof cases
    case 1
    then show ?thesis using rest [OF inv Cons.prems(3)] Cons.prems(4) call by simp
  next
    case (2 line s1)
    obtain ls2 s2 where r: "log_run calls s1 = (ls2, s2)" by fastforce
    have ls: "ls = (case line of None \<Rightarrow> ls2 | Some l \<Rightarrow> l # ls2)" "s' = s2" using Cons.prems(4) call 2 r by simp_all
    consider "line = None" "s1 = s" | entry where "log_entry_step event entry t s = (line, s1)"
      using 2 by (auto simp: relay_log_def split: if_splits)
    then show ?thesis
    proof cases
      case 1
      then show ?thesis using rest [OF inv Cons.prems(3)] r ls by simp
    next
      case (2 entry)
      note inv1 = log_step_inv [OF inv 2]
      have "spaced (case line of None \<Rightarrow> ws | Some l \<Rightarrow> ws @ [l])"
      proof (cases line)
        case (Some l)
        then show ?thesis using log_step_spaced [OF inv 2 [unfolded Some]] Cons.prems(3) spaced_append by auto
      qed (use Cons.prems(3) in simp)
      then show ?thesis using rest [OF inv1 _ r [folded ls(2)]] ls(1) by (cases line) simp_all
    qed
  qed
qed

section \<open>Properties\<close>

lemma log_inv_initial: "log_inv now createRelayLog []"
  by (simp add: log_inv_def createRelayLog_def rate_ok_def seen_ok_def remembered_def)

lemma log_inv_rate:
  assumes "log_inv latest s ws" "latest \<le> bound" "x \<le> bound"
  shows "int (since x ws) \<le> 50 * ((bound - x) div 1000 + 2)"
proof -
  have "0 \<le> (bound - x) div 1000" using assms(3) by simp
  moreover have "(start - x) div 1000 \<le> (bound - x) div 1000" if "start \<le> latest" for start
    using assms(2) that by (intro zdiv_mono1) auto
  moreover have "ws = [] \<or> (\<exists>start. lg_started s = Some start \<and> start \<le> latest)" "rate_ok s ws"
    using assms(1) by (auto simp: log_inv_def rate_ok_def split: option.splits)
  ultimately show ?thesis unfolding rate_ok_def
  proof (elim disjE exE conjE)
    fix start
    assume step: "\<And>start. start \<le> latest \<Longrightarrow> (start - x) div 1000 \<le> (bound - x) div 1000"
      and lines: "lg_lines s \<le> LOG_MAX_PER_SECOND" and start: "lg_started s = Some start" "start \<le> latest" and div0: "0 \<le> (bound - x) div 1000"
      and "case lg_started s of None \<Rightarrow> ws = []
        | Some start \<Rightarrow> \<forall>x. int (since x ws) \<le> (if x \<le> start then 50 * ((start - x) div 1000 + 1) else 0) + int (lg_lines s)"
    then have "int (since x ws) \<le> (if x \<le> start then 50 * ((start - x) div 1000 + 1) else 0) + int (lg_lines s)" by simp
    then show ?thesis using step [OF start(2)] lines div0 by (simp add: relay_limits split: if_splits)
  qed (simp add: since_def)
qed

text \<open>However the relay calls its logger, as long as its clock does not go back: two lines with the
  same event, room, role, reason and code are at least ten seconds apart, the lines written from any
  moment on are at most 50 for each started second and the one it interrupts, and at most 1000 keys are
  remembered. The bound on the memory never forgets a line whose repetition still has to be suppressed.\<close>

theorem log_suppression_holds:
  assumes "sorted (map (\<lambda>c. snd (snd c)) calls)" "log_run calls createRelayLog = (ls, s)"
  shows "sorted_wrt (\<lambda>x y. line_key x = line_key y \<longrightarrow> LOG_INTERVAL_MS \<le> ll_time y - ll_time x) ls
    \<and> (\<forall>bound x. (\<forall>c \<in> set calls. snd (snd c) \<le> bound) \<longrightarrow> x \<le> bound \<longrightarrow> int (since x ls) \<le> 50 * ((bound - x) div 1000 + 2))
    \<and> length (lg_seen s) \<le> LOG_MAX_KEYS"
proof (cases calls)
  case Nil
  then show ?thesis using assms(2) by (auto simp: createRelayLog_def since_def)
next
  case (Cons call rest)
  have "sorted (snd (snd call) # map (\<lambda>c. snd (snd c)) calls)" using assms(1) Cons by simp
  from log_run_inv [OF this log_inv_initial _ assms(2)] obtain latest where l: "log_inv latest s ls" "spaced ls"
    "latest \<in> insert (snd (snd call)) (snd ` snd ` set calls)"
    by (auto simp: spaced_def)
  have "latest \<le> bound" if "\<forall>c \<in> set calls. snd (snd c) \<le> bound" for bound using l(3) that Cons by auto
  then show ?thesis using l(1,2) log_inv_rate [OF l(1)] unfolding log_inv_def seen_ok_def spaced_def by blast
qed

theorem log_suppression_holds_witness:
  "let given = JObj [(''reason'', JStr ''rate-limit'')]; calls = [(''hub.refused'', given, 0), (''hub.refused'', given, 9999), (''hub.refused'', given, 10000)]
   in sorted (map (\<lambda>c. snd (snd c)) calls) \<and> length (fst (log_run calls createRelayLog)) = 2
      \<and> length (lg_seen (snd (log_run calls createRelayLog))) \<le> LOG_MAX_KEYS"
proof -
  let ?calls = "[(''hub.refused'', JObj [(''reason'', JStr ''rate-limit'')], 0 :: int), (''hub.refused'', JObj [(''reason'', JStr ''rate-limit'')], 9999),
    (''hub.refused'', JObj [(''reason'', JStr ''rate-limit'')], 10000)]"
  have s: "sorted (map (\<lambda>c. snd (snd c)) ?calls)" by simp
  moreover have "length (fst (log_run ?calls createRelayLog)) = 2" by code_simp
  ultimately show ?thesis using log_suppression_holds [OF s prod.collapse [symmetric]] unfolding Let_def by blast
qed

lemma log_number_range: "log_number v = Some n \<Longrightarrow> 0 \<le> n \<and> n \<le> 2 ^ 53 - 1"
  by (cases v) (auto simp: log_number_def max_safe_integer_def split: if_splits)

text \<open>C34: Whatever a caller passes to the logger, a line it writes has a token for its event, \<open>-\<close> or the
  eight hexadecimal digits that a room name starts with, a role or \<open>-\<close>, natural numbers below
  \<open>2\<^sup>5\<^sup>3\<close>, and a reason whose text is a token: no key, envelope or address fits into it.\<close>

theorem log_line_shape:
  assumes "relay_log event given now s = Some (Some l, s')"
  shows "event_token (ll_event l)
    \<and> (le_room (ll_entry l) = ''-'' \<or> length (le_room (ll_entry l)) = 8 \<and> list_all hex_char (le_room (ll_entry l)))
    \<and> le_role (ll_entry l) \<in> {''machine'', ''phone'', ''-''}
    \<and> (\<forall>n \<in> set_option (le_code (ll_entry l)) \<union> set_option (le_status (ll_entry l)) \<union> set_option (le_retryAfter (ll_entry l)). 0 \<le> n \<and> n \<le> 2 ^ 53 - 1)
    \<and> (\<forall>r \<in> set_option (le_reason (ll_entry l)). \<exists>t. log_token_text r = Some t \<and> log_token t)"
proof -
  obtain entry where e: "event_token event" "sanitizeLogFields given = Some entry" "log_entry_step event entry now s = (Some l, s')"
    using assms by (auto simp: relay_log_def split: if_splits)
  have l: "ll_event l = event" "ll_entry l = entry" using e(3) by (cases rule: log_entry_step_cases; auto)+
  have tok: "log_token_text r = Some t \<Longrightarrow> log_token t" for r t
    by (induction r rule: log_token_text.induct) (auto split: if_splits, code_simp+)
  have tag: "roomTag r = ''-'' \<or> length (roomTag r) = 8 \<and> list_all hex_char (roomTag r)" for r
    by (auto simp: roomTag_def class_repeat_def list_all_iff dest: in_set_takeD)
  have shape: "le_role entry \<in> {''machine'', ''phone'', ''-''}" "le_room entry = roomTag (field ''room'' given)"
    "le_code entry = log_number (field ''code'' given)" "le_status entry = log_number (field ''status'' given)"
    "le_retryAfter entry = log_number (field ''retryAfter'' given)"
    "\<forall>r \<in> set_option (le_reason entry). \<exists>t. log_token_text r = Some t \<and> log_token t"
    using e(2) tok by (auto simp: sanitizeLogFields_def Let_def split: if_splits)
  have numbers: "\<forall>n \<in> set_option (log_number v). 0 \<le> n \<and> n \<le> 2 ^ 53 - 1" for v using log_number_range by auto
  show ?thesis unfolding l shape(2-5) using e(1) shape(1,6) tag numbers by blast
qed

theorem log_line_shape_witness:
  "let given = JObj [(''room'', JStr ''0123456789abcdef''), (''code'', JInt (-1)), (''reason'', JStr ''10.0.0.1'')];
       r = relay_log ''wake.failed'' given 0 createRelayLog; l = the (fst (the r))
   in r = Some (Some l, snd (the r)) \<and> le_room (ll_entry l) = ''01234567'' \<and> event_token (ll_event l)
      \<and> le_role (ll_entry l) \<in> {''machine'', ''phone'', ''-''} \<and> le_code (ll_entry l) = None \<and> le_reason (ll_entry l) = None"
proof -
  let ?given = "JObj [(''room'', JStr ''0123456789abcdef''), (''code'', JInt (-1)), (''reason'', JStr ''10.0.0.1'')]"
  let ?r = "relay_log ''wake.failed'' ?given 0 createRelayLog"
  have r: "?r = Some (Some (the (fst (the ?r))), snd (the ?r))" by code_simp
  moreover have "le_room (ll_entry (the (fst (the ?r)))) = ''01234567''" "le_code (ll_entry (the (fst (the ?r)))) = None"
    "le_reason (ll_entry (the (fst (the ?r)))) = None" by code_simp+
  ultimately show ?thesis using log_line_shape [OF r] unfolding Let_def by blast
qed

end
