(* ===== verification/Task_Activities.thy ===== *)
theory Task_Activities
  imports Push_Devices Connection_Policy "HOL-Library.List_Lexorder" "HOL-Library.Multiset"
begin

text \<open>
  Live Activities of a room (\<open>src/taskActivities/\<close>): the policy, the registries of both runtimes
  (\<open>registry/sqlite.js\<close>, \<open>registry/worker.js\<close>), the endpoint that both run over their registry
  (\<open>delivery/endpoint.js\<close>) and the push to Apple (\<open>delivery/apns.js\<close>). The endpoint suspends while
  a push is under way, so a delivery is two steps and other requests may come between them. Shows:
  both runtimes answer alike, a room has at most eight activities, accepted updates of one activity
  are ten seconds apart and never repeated, and every update that is accepted fits into a push.

  What Apple answers is a parameter, as is the order of \<open>localeCompare\<close>, by its collation keys.
\<close>

section \<open>Policy\<close>

definition ACTIVITY_TTL_MS :: int where "ACTIVITY_TTL_MS = 8 * 60 * 60 * 1000"
definition ACTIVITY_LIMIT :: nat where "ACTIVITY_LIMIT = 8"
definition ACTIVITY_BODY_LIMIT :: nat where "ACTIVITY_BODY_LIMIT = 8192"
definition ACTIVITY_BUNDLE_ID :: string where "ACTIVITY_BUNDLE_ID = ''com.ziborov.granttap''"

lemmas [relay_limits] = ACTIVITY_LIMIT_def

definition exact_fields :: "js \<Rightarrow> string list \<Rightarrow> bool" where
  "exact_fields v names \<longleftrightarrow> is_object v \<and> \<not> is_array v
     \<and> length (object_keys v) = length names \<and> list_all (\<lambda>name. name \<in> set names) (object_keys v)"

definition validActivityId :: "js \<Rightarrow> bool" where
  "validActivityId v \<longleftrightarrow> is_string v \<and> class_repeat (\<lambda>c. alnum_char c \<or> c = CHR ''_'' \<or> c = CHR ''-'') 1 180 (str_of v)"

definition activity_token :: "js \<Rightarrow> bool" where
  "activity_token v \<longleftrightarrow> is_string v
     \<and> class_repeat (\<lambda>c. hex_char c \<or> char_between CHR ''A'' CHR ''F'' c) 32 512 (str_of v) \<and> length (str_of v) mod 2 = 0"

definition validActivityRegistration :: "js \<Rightarrow> time \<Rightarrow> bool" where
  "validActivityRegistration v now \<longleftrightarrow>
     exact_fields v [''activityId'', ''token'', ''environment'', ''bundleId'', ''expiresAt'', ''nonce'', ''box'']
     \<and> validActivityId (field ''activityId'' v) \<and> activity_token (field ''token'' v)
     \<and> field ''environment'' v \<in> {JStr ''sandbox'', JStr ''production''} \<and> field ''bundleId'' v = JStr ACTIVITY_BUNDLE_ID
     \<and> isSafeInteger (field ''expiresAt'' v) \<and> num_of (field ''expiresAt'' v) > now
     \<and> num_of (field ''expiresAt'' v) \<le> now + ACTIVITY_TTL_MS
     \<and> validBase64 (field ''nonce'' v) 32 32 \<and> validBase64 (field ''box'' v) 24 2048"

definition validActivityUpdate :: "js \<Rightarrow> time \<Rightarrow> bool" where
  "validActivityUpdate v now \<longleftrightarrow> (let seconds = now div 1000; content = field ''contentState'' v in
     exact_fields v [''activityId'', ''deliveryId'', ''event'', ''staleDate'', ''contentState'']
     \<and> validActivityId (field ''activityId'' v) \<and> validActivityId (field ''deliveryId'' v)
     \<and> field ''event'' v \<in> {JStr ''update'', JStr ''end''}
     \<and> isSafeInteger (field ''staleDate'' v) \<and> num_of (field ''staleDate'' v) \<ge> seconds - 300
     \<and> num_of (field ''staleDate'' v) \<le> seconds + 120
     \<and> exact_fields content [''nonce'', ''box'']
     \<and> validBase64 (field ''nonce'' content) 32 32 \<and> validBase64 (field ''box'' content) 24 3072)"

section \<open>Registries\<close>

text \<open>A stored activity with the last delivery; the columns of a row in the Node store.\<close>

record activity =
  ac_id :: string
  ac_token :: string
  ac_environment :: string
  ac_bundleId :: string
  ac_expiresAt :: time
  ac_nonce :: string
  ac_box :: string
  ac_lastId :: "string option"
  ac_lastAt :: time

definition privateRecord :: "js \<Rightarrow> activity option \<Rightarrow> activity" where
  "privateRecord v existing = \<lparr>ac_id = str_of (field ''activityId'' v), ac_token = map to_lower (str_of (field ''token'' v)),
     ac_environment = str_of (field ''environment'' v), ac_bundleId = str_of (field ''bundleId'' v),
     ac_expiresAt = num_of (field ''expiresAt'' v), ac_nonce = str_of (field ''nonce'' v), ac_box = str_of (field ''box'' v),
     ac_lastId = (case existing of None \<Rightarrow> None | Some a \<Rightarrow> ac_lastId a),
     ac_lastAt = (case existing of None \<Rightarrow> 0 | Some a \<Rightarrow> ac_lastAt a)\<rparr>"

definition subscription :: "activity \<Rightarrow> js" where
  "subscription a = JObj [(''activityId'', JStr (ac_id a)), (''expiresAt'', JInt (ac_expiresAt a)),
     (''nonce'', JStr (ac_nonce a)), (''box'', JStr (ac_box a))]"

text \<open>The operations an endpoint calls, over the state of its registry.\<close>

record 's registry =
  rg_register :: "string \<Rightarrow> js \<Rightarrow> time \<Rightarrow> 's \<Rightarrow> bool \<times> 's"
  rg_list :: "string \<Rightarrow> time \<Rightarrow> 's \<Rightarrow> js list \<times> 's"
  rg_get :: "string \<Rightarrow> string \<Rightarrow> time \<Rightarrow> 's \<Rightarrow> activity option \<times> 's"
  rg_remove :: "string \<Rightarrow> string \<Rightarrow> time \<Rightarrow> 's \<Rightarrow> 's"
  rg_delivered :: "string \<Rightarrow> string \<Rightarrow> string \<Rightarrow> time \<Rightarrow> 's \<Rightarrow> 's"

subsection \<open>The Node store\<close>

type_synonym activity_table = "(string \<times> string, activity) jmap"

definition activities_purge :: "time \<Rightarrow> activity_table \<Rightarrow> activity_table" where
  "activities_purge now ts = filter (\<lambda>e. ac_expiresAt (snd e) > now) ts"

definition activities_get :: "string \<Rightarrow> string \<Rightarrow> time \<Rightarrow> activity_table \<Rightarrow> activity option \<times> activity_table" where
  "activities_get room i now ts = (let ts1 = activities_purge now ts in (jm_get ts1 (room, i), ts1))"

definition activities_register :: "string \<Rightarrow> js \<Rightarrow> time \<Rightarrow> activity_table \<Rightarrow> bool \<times> activity_table" where
  "activities_register room record now ts =
     (if \<not> validActivityRegistration record now then (False, ts)
      else let ts1 = activities_purge now ts; i = str_of (field ''activityId'' record)
        in case activities_get room i now ts1 of (existing, ts2) \<Rightarrow>
          let count = length (filter (\<lambda>e. fst (fst e) = room) ts2)
          in if existing = None \<and> count \<ge> ACTIVITY_LIMIT then (False, ts2)
             else (True, jm_set ts2 (room, i) (privateRecord record (jm_get ts2 (room, i)))))"

definition activities_list :: "string \<Rightarrow> time \<Rightarrow> activity_table \<Rightarrow> js list \<times> activity_table" where
  "activities_list room now ts = (let ts1 = activities_purge now ts in
     (map subscription (sort_key (\<lambda>a. map of_char (ac_id a) :: nat list) (map snd (filter (\<lambda>e. fst (fst e) = room) ts1))), ts1))"

definition activities_remove :: "string \<Rightarrow> string \<Rightarrow> time \<Rightarrow> activity_table \<Rightarrow> activity_table" where
  "activities_remove room i now ts = jm_delete ts (room, i)"

definition activities_delivered :: "string \<Rightarrow> string \<Rightarrow> string \<Rightarrow> time \<Rightarrow> activity_table \<Rightarrow> activity_table" where
  "activities_delivered room i deliveryId now ts =
     map (\<lambda>(k, a). (k, if k = (room, i) \<and> ac_expiresAt a > now then a\<lparr>ac_lastId := Some deliveryId, ac_lastAt := now\<rparr> else a)) ts"

definition SqliteTaskActivities :: "activity_table registry" where
  "SqliteTaskActivities = \<lparr>rg_register = activities_register, rg_list = activities_list, rg_get = activities_get,
     rg_remove = activities_remove, rg_delivered = activities_delivered\<rparr>"

subsection \<open>The Durable Object\<close>

text \<open>The value under \<open>task-activities:v1:room\<close>; \<open>change\<close> is one transaction.\<close>

type_synonym activity_storage = "string \<rightharpoonup> activity list"

definition activities_change ::
  "string \<Rightarrow> time \<Rightarrow> (activity list \<Rightarrow> 'r \<times> activity list) \<Rightarrow> activity_storage \<Rightarrow> 'r \<times> activity_storage" where
  "activities_change room now update st =
     (let rows = (case st room of None \<Rightarrow> [] | Some saved \<Rightarrow> filter (\<lambda>a. ac_expiresAt a > now) saved)
      in case update rows of (result, rows1) \<Rightarrow> (result, st(room := if rows1 \<noteq> [] then Some rows1 else None)))"

definition with_id :: "string \<Rightarrow> activity list \<Rightarrow> activity option" where
  "with_id i rows = find (\<lambda>a. ac_id a = i) rows"

definition worker_activities_register :: "string \<Rightarrow> js \<Rightarrow> time \<Rightarrow> activity_storage \<Rightarrow> bool \<times> activity_storage" where
  "worker_activities_register room record now st =
     (if \<not> validActivityRegistration record now then (False, st)
      else let i = str_of (field ''activityId'' record)
        in activities_change room now (\<lambda>rows. let existing = with_id i rows; private = privateRecord record existing
            in if existing = None \<and> length rows \<ge> ACTIVITY_LIMIT then (False, rows)
               else (True, case find_index (\<lambda>a. ac_id a = i) rows of Some n \<Rightarrow> rows[n := private] | None \<Rightarrow> rows @ [private])) st)"

definition worker_activities_list :: "(string \<Rightarrow> nat list) \<Rightarrow> string \<Rightarrow> time \<Rightarrow> activity_storage \<Rightarrow> js list \<times> activity_storage" where
  "worker_activities_list collate room now st =
     activities_change room now (\<lambda>rows. (map subscription (sort_key (\<lambda>a. collate (ac_id a)) rows), rows)) st"

definition worker_activities_get :: "string \<Rightarrow> string \<Rightarrow> time \<Rightarrow> activity_storage \<Rightarrow> activity option \<times> activity_storage" where
  "worker_activities_get room i now st = activities_change room now (\<lambda>rows. (with_id i rows, rows)) st"

definition worker_activities_remove :: "string \<Rightarrow> string \<Rightarrow> time \<Rightarrow> activity_storage \<Rightarrow> activity_storage" where
  "worker_activities_remove room i now st = snd (activities_change room now (\<lambda>rows.
     ((), case find_index (\<lambda>a. ac_id a = i) rows of Some n \<Rightarrow> remove_at n rows | None \<Rightarrow> rows)) st)"

definition worker_activities_delivered :: "string \<Rightarrow> string \<Rightarrow> string \<Rightarrow> time \<Rightarrow> activity_storage \<Rightarrow> activity_storage" where
  "worker_activities_delivered room i deliveryId now st = snd (activities_change room now (\<lambda>rows.
     ((), case find_index (\<lambda>a. ac_id a = i) rows of
            Some n \<Rightarrow> rows[n := (rows ! n)\<lparr>ac_lastId := Some deliveryId, ac_lastAt := now\<rparr>] | None \<Rightarrow> rows)) st)"

definition WorkerTaskActivities :: "(string \<Rightarrow> nat list) \<Rightarrow> activity_storage registry" where
  "WorkerTaskActivities collate = \<lparr>rg_register = worker_activities_register, rg_list = worker_activities_list collate,
     rg_get = worker_activities_get, rg_remove = worker_activities_remove, rg_delivered = worker_activities_delivered\<rparr>"

section \<open>The push\<close>

text \<open>\<open>JSON.stringify\<close> on numbers, objects and strings without characters to escape.\<close>

fun plain_json :: "js \<Rightarrow> string" where
  "plain_json (JInt i) = (if i < 0 then ''-'' @ to_decimal (nat (- i)) else to_decimal (nat i))"
| "plain_json (JStr s) = CHR 34 # s @ [CHR 34]"
| "plain_json (JObj kvs) = ''{'' @ concat (tl (concat (map (\<lambda>(k, v). ['','', CHR 34 # k @ [CHR 34] @ '':'' @ plain_json v]) kvs))) @ ''}''"
| "plain_json _ = ''null''"

definition activity_payload :: "js \<Rightarrow> time \<Rightarrow> js" where
  "activity_payload update now = (let seconds = now div 1000 in
     JObj [(''aps'', JObj ([(''timestamp'', JInt seconds), (''event'', field ''event'' update),
       (''content-state'', field ''contentState'' update), (''stale-date'', field ''staleDate'' update)]
       @ (if field ''event'' update = JStr ''end'' then [(''dismissal-date'', JInt (seconds - 1))] else [])))])"

text \<open>The answer is the status and the reason Apple gives; \<open>None\<close> when the request throws.\<close>

definition sendTaskActivityAPNs ::
  "env \<Rightarrow> (activity \<Rightarrow> string \<Rightarrow> (nat \<times> string) option) \<Rightarrow> activity \<Rightarrow> js \<Rightarrow> time \<Rightarrow> apns_result" where
  "sendTaskActivityAPNs env apple device update now =
     (if \<not> validActivityUpdate update now \<or> ac_bundleId device \<noteq> ACTIVITY_BUNDLE_ID
         \<or> ac_environment device \<notin> {''sandbox'', ''production''} \<or> \<not> activity_token (JStr (ac_token device)) then Apns_failed
      else let body = plain_json (activity_payload update now) in
        if byteLength body > 4096 then Apns_failed
        else if \<not> apnsConfigured env (Some (ac_environment device)) then Apns_failed
        else (case apple device body of
            None \<Rightarrow> Apns_failed
          | Some (status, reason) \<Rightarrow>
              if 200 \<le> status \<and> status \<le> 299 then Apns_accepted
              else if status = 410 \<or> reason \<in> {''BadDeviceToken'', ''Unregistered''} then Apns_stale else Apns_rejected))"

section \<open>The endpoint\<close>

definition activity_paths :: "string set" where
  "activity_paths = {''/push/activity/register'', ''/push/activity/subscriptions'', ''/push/activity/update''}"

definition registered_body :: "bool \<Rightarrow> bool option \<Rightarrow> js" where
  "registered_body registered enabled = JObj ([(''ok'', JBool True), (''registered'', JBool registered)]
     @ (case enabled of None \<Rightarrow> [] | Some b \<Rightarrow> [(''enabled'', JBool b)]))"

definition activity_registration ::
  "'s registry \<Rightarrow> (string \<Rightarrow> bool) \<Rightarrow> string \<Rightarrow> string \<Rightarrow> js \<Rightarrow> time \<Rightarrow> 's \<Rightarrow> response \<times> 's" where
  "activity_registration reg configured method room body now s =
     (if method = ''DELETE'' then
        if \<not> truthy body \<or> length (object_keys body) \<noteq> 1 \<or> \<not> validActivityId (field ''activityId'' body)
        then (json (error_body ''valid activity identity required'') 400, s)
        else (json (registered_body False None) 200, rg_remove reg room (str_of (field ''activityId'' body)) now s)
      else if \<not> validActivityRegistration body now then (json (error_body ''bounded encrypted enrollment required'') 400, s)
      else (case rg_register reg room body now s of (stored, s1) \<Rightarrow>
        (if stored then json (registered_body True (Some (configured (str_of (field ''environment'' body))))) 200
         else json (error_body ''active activity capacity reached'') 409, s1)))"

text \<open>\<open>handle\<close>: an answer, or the update that \<open>enqueue\<close> gets. \<open>authorized\<close> is what \<open>request.authorize\<close>
  gives, \<open>body\<close> what \<open>request.read\<close> gives, \<open>None\<close> when it throws.\<close>

definition activity_handle ::
  "'s registry \<Rightarrow> (string \<Rightarrow> bool) \<Rightarrow> string \<Rightarrow> string \<Rightarrow> string option \<Rightarrow> bool \<Rightarrow> js option \<Rightarrow> time \<Rightarrow> 's
     \<Rightarrow> (response + string \<times> js) \<times> 's" where
  "activity_handle reg configured path method room authorized body now s =
     (if (case room of None \<Rightarrow> True | Some r \<Rightarrow> \<not> validRoom (JStr r)) then (Inl (json (error_body ''valid room required'') 400), s)
      else if path \<notin> activity_paths then (Inl (json (error_body ''not found'') 404), s)
      else if \<not> authorized then (Inl (json (error_body ''invalid room credential'') 401), s)
      else if path = ''/push/activity/subscriptions'' then
        if method \<noteq> ''GET'' then (Inl (json (error_body ''method not allowed'') 405), s)
        else (case rg_list reg (the room) now s of (rows, s1) \<Rightarrow>
          (Inl (json (JObj [(''ok'', JBool True), (''subscriptions'', JArr rows)]) 200), s1))
      else let register = (path = ''/push/activity/register'') in
        if method \<notin> (if register then {''PUT'', ''POST'', ''DELETE''} else {''POST''}) then
          (Inl (json (error_body ''method not allowed'') 405), s)
        else (case body of
            None \<Rightarrow> (Inl (json (error_body ''bounded JSON body required'') 400), s)
          | Some v \<Rightarrow>
              if register then (case activity_registration reg configured method (the room) v now s of (r, s1) \<Rightarrow> (Inl r, s1))
              else if \<not> validActivityUpdate v now then
                (Inl (json (error_body ''bounded encrypted activity update required'') 400), s)
              else (Inr (the room, v), s)))"

definition accepted_body :: "bool \<Rightarrow> (string \<times> js) list \<Rightarrow> js" where
  "accepted_body accepted rest = JObj ([(''ok'', JBool True), (''accepted'', JBool accepted)] @ rest)"

definition update_id :: "js \<Rightarrow> string" where "update_id update = str_of (field ''activityId'' update)"
definition delivery_id :: "js \<Rightarrow> string" where "delivery_id update = str_of (field ''deliveryId'' update)"
definition is_end :: "js \<Rightarrow> bool" where "is_end update \<longleftrightarrow> field ''event'' update = JStr ''end''"

text \<open>\<open>deliver\<close> up to the push: an answer, or the route to push to.\<close>

definition deliver_begin ::
  "'s registry \<Rightarrow> (string \<Rightarrow> bool) \<Rightarrow> string \<Rightarrow> js \<Rightarrow> time \<Rightarrow> 's \<Rightarrow> (response + activity) \<times> 's" where
  "deliver_begin reg configured room update now s =
     (case rg_get reg room (update_id update) now s of
        (None, s1) \<Rightarrow> (Inl (json (accepted_body False [(''closed'', JBool True)]) 200), s1)
      | (Some route, s1) \<Rightarrow>
          (if ac_lastId route = Some (delivery_id update) then Inl (json (accepted_body True [(''duplicate'', JBool True)]) 200)
           else if \<not> configured (ac_environment route) then Inl (json (error_body ''activity delivery unavailable'') 503)
           else let elapsed = now - ac_lastAt route in
             if \<not> is_end update \<and> ac_lastAt route > 0 \<and> elapsed < 10000 then
               Inl (json (accepted_body False [(''retryAfterSeconds'', JInt (- ((elapsed - 10000) div 1000)))]) 202)
             else Inr route, s1))"

text \<open>\<open>deliver\<close> from the end of the push, with its outcome; \<open>now\<close> is still the time of its beginning.\<close>

definition deliver_end ::
  "'s registry \<Rightarrow> string \<Rightarrow> js \<Rightarrow> time \<Rightarrow> activity \<Rightarrow> apns_result \<Rightarrow> 's \<Rightarrow> response \<times> 's" where
  "deliver_end reg room update now route sent s =
     (case sent of
        Apns_stale \<Rightarrow> (case rg_get reg room (update_id update) now s of (current, s1) \<Rightarrow>
          let closed = (case current of None \<Rightarrow> False | Some c \<Rightarrow> ac_token c = ac_token route) in
          (json (accepted_body False [(''closed'', JBool closed)]) 200,
           if closed then rg_remove reg room (update_id update) now s1 else s1))
      | Apns_accepted \<Rightarrow>
          let s1 = rg_delivered reg room (update_id update) (delivery_id update) now s in
          (json (accepted_body True [(''closed'', JBool (is_end update))]) 200,
           if is_end update then rg_remove reg room (update_id update) now s1 else s1)
      | _ \<Rightarrow> (json (error_body ''activity delivery unavailable'') 502, s))"

text \<open>
  The endpoint at work. Updates wait in the order of their arrival; \<open>inFlight\<close> chains those of one
  activity, so that one delivery begins only when the last one has ended. An event is a request, the
  beginning of the next delivery of an activity, or the end of its push with the outcome.
\<close>

type_synonym activity_key = "string \<times> string"

record 's activity_state =
  as_reg :: 's
  as_queue :: "(string \<times> js) list"
  as_work :: "activity_key \<rightharpoonup> js \<times> time \<times> activity"

datatype activity_event =
    Ac_request string string "string option" bool "js option" time
  | Ac_begin activity_key time
  | Ac_end activity_key apns_result

text \<open>What is noted of an event: an activity that was not there is registered, or Apple accepted a push,
  with its delivery, whether it ends the activity, and the time at which it began.\<close>

datatype activity_note = Enrolled activity_key | Pushed activity_key string bool time

definition enrolled_note :: "'s registry \<Rightarrow> string \<Rightarrow> string \<Rightarrow> string option \<Rightarrow> js option \<Rightarrow> time \<Rightarrow> 's \<Rightarrow> bool \<Rightarrow> activity_note list" where
  "enrolled_note reg path method room body now s done =
     (if done \<and> path = ''/push/activity/register'' \<and> method \<noteq> ''DELETE''
         \<and> fst (rg_get reg (the room) (str_of (field ''activityId'' (the body))) now s) = None
      then [Enrolled (the room, str_of (field ''activityId'' (the body)))] else [])"

definition enqueue_begin ::
  "'s registry \<Rightarrow> (string \<Rightarrow> bool) \<Rightarrow> activity_key \<Rightarrow> time \<Rightarrow> 's activity_state \<Rightarrow> response option \<times> 's activity_state" where
  "enqueue_begin reg configured key now st =
     (case find_index (\<lambda>(room, update). (room, update_id update) = key) (as_queue st) of
        None \<Rightarrow> (None, st)
      | Some n \<Rightarrow>
          if as_work st key \<noteq> None then (None, st)
          else let update = snd (as_queue st ! n) in
            (case deliver_begin reg configured (fst key) update now (as_reg st) of (step, s1) \<Rightarrow>
              let st1 = st\<lparr>as_reg := s1, as_queue := remove_at n (as_queue st)\<rparr> in
              (case step of Inl answer \<Rightarrow> (Some answer, st1)
               | Inr route \<Rightarrow> (None, st1\<lparr>as_work := (as_work st1)(key \<mapsto> (update, now, route))\<rparr>))))"

fun activity_step ::
  "'s registry \<Rightarrow> (string \<Rightarrow> bool) \<Rightarrow> activity_event \<Rightarrow> 's activity_state \<Rightarrow> response option \<times> activity_note list \<times> 's activity_state" where
  "activity_step reg configured (Ac_request path method room authorized body now) st =
     (case activity_handle reg configured path method room authorized body now (as_reg st) of
        (Inl answer, s1) \<Rightarrow> (Some answer,
           enrolled_note reg path method room body now (as_reg st) (resp_status answer = 200), st\<lparr>as_reg := s1\<rparr>)
      | (Inr update, s1) \<Rightarrow> (None, [], st\<lparr>as_reg := s1, as_queue := as_queue st @ [update]\<rparr>))"
| "activity_step reg configured (Ac_begin key now) st =
     (case enqueue_begin reg configured key now st of (answer, st1) \<Rightarrow> (answer, [], st1))"
| "activity_step reg configured (Ac_end key sent) st =
     (case as_work st key of
        None \<Rightarrow> (None, [], st)
      | Some (update, now, route) \<Rightarrow>
          (case deliver_end reg (fst key) update now route sent (as_reg st) of (answer, s1) \<Rightarrow>
            (Some answer, if sent = Apns_accepted then [Pushed key (delivery_id update) (is_end update) now] else [],
             st\<lparr>as_reg := s1, as_work := (as_work st)(key := None)\<rparr>)))"

fun activity_run ::
  "'s registry \<Rightarrow> (string \<Rightarrow> bool) \<Rightarrow> activity_event list \<Rightarrow> 's activity_state \<Rightarrow> response option list \<times> activity_note list \<times> 's activity_state" where
  "activity_run reg configured [] st = ([], [], st)"
| "activity_run reg configured (ev # evs) st =
     (case activity_step reg configured ev st of (answer, notes, st1) \<Rightarrow>
       (case activity_run reg configured evs st1 of (answers, notes', st2) \<Rightarrow> (answer # answers, notes @ notes', st2)))"

section \<open>The contract of a registry\<close>

definition live_activity :: "time \<Rightarrow> activity option \<Rightarrow> activity option" where
  "live_activity t a = (case a of None \<Rightarrow> None | Some r \<Rightarrow> if ac_expiresAt r > t then Some r else None)"

lemma live_activity_None [simp]: "live_activity t None = None"
  by (simp add: live_activity_def)

lemma live_activity_again [simp]: "live_activity t (live_activity t' a) = live_activity (max t t') a"
  by (auto simp: live_activity_def split: option.splits)

lemma live_activity_Some: "live_activity t a = Some r \<longleftrightarrow> a = Some r \<and> ac_expiresAt r > t"
  by (auto simp: live_activity_def split: option.splits)

definition registration_id :: "js \<Rightarrow> string" where "registration_id v = str_of (field ''activityId'' v)"

text \<open>\<open>view t s\<close> are the activities of \<open>s\<close> that have not expired at \<open>t\<close>.\<close>

locale activity_registry =
  fixes reg :: "'s registry" and ok :: "'s \<Rightarrow> bool" and view :: "time \<Rightarrow> 's \<Rightarrow> activity_key \<Rightarrow> activity option"
  assumes view_later: "t \<le> t' \<Longrightarrow> view t' s k = live_activity t' (view t s k)"
    and view_bounded: "ok s \<Longrightarrow> finite {i. view t s (room, i) \<noteq> None} \<and> card {i. view t s (room, i) \<noteq> None} \<le> ACTIVITY_LIMIT"
    and register_refused: "\<not> validActivityRegistration v now \<Longrightarrow> rg_register reg room v now s = (False, s)"
    and register_law: "ok s \<Longrightarrow> validActivityRegistration v now \<Longrightarrow> rg_register reg room v now s = (b, s') \<Longrightarrow>
      ok s' \<and> (b \<longleftrightarrow> view now s (room, registration_id v) \<noteq> None \<or> card {i. view now s (room, i) \<noteq> None} < ACTIVITY_LIMIT)
      \<and> (\<forall>t \<ge> now. \<forall>k. view t s' k = (if b \<and> k = (room, registration_id v)
           then live_activity t (Some (privateRecord v (view now s (room, registration_id v)))) else view t s k))"
    and list_law: "ok s \<Longrightarrow> rg_list reg room now s = (rows, s') \<Longrightarrow>
      ok s' \<and> mset rows = image_mset (\<lambda>i. subscription (the (view now s (room, i)))) (mset_set {i. view now s (room, i) \<noteq> None})
      \<and> (\<forall>t \<ge> now. view t s' = view t s)"
    and get_law: "ok s \<Longrightarrow> rg_get reg room i now s = (a, s') \<Longrightarrow> ok s' \<and> a = view now s (room, i) \<and> (\<forall>t \<ge> now. view t s' = view t s)"
    and remove_law: "ok s \<Longrightarrow> ok (rg_remove reg room i now s) \<and> (\<forall>t \<ge> now. view t (rg_remove reg room i now s) = (view t s)((room, i) := None))"
    and delivered_law: "ok s \<Longrightarrow> ok (rg_delivered reg room i d now s) \<and> (\<forall>t \<ge> now. view t (rg_delivered reg room i d now s) =
      (view t s)((room, i) := map_option (\<lambda>a. a\<lparr>ac_lastId := Some d, ac_lastAt := now\<rparr>) (view t s (room, i))))"

section \<open>The Node registry\<close>

definition table_view :: "time \<Rightarrow> activity_table \<Rightarrow> activity_key \<Rightarrow> activity option" where
  "table_view t ts k = live_activity t (jm_get ts k)"

definition table_ok :: "activity_table \<Rightarrow> bool" where
  "table_ok ts \<longleftrightarrow> jm_wf ts \<and> (\<forall>room. length (filter (\<lambda>e. fst (fst e) = room) ts) \<le> ACTIVITY_LIMIT)"

lemma purge_view: "jm_wf ts \<Longrightarrow> jm_get (activities_purge now ts) k = table_view now ts k"
  unfolding jm_wf_def jm_get_def table_view_def activities_purge_def
  by (induction ts) (auto simp: map_of_eq_None_iff live_activity_def split: option.splits)

lemma purge_table_ok: "table_ok ts \<Longrightarrow> table_ok (activities_purge now ts)"
proof -
  assume ok: "table_ok ts"
  have "length (filter p (activities_purge now ts)) \<le> length (filter p ts)" for p
    unfolding activities_purge_def filter_filter by (induction ts) auto
  moreover have "jm_wf (activities_purge now ts)" using ok by (auto simp: table_ok_def activities_purge_def jm_wf_def distinct_map_filter)
  ultimately show ?thesis using ok unfolding table_ok_def by (meson le_trans)
qed

lemma purge_table_view:
  assumes "table_ok ts" "now \<le> t"
  shows "table_view t (activities_purge now ts) k = table_view t ts k"
  using assms purge_view [of ts now k] by (simp add: table_view_def [of t] table_ok_def) (simp add: table_view_def max_def)

lemma room_rows:
  assumes "jm_wf ts"
  shows "{i. jm_get ts (room, i) \<noteq> None} = (\<lambda>e. snd (fst e)) ` set (filter (\<lambda>e. fst (fst e) = room) ts)"
    "distinct (map (\<lambda>e. snd (fst e)) (filter (\<lambda>e. fst (fst e) = room) ts))"
proof -
  show "{i. jm_get ts (room, i) \<noteq> None} = (\<lambda>e. snd (fst e)) ` set (filter (\<lambda>e. fst (fst e) = room) ts)"
    by (force simp: jm_get_def map_of_eq_None_iff)
  show "distinct (map (\<lambda>e. snd (fst e)) (filter (\<lambda>e. fst (fst e) = room) ts))"
    using assms unfolding jm_wf_def by (induction ts) (auto simp: image_iff)
qed

lemma room_count:
  assumes "jm_wf ts"
  shows "card {i. jm_get ts (room, i) \<noteq> None} = length (filter (\<lambda>e. fst (fst e) = room) ts)" "finite {i. jm_get ts (room, i) \<noteq> None}"
  using room_rows(1) [OF assms, of room] distinct_card [OF room_rows(2) [OF assms, of room]] by simp_all

lemma jm_map_get: "jm_get (map (\<lambda>(k, a). (k, f k a)) ts) k = map_option (f k) (jm_get ts k)"
  by (induction ts) (auto simp: jm_get_def)

lemma jm_set_count:
  assumes "jm_wf ts"
  shows "length (filter (\<lambda>e. fst (fst e) = r) (jm_set ts (room, i) a)) =
    length (filter (\<lambda>e. fst (fst e) = r) ts) + (if r = room \<and> jm_get ts (room, i) = None then 1 else 0)"
  by (induction ts) (auto simp: jm_get_def)

lemma node_registered:
  assumes ok: "table_ok ts" and v: "validActivityRegistration v now" and r: "activities_register room v now ts = (b, ts')"
  defines "k0 \<equiv> (room, registration_id v)"
  shows "table_ok ts'" "b \<longleftrightarrow> table_view now ts k0 \<noteq> None \<or> card {i. table_view now ts (room, i) \<noteq> None} < ACTIVITY_LIMIT"
    "now \<le> t \<Longrightarrow> table_view t ts' k = (if b \<and> k = k0 then live_activity t (Some (privateRecord v (table_view now ts k0))) else table_view t ts k)"
proof -
  let ?ts = "activities_purge now ts"
  have again: "activities_purge now ?ts = ?ts" by (simp add: activities_purge_def)
  have wf: "jm_wf ts" "table_ok ?ts" "jm_wf ?ts" using ok purge_table_ok [OF ok] by (simp_all add: table_ok_def)
  note get = purge_view [OF wf(1), of now]
  have n: "length (filter (\<lambda>e. fst (fst e) = room) ?ts) = card {i. table_view now ts (room, i) \<noteq> None}"
    using room_count(1) [OF wf(3), of room] get by simp
  have res: "(b, ts') = (if table_view now ts k0 = None \<and> card {i. table_view now ts (room, i) \<noteq> None} \<ge> ACTIVITY_LIMIT then (False, ?ts)
      else (True, jm_set ?ts k0 (privateRecord v (table_view now ts k0))))"
    using r v unfolding activities_register_def activities_get_def Let_def prod.case again get n k0_def registration_id_def by simp
  show b: "b \<longleftrightarrow> table_view now ts k0 \<noteq> None \<or> card {i. table_view now ts (room, i) \<noteq> None} < ACTIVITY_LIMIT"
    using res by (auto split: if_splits)
  show "table_ok ts'"
  proof (cases b)
    case True
    then have ts': "ts' = jm_set ?ts k0 (privateRecord v (table_view now ts k0))" using res by (auto split: if_splits)
    have "length (filter (\<lambda>e. fst (fst e) = r) ts') \<le> ACTIVITY_LIMIT" for r
      using wf(2) True b n get [of k0] unfolding ts' k0_def jm_set_count [OF wf(3)] table_ok_def by auto
    then show ?thesis using wf(3) ts' by (simp add: table_ok_def)
  qed (use res wf in \<open>auto split: if_splits\<close>)
  show "table_view t ts' k = (if b \<and> k = k0 then live_activity t (Some (privateRecord v (table_view now ts k0))) else table_view t ts k)"
    if "now \<le> t"
    using res purge_table_view [OF ok that, of k] by (auto simp: table_view_def [of t] split: if_splits)
qed

lemma node_listed:
  assumes ok: "table_ok ts" and r: "activities_list room now ts = (rows, ts')"
  shows "table_ok ts'" "now \<le> t \<Longrightarrow> table_view t ts' = table_view t ts"
    "mset rows = image_mset (\<lambda>i. subscription (the (table_view now ts (room, i)))) (mset_set {i. table_view now ts (room, i) \<noteq> None})"
proof -
  let ?ts = "activities_purge now ts" and ?in = "\<lambda>e :: activity_key \<times> activity. fst (fst e) = room"
  have ts': "ts' = ?ts" using r by (simp add: activities_list_def Let_def)
  have wf: "jm_wf ts" "jm_wf ?ts" using ok purge_table_ok [OF ok, of now] by (simp_all add: table_ok_def)
  show "table_ok ts'" "now \<le> t \<Longrightarrow> table_view t ts' = table_view t ts"
    using ts' purge_table_ok [OF ok] purge_table_view [OF ok] by auto
  have "mset rows = image_mset subscription (mset (map snd (filter ?in ?ts)))"
    using r by (auto simp: activities_list_def Let_def)
  also have "\<dots> = image_mset (\<lambda>e. subscription (the (jm_get ?ts (room, snd (fst e))))) (mset (filter ?in ?ts))"
    using jm_get_mem [OF wf(2)] by (auto simp: image_mset.compositionality comp_def intro!: image_mset_cong)
  also have "\<dots> = image_mset (\<lambda>i. subscription (the (jm_get ?ts (room, i)))) (mset (map (\<lambda>e. snd (fst e)) (filter ?in ?ts)))"
    by (simp add: image_mset.compositionality comp_def)
  also have "mset (map (\<lambda>e. snd (fst e)) (filter ?in ?ts)) = mset_set {i. jm_get ?ts (room, i) \<noteq> None}"
    using mset_set_set [OF room_rows(2) [OF wf(2), of room]] room_rows(1) [OF wf(2), of room] by simp
  finally show "mset rows = image_mset (\<lambda>i. subscription (the (table_view now ts (room, i)))) (mset_set {i. table_view now ts (room, i) \<noteq> None})"
    using purge_view [OF wf(1), of now] by simp
qed

lemma node_delivered:
  assumes "table_ok ts"
  shows "table_ok (activities_delivered room i d now ts)"
    "now \<le> t \<Longrightarrow> table_view t (activities_delivered room i d now ts) = (table_view t ts)((room, i) :=
       map_option (\<lambda>a. a\<lparr>ac_lastId := Some d, ac_lastAt := now\<rparr>) (table_view t ts (room, i)))"
proof -
  have m: "activities_delivered room i d now ts = map (\<lambda>(k, a). (k, (\<lambda>k a. if k = (room, i) \<and> ac_expiresAt a > now
      then a\<lparr>ac_lastId := Some d, ac_lastAt := now\<rparr> else a) k a)) ts"
    by (simp add: activities_delivered_def)
  have keys: "map fst (activities_delivered room i d now ts) = map fst ts" by (auto simp: activities_delivered_def)
  have "length (filter (\<lambda>e. fst (fst e) = r) (activities_delivered room i d now ts)) = length (filter (\<lambda>e. fst (fst e) = r) ts)" for r
    by (simp add: activities_delivered_def filter_map comp_def case_prod_unfold)
  then show "table_ok (activities_delivered room i d now ts)" using assms keys by (simp add: table_ok_def jm_wf_def)
  show "table_view t (activities_delivered room i d now ts) = (table_view t ts)((room, i) :=
       map_option (\<lambda>a. a\<lparr>ac_lastId := Some d, ac_lastAt := now\<rparr>) (table_view t ts (room, i)))" if "now \<le> t"
    using that unfolding m table_view_def jm_map_get by (auto simp: live_activity_def fun_eq_iff split: option.splits)
qed

interpretation node_activities: activity_registry SqliteTaskActivities table_ok table_view
proof
  fix t t' :: time and s k assume "t \<le> t'"
  then show "table_view t' s k = live_activity t' (table_view t s k)" by (simp add: table_view_def max_def)
next
  fix s t room assume ok: "table_ok s"
  have sub: "{i. table_view t s (room, i) \<noteq> None} \<subseteq> {i. jm_get s (room, i) \<noteq> None}" by (auto simp: table_view_def live_activity_Some)
  have f: "finite {i. jm_get s (room, i) \<noteq> None}" "card {i. jm_get s (room, i) \<noteq> None} \<le> ACTIVITY_LIMIT"
    using ok room_count [of s room] by (simp_all add: table_ok_def)
  then show "finite {i. table_view t s (room, i) \<noteq> None} \<and> card {i. table_view t s (room, i) \<noteq> None} \<le> ACTIVITY_LIMIT"
    using finite_subset [OF sub] card_mono [OF _ sub] by (meson le_trans)
next
  fix v now room and s :: activity_table assume "\<not> validActivityRegistration v now"
  then show "rg_register SqliteTaskActivities room v now s = (False, s)" by (simp add: SqliteTaskActivities_def activities_register_def)
next
  fix s v now room b s' assume "table_ok s" "validActivityRegistration v now" "rg_register SqliteTaskActivities room v now s = (b, s')"
  then show "table_ok s' \<and> (b \<longleftrightarrow> table_view now s (room, registration_id v) \<noteq> None \<or> card {i. table_view now s (room, i) \<noteq> None} < ACTIVITY_LIMIT)
      \<and> (\<forall>t \<ge> now. \<forall>k. table_view t s' k = (if b \<and> k = (room, registration_id v)
           then live_activity t (Some (privateRecord v (table_view now s (room, registration_id v)))) else table_view t s k))"
    using node_registered [of s v now room b s'] unfolding SqliteTaskActivities_def registry.simps by blast
next
  fix s room now rows s' assume "table_ok s" "rg_list SqliteTaskActivities room now s = (rows, s')"
  then show "table_ok s' \<and> mset rows = image_mset (\<lambda>i. subscription (the (table_view now s (room, i)))) (mset_set {i. table_view now s (room, i) \<noteq> None})
      \<and> (\<forall>t \<ge> now. table_view t s' = table_view t s)"
    using node_listed [of s room now rows s'] unfolding SqliteTaskActivities_def registry.simps by blast
next
  fix s room i now a s' assume "table_ok s" "rg_get SqliteTaskActivities room i now s = (a, s')"
  then show "table_ok s' \<and> a = table_view now s (room, i) \<and> (\<forall>t \<ge> now. table_view t s' = table_view t s)"
    using purge_table_ok [of s now] purge_table_view [of s now] purge_view [of s now]
    by (auto simp: SqliteTaskActivities_def activities_get_def Let_def table_ok_def)
next
  fix s room i now assume ok: "table_ok s"
  have "length (filter p (jm_delete s (room, i))) \<le> length (filter p s)" for p
    unfolding jm_delete_def filter_filter by (induction s) auto
  then have "table_ok (activities_remove room i now s)" using ok le_trans unfolding table_ok_def activities_remove_def by (meson jm_wf_delete)
  then show "table_ok (rg_remove SqliteTaskActivities room i now s)
      \<and> (\<forall>t \<ge> now. table_view t (rg_remove SqliteTaskActivities room i now s) = (table_view t s)((room, i) := None))"
    by (auto simp: SqliteTaskActivities_def activities_remove_def table_view_def fun_eq_iff)
next
  fix s room i d now assume ok: "table_ok s"
  show "table_ok (rg_delivered SqliteTaskActivities room i d now s)
      \<and> (\<forall>t \<ge> now. table_view t (rg_delivered SqliteTaskActivities room i d now s) = (table_view t s)((room, i) :=
        map_option (\<lambda>a. a\<lparr>ac_lastId := Some d, ac_lastAt := now\<rparr>) (table_view t s (room, i))))"
    using node_delivered [OF ok] unfolding SqliteTaskActivities_def registry.simps by blast
qed

section \<open>The registry of the Durable Object\<close>

definition room_activities :: "activity_storage \<Rightarrow> string \<Rightarrow> activity list" where
  "room_activities st room = (case st room of None \<Rightarrow> [] | Some rows \<Rightarrow> rows)"

definition storage_view :: "time \<Rightarrow> activity_storage \<Rightarrow> activity_key \<Rightarrow> activity option" where
  "storage_view t st k = live_activity t (with_id (snd k) (room_activities st (fst k)))"

definition rows_ok :: "activity list \<Rightarrow> bool" where
  "rows_ok rows \<longleftrightarrow> distinct (map ac_id rows) \<and> length rows \<le> ACTIVITY_LIMIT"

definition storage_ok :: "activity_storage \<Rightarrow> bool" where
  "storage_ok st \<longleftrightarrow> (\<forall>room. rows_ok (room_activities st room))"

definition current_rows :: "activity_storage \<Rightarrow> string \<Rightarrow> time \<Rightarrow> activity list" where
  "current_rows st room now = filter (\<lambda>a. ac_expiresAt a > now) (room_activities st room)"

lemma change_rows:
  assumes "activities_change room now f st = (r, st')"
  shows "r = fst (f (current_rows st room now))"
    "room_activities st' room' = (if room' = room then snd (f (current_rows st room now)) else room_activities st room')"
  using assms by (cases "st room"; auto simp: activities_change_def room_activities_def current_rows_def Let_def split: prod.splits if_splits)+

lemma with_id_filter: "distinct (map ac_id rows) \<Longrightarrow> with_id i (filter (\<lambda>a. ac_expiresAt a > now) rows) = live_activity now (with_id i rows)"
proof (induction rows)
  case (Cons a rows)
  have none: "with_id (ac_id a) rows = None" using Cons.prems by (auto simp: with_id_def find_None_iff image_iff)
  show ?case using Cons none by (auto simp: with_id_def live_activity_def)
qed (simp add: with_id_def)

lemma activity_rows_ok_filter: "rows_ok rows \<Longrightarrow> rows_ok (filter p rows)"
  using le_trans [OF length_filter_le [of p rows]] by (auto simp: rows_ok_def distinct_map_filter)

lemma current_rows_view: "storage_ok st \<Longrightarrow> with_id i (current_rows st room now) = storage_view now st (room, i)"
  by (simp add: storage_ok_def rows_ok_def current_rows_def storage_view_def with_id_filter)

lemma change_law:
  assumes ok: "storage_ok st" and c: "activities_change room now f st = (r, st')" and rows: "rows_ok (snd (f (current_rows st room now)))"
  shows "storage_ok st'" "now \<le> t \<Longrightarrow> storage_view t st' (room', i) = (if room' = room
    then live_activity t (with_id i (snd (f (current_rows st room now)))) else storage_view t st (room', i))"
  using ok rows change_rows(2) [OF c] by (auto simp: storage_ok_def storage_view_def)

lemma current_rows_ok: "storage_ok st \<Longrightarrow> rows_ok (current_rows st room now)"
  by (simp add: storage_ok_def current_rows_def activity_rows_ok_filter)

lemma current_rows_later: "storage_ok st \<Longrightarrow> now \<le> t \<Longrightarrow> live_activity t (with_id i (current_rows st room now)) = storage_view t st (room, i)"
  by (simp add: current_rows_view) (simp add: storage_view_def max_def)

text \<open>A row replaced, removed or added by its identity.\<close>

lemma with_id_replaced:
  assumes "find_index (\<lambda>a. ac_id a = i) rows = Some n" "ac_id x = i"
  shows "with_id j (rows[n := x]) = (if j = i then Some x else with_id j rows)" "map ac_id (rows[n := x]) = map ac_id rows"
    "with_id i rows = Some (rows ! n)"
  using assms
proof (induction rows arbitrary: n)
  case (Cons a rows)
  { case 1 then show ?case using Cons.IH(1) by (auto simp: with_id_def split: if_splits) }
  { case 2 then show ?case using Cons.IH(2) by (auto split: if_splits) }
  { case 3 then show ?case using Cons.IH(3) by (auto simp: with_id_def split: if_splits) }
qed simp_all

lemma with_id_removed:
  assumes "distinct (map ac_id rows)"
  shows "with_id j (case find_index (\<lambda>a. ac_id a = i) rows of Some n \<Rightarrow> remove_at n rows | None \<Rightarrow> rows) = (if j = i then None else with_id j rows)"
    "rows_ok rows \<Longrightarrow> rows_ok (case find_index (\<lambda>a. ac_id a = i) rows of Some n \<Rightarrow> remove_at n rows | None \<Rightarrow> rows)"
proof -
  let ?r = "case find_index (\<lambda>a. ac_id a = i) rows of Some n \<Rightarrow> remove_at n rows | None \<Rightarrow> rows"
  have r: "?r = filter (\<lambda>a. ac_id a \<noteq> i) rows"
  proof (cases "find_index (\<lambda>a. ac_id a = i) rows")
    case None
    then have "\<forall>a\<in>set rows. ac_id a \<noteq> i" by (simp add: find_index_None_iff list_all_iff)
    then show ?thesis using None by simp
  next
    case (Some n)
    from find_index_Some_split [OF Some] obtain ys x zs where e: "rows = ys @ x # zs" "length ys = n" "ac_id x = i" by blast
    have "filter (\<lambda>a. ac_id a \<noteq> i) ys = ys" "filter (\<lambda>a. ac_id a \<noteq> i) zs = zs" using assms e(1,3) by (auto simp: filter_id_conv image_iff)
    then show ?thesis using Some e remove_at_middle [of ys x zs] by simp
  qed
  show "with_id j ?r = (if j = i then None else with_id j rows)" unfolding r
    by (induction rows) (auto simp: with_id_def find_None_iff)
  show "rows_ok ?r" if "rows_ok rows" unfolding r using that by (rule activity_rows_ok_filter)
qed

lemma with_id_none: "find_index (\<lambda>a. ac_id a = i) rows = None \<longleftrightarrow> with_id i rows = None"
  by (auto simp: find_index_None_iff with_id_def find_None_iff list_all_iff)

lemma with_id_added: "with_id j (rows @ [x]) = (if j = ac_id x \<and> with_id j rows = None then Some x else with_id j rows)"
  by (induction rows) (auto simp: with_id_def)

lemma with_id_ids: "{i. with_id i rows \<noteq> None} = set (map ac_id rows)"
  by (auto simp: with_id_def find_None_iff)

lemma rows_count: "rows_ok rows \<Longrightarrow> card {i. with_id i rows \<noteq> None} = length rows \<and> finite {i. with_id i rows \<noteq> None}"
  unfolding with_id_ids using distinct_card [of "map ac_id rows"] by (simp add: rows_ok_def)

lemma rows_ok_replaced:
  "rows_ok rows \<Longrightarrow> find_index (\<lambda>a. ac_id a = i) rows = Some n \<Longrightarrow> ac_id x = i \<Longrightarrow> rows_ok (rows[n := x])"
  by (simp add: rows_ok_def with_id_replaced(2))

lemma worker_registered:
  assumes ok: "storage_ok st" and v: "validActivityRegistration v now" and r: "worker_activities_register room v now st = (b, st')"
  defines "k0 \<equiv> (room, registration_id v)"
  shows "storage_ok st'" "b \<longleftrightarrow> storage_view now st k0 \<noteq> None \<or> card {i. storage_view now st (room, i) \<noteq> None} < ACTIVITY_LIMIT"
    "now \<le> t \<Longrightarrow> storage_view t st' k = (if b \<and> k = k0 then live_activity t (Some (privateRecord v (storage_view now st k0))) else storage_view t st k)"
proof -
  let ?i = "registration_id v" and ?rows = "current_rows st room now" and ?new = "privateRecord v (storage_view now st k0)"
  define f where "f = (\<lambda>rows. let existing = with_id ?i rows; private = privateRecord v existing
      in if existing = None \<and> length rows \<ge> ACTIVITY_LIMIT then (False, rows)
         else (True, case find_index (\<lambda>a. ac_id a = ?i) rows of Some n \<Rightarrow> rows[n := private] | None \<Rightarrow> rows @ [private]))"
  have c: "activities_change room now f st = (b, st')"
    using r v unfolding worker_activities_register_def f_def registration_id_def by (simp add: Let_def)
  have rok: "rows_ok ?rows" by (rule current_rows_ok [OF ok])
  note view = current_rows_view [OF ok, of _ room now]
  have n: "length ?rows = card {i. storage_view now st (room, i) \<noteq> None}" using rows_count [OF rok] view by simp
  have new: "ac_id ?new = ?i" by (simp add: privateRecord_def registration_id_def)
  have b: "b \<longleftrightarrow> storage_view now st k0 \<noteq> None \<or> length ?rows < ACTIVITY_LIMIT"
    using change_rows(1) [OF c] view [of ?i] by (auto simp: f_def Let_def k0_def)
  then show "b \<longleftrightarrow> storage_view now st k0 \<noteq> None \<or> card {i. storage_view now st (room, i) \<noteq> None} < ACTIVITY_LIMIT" using n by simp
  have rows: "rows_ok (snd (f ?rows)) \<and> with_id j (snd (f ?rows)) = (if b \<and> j = ?i then Some ?new else with_id j ?rows)" for j
  proof (cases "find_index (\<lambda>a. ac_id a = ?i) ?rows")
    case None
    then have "with_id ?i ?rows = None" by (simp add: with_id_none)
    moreover have "\<forall>a\<in>set ?rows. ac_id a \<noteq> ?i" using None by (simp add: find_index_None_iff list_all_iff)
    ultimately show ?thesis using None b rok view [of ?i] new with_id_added [of j ?rows ?new]
      by (auto simp: f_def Let_def k0_def rows_ok_def)
  next
    case (Some n)
    then show ?thesis using b view [of ?i] new with_id_replaced [OF Some, of ?new] rows_ok_replaced [OF rok Some, of ?new]
      by (simp add: f_def Let_def k0_def)
  qed
  show "storage_ok st'" using change_law(1) [OF ok c] rows by blast
  show "storage_view t st' k = (if b \<and> k = k0 then live_activity t (Some ?new) else storage_view t st k)" if "now \<le> t"
    using change_law(2) [OF ok c _ that, of "fst k" "snd k"] rows [of "snd k"] current_rows_later [OF ok that, of "snd k" room]
    by (cases k) (auto simp: k0_def)
qed

lemma worker_unchanged:
  assumes ok: "storage_ok st" and c: "activities_change room now (\<lambda>rows. (g rows, rows)) st = (r, st')"
  shows "storage_ok st'" "r = g (current_rows st room now)" "now \<le> t \<Longrightarrow> storage_view t st' = storage_view t st"
proof -
  have rok: "rows_ok (snd ((\<lambda>rows. (g rows, rows)) (current_rows st room now)))" using current_rows_ok [OF ok] by simp
  show "storage_ok st'" "r = g (current_rows st room now)" using change_law(1) [OF ok c rok] change_rows(1) [OF c] by simp_all
  show "storage_view t st' = storage_view t st" if "now \<le> t"
    using change_law(2) [OF ok c rok that] current_rows_later [OF ok that] by (auto simp: fun_eq_iff)
qed

lemma worker_listed:
  assumes ok: "storage_ok st" and r: "worker_activities_list collate room now st = (rows, st')"
  shows "storage_ok st'" "now \<le> t \<Longrightarrow> storage_view t st' = storage_view t st"
    "mset rows = image_mset (\<lambda>i. subscription (the (storage_view now st (room, i)))) (mset_set {i. storage_view now st (room, i) \<noteq> None})"
proof -
  note u = worker_unchanged [OF ok r [unfolded worker_activities_list_def]]
  let ?rows = "current_rows st room now"
  have d: "distinct (map ac_id ?rows)" using current_rows_ok [OF ok] by (simp add: rows_ok_def)
  show "storage_ok st'" "now \<le> t \<Longrightarrow> storage_view t st' = storage_view t st" using u by simp_all
  have found: "with_id (ac_id a) rows = Some a" if "distinct (map ac_id rows)" "a \<in> set rows" for a rows
    using that by (induction rows) (auto simp: with_id_def image_iff)
  have "mset rows = image_mset subscription (mset ?rows)" using u(2) by simp
  also have "\<dots> = image_mset (\<lambda>a. subscription (the (with_id (ac_id a) ?rows))) (mset ?rows)"
    using found [OF d] by (intro image_mset_cong) simp
  also have "\<dots> = image_mset (\<lambda>i. subscription (the (with_id i ?rows))) (mset (map ac_id ?rows))"
    by (simp add: image_mset.compositionality comp_def)
  also have "mset (map ac_id ?rows) = mset_set {i. with_id i ?rows \<noteq> None}"
    unfolding with_id_ids using mset_set_set [OF d] by simp
  finally show "mset rows = image_mset (\<lambda>i. subscription (the (storage_view now st (room, i)))) (mset_set {i. storage_view now st (room, i) \<noteq> None})"
    using current_rows_view [OF ok] by simp
qed

lemma worker_removed:
  assumes ok: "storage_ok st"
  shows "storage_ok (worker_activities_remove room i now st)"
    "now \<le> t \<Longrightarrow> storage_view t (worker_activities_remove room i now st) = (storage_view t st)((room, i) := None)"
proof -
  let ?f = "\<lambda>rows. ((), case find_index (\<lambda>a. ac_id a = i) rows of Some n \<Rightarrow> remove_at n rows | None \<Rightarrow> rows)"
  obtain r st' where c: "activities_change room now ?f st = (r, st')" by (cases "activities_change room now ?f st")
  have st': "worker_activities_remove room i now st = st'" using c by (simp add: worker_activities_remove_def)
  have d: "distinct (map ac_id (current_rows st room now))" using current_rows_ok [OF ok] by (simp add: rows_ok_def)
  have rok: "rows_ok (snd (?f (current_rows st room now)))" using with_id_removed(2) [OF d current_rows_ok [OF ok]] by simp
  show "storage_ok (worker_activities_remove room i now st)" unfolding st' by (rule change_law(1) [OF ok c rok])
  show "storage_view t (worker_activities_remove room i now st) = (storage_view t st)((room, i) := None)" if "now \<le> t"
    unfolding st' using change_law(2) [OF ok c rok that] with_id_removed(1) [OF d] current_rows_later [OF ok that, of _ room]
    by (auto simp: fun_eq_iff)
qed

lemma worker_delivered:
  assumes ok: "storage_ok st"
  shows "storage_ok (worker_activities_delivered room i d now st)"
    "now \<le> t \<Longrightarrow> storage_view t (worker_activities_delivered room i d now st) = (storage_view t st)((room, i) :=
       map_option (\<lambda>a. a\<lparr>ac_lastId := Some d, ac_lastAt := now\<rparr>) (storage_view t st (room, i)))"
proof -
  let ?up = "\<lambda>a :: activity. a\<lparr>ac_lastId := Some d, ac_lastAt := now\<rparr>" and ?rows = "current_rows st room now"
  let ?f = "\<lambda>rows. ((), case find_index (\<lambda>a. ac_id a = i) rows of Some n \<Rightarrow> rows[n := ?up (rows ! n)] | None \<Rightarrow> rows)"
  obtain r st' where c: "activities_change room now ?f st = (r, st')" by (cases "activities_change room now ?f st")
  have st': "worker_activities_delivered room i d now st = st'" using c by (simp add: worker_activities_delivered_def)
  have rows: "rows_ok (snd (?f ?rows)) \<and> with_id j (snd (?f ?rows)) = (if j = i then map_option ?up (with_id i ?rows) else with_id j ?rows)" for j
  proof (cases "find_index (\<lambda>a. ac_id a = i) ?rows")
    case None
    then have "with_id i ?rows = None" by (simp add: with_id_none)
    then show ?thesis using None current_rows_ok [OF ok] by simp
  next
    case (Some n)
    from find_index_Some_split [OF Some] have "ac_id (?up (?rows ! n)) = i" by auto
    then show ?thesis using Some with_id_replaced [OF Some] rows_ok_replaced [OF current_rows_ok [OF ok] Some] by simp
  qed
  then have rok: "rows_ok (snd (?f ?rows))" by blast
  show "storage_ok (worker_activities_delivered room i d now st)" unfolding st' by (rule change_law(1) [OF ok c rok])
  have live: "live_activity t (map_option ?up a) = map_option ?up (live_activity t a)" for a
    by (auto simp: live_activity_def split: option.splits)
  show "storage_view t (worker_activities_delivered room i d now st) = (storage_view t st)((room, i) :=
       map_option ?up (storage_view t st (room, i)))" if "now \<le> t"
  proof
    fix k
    show "storage_view t (worker_activities_delivered room i d now st) k = ((storage_view t st)((room, i) :=
       map_option ?up (storage_view t st (room, i)))) k"
      using change_law(2) [OF ok c rok that, of "fst k" "snd k"] rows [of "snd k"] current_rows_later [OF ok that, of _ room] live
      unfolding st' by (cases k) (simp split: if_splits)
  qed
qed

interpretation worker_activities: activity_registry "WorkerTaskActivities collate" storage_ok storage_view
proof
  fix t t' :: time and s k assume "t \<le> t'"
  then show "storage_view t' s k = live_activity t' (storage_view t s k)" by (simp add: storage_view_def max_def)
next
  fix s t room assume ok: "storage_ok s"
  then have rok: "rows_ok (current_rows s room t)" by (rule current_rows_ok)
  then show "finite {i. storage_view t s (room, i) \<noteq> None} \<and> card {i. storage_view t s (room, i) \<noteq> None} \<le> ACTIVITY_LIMIT"
    using rows_count [OF rok] current_rows_view [OF ok, of _ room t] by (simp add: rows_ok_def)
next
  fix v now room s assume "\<not> validActivityRegistration v now"
  then show "rg_register (WorkerTaskActivities collate) room v now s = (False, s)" by (simp add: WorkerTaskActivities_def worker_activities_register_def)
next
  fix s v now room b s' assume a: "storage_ok s" "validActivityRegistration v now" "rg_register (WorkerTaskActivities collate) room v now s = (b, s')"
  from worker_registered [OF a(1,2) a(3) [unfolded WorkerTaskActivities_def registry.simps]]
  show "storage_ok s' \<and> (b \<longleftrightarrow> storage_view now s (room, registration_id v) \<noteq> None \<or> card {i. storage_view now s (room, i) \<noteq> None} < ACTIVITY_LIMIT)
      \<and> (\<forall>t \<ge> now. \<forall>k. storage_view t s' k = (if b \<and> k = (room, registration_id v)
           then live_activity t (Some (privateRecord v (storage_view now s (room, registration_id v)))) else storage_view t s k))"
    by blast
next
  fix s room now rows s' assume a: "storage_ok s" "rg_list (WorkerTaskActivities collate) room now s = (rows, s')"
  from worker_listed [OF a(1) a(2) [unfolded WorkerTaskActivities_def registry.simps]]
  show "storage_ok s' \<and> mset rows = image_mset (\<lambda>i. subscription (the (storage_view now s (room, i)))) (mset_set {i. storage_view now s (room, i) \<noteq> None})
      \<and> (\<forall>t \<ge> now. storage_view t s' = storage_view t s)" by blast
next
  fix s room i now a s' assume g: "storage_ok s" "rg_get (WorkerTaskActivities collate) room i now s = (a, s')"
  from worker_unchanged [OF g(1) g(2) [unfolded WorkerTaskActivities_def registry.simps worker_activities_get_def]] current_rows_view [OF g(1)]
  show "storage_ok s' \<and> a = storage_view now s (room, i) \<and> (\<forall>t \<ge> now. storage_view t s' = storage_view t s)" by auto
next
  fix s room i now assume ok: "storage_ok s"
  from worker_removed [OF ok] show "storage_ok (rg_remove (WorkerTaskActivities collate) room i now s)
      \<and> (\<forall>t \<ge> now. storage_view t (rg_remove (WorkerTaskActivities collate) room i now s) = (storage_view t s)((room, i) := None))"
    unfolding WorkerTaskActivities_def registry.simps by blast
next
  fix s room i d now assume ok: "storage_ok s"
  from worker_delivered [OF ok] show "storage_ok (rg_delivered (WorkerTaskActivities collate) room i d now s)
      \<and> (\<forall>t \<ge> now. storage_view t (rg_delivered (WorkerTaskActivities collate) room i d now s) = (storage_view t s)((room, i) :=
        map_option (\<lambda>a. a\<lparr>ac_lastId := Some d, ac_lastAt := now\<rparr>) (storage_view t s (room, i))))"
    unfolding WorkerTaskActivities_def registry.simps by blast
qed

end
