(* ===== verification/Activity_Delivery.thy ===== *)
theory Activity_Delivery
  imports Task_Activities
begin

text \<open>
  The properties of the activity endpoint of \<open>Task_Activities\<close>, proved once for every registry that
  keeps the contract \<open>activity_registry\<close> and obtained for both runtimes.
\<close>

section \<open>Requests over a registry\<close>

lemma activity_handle_cases:
  assumes "activity_handle reg configured path method room authorized body now s = (res, s')"
  obtains (same) "s' = s"
  | (listed) rows where "rg_list reg (the room) now s = (rows, s')" "res = Inl (json (JObj [(''ok'', JBool True), (''subscriptions'', JArr rows)]) 200)"
  | (removed) i where "s' = rg_remove reg (the room) i now s"
  | (registered) b r where "path = ''/push/activity/register''" "method \<noteq> ''DELETE''" "validActivityRegistration (the body) now"
      "rg_register reg (the room) (the body) now s = (b, s')" "res = Inl r" "resp_status r = (if b then 200 else 409)"
proof (cases body)
  case None
  show ?thesis using assms None listed same by (auto simp: activity_handle_def Let_def split: if_splits prod.splits)
next
  case (Some v)
  consider "path = ''/push/activity/register''" "activity_registration reg configured method (the room) v now s = (case res of Inl r \<Rightarrow> r, s')" "\<exists>r. res = Inl r"
    | "s' = s" | rows where "rg_list reg (the room) now s = (rows, s')" "res = Inl (json (JObj [(''ok'', JBool True), (''subscriptions'', JArr rows)]) 200)"
    using assms Some by (auto simp: activity_handle_def Let_def split: if_splits prod.splits)
  then show ?thesis
  proof cases
    case 1
    then show ?thesis using Some same removed registered
      by (auto simp: activity_registration_def json_def split: if_splits prod.splits)
  qed (use same listed in auto)
qed

section \<open>The spacing of updates\<close>

text \<open>The last accepted push of an activity since it was registered.\<close>

definition after_note :: "activity_key \<Rightarrow> (string \<times> time) option \<Rightarrow> activity_note \<Rightarrow> (string \<times> time) option" where
  "after_note k p n = (case n of Enrolled k' \<Rightarrow> if k' = k then None else p | Pushed k' d e t \<Rightarrow> if k' = k then Some (d, t) else p)"

definition last_push :: "activity_key \<Rightarrow> activity_note list \<Rightarrow> (string \<times> time) option" where
  "last_push k notes = foldl (after_note k) None notes"

definition push_allowed :: "activity_note list \<Rightarrow> activity_note \<Rightarrow> bool" where
  "push_allowed before n = (case n of Enrolled _ \<Rightarrow> True | Pushed k d e t \<Rightarrow>
     (case last_push k before of None \<Rightarrow> True | Some (d', t') \<Rightarrow> d \<noteq> d' \<and> (e \<or> 10000 \<le> t - t')))"

definition pushes_spaced :: "activity_note list \<Rightarrow> bool" where
  "pushes_spaced notes \<longleftrightarrow> (\<forall>i<length notes. push_allowed (take i notes) (notes ! i))"

lemma last_push_append [simp]: "last_push k (notes @ [n]) = after_note k (last_push k notes) n" "last_push k [] = None"
  by (simp_all add: last_push_def)

lemma pushes_spaced_append: "pushes_spaced (notes @ [n]) \<longleftrightarrow> pushes_spaced notes \<and> push_allowed notes n"
  by (auto simp: pushes_spaced_def nth_append less_Suc_eq)

fun event_times :: "activity_event list \<Rightarrow> time list" where
  "event_times [] = []"
| "event_times (Ac_request _ _ _ _ _ now # evs) = now # event_times evs"
| "event_times (Ac_begin _ now # evs) = now # event_times evs"
| "event_times (Ac_end _ _ # evs) = event_times evs"

context activity_registry
begin

definition row_inv :: "time \<Rightarrow> activity_note list \<Rightarrow> 's \<Rightarrow> bool" where
  "row_inv t notes s \<longleftrightarrow> ok s \<and> (\<forall>k d t'. last_push k notes = Some (d, t') \<longrightarrow> 0 < t' \<and> t' \<le> t
     \<and> (\<forall>row. view t s k = Some row \<longrightarrow> ac_lastAt row = t' \<and> ac_lastId row = Some d))"

definition work_inv :: "time \<Rightarrow> activity_note list \<Rightarrow> (activity_key \<rightharpoonup> js \<times> time \<times> activity) \<Rightarrow> bool" where
  "work_inv t notes work \<longleftrightarrow> (\<forall>k u now r. work k = Some (u, now, r) \<longrightarrow> 0 < now \<and> now \<le> t \<and> update_id u = snd k
     \<and> (\<forall>d t'. last_push k notes = Some (d, t') \<longrightarrow> delivery_id u \<noteq> d \<and> (is_end u \<or> 10000 \<le> now - t')))"

lemma row_inv_later:
  assumes "row_inv t notes s" "t \<le> t'"
  shows "row_inv t' notes s"
  unfolding row_inv_def
proof (intro conjI allI impI)
  show "ok s" using assms(1) by (simp add: row_inv_def)
next
  fix k d x assume "last_push k notes = Some (d, x)"
  then have x: "0 < x" "x \<le> t" "\<And>row. view t s k = Some row \<Longrightarrow> ac_lastAt row = x \<and> ac_lastId row = Some d"
    using assms(1) unfolding row_inv_def by blast+
  then show "0 < x" "x \<le> t'" using assms(2) by simp_all
  fix row assume "view t' s k = Some row"
  then have "view t s k = Some row" using view_later [OF assms(2), of s k] by (simp add: live_activity_Some)
  then show "ac_lastAt row = x" "ac_lastId row = Some d" using x(3) by simp_all
qed

lemma work_inv_later:
  assumes "work_inv t notes work" "t \<le> t'"
  shows "work_inv t' notes work"
  unfolding work_inv_def
proof (intro allI impI)
  fix k u now r assume "work k = Some (u, now, r)"
  then have "0 < now \<and> now \<le> t \<and> update_id u = snd k
      \<and> (\<forall>d t'. last_push k notes = Some (d, t') \<longrightarrow> delivery_id u \<noteq> d \<and> (is_end u \<or> 10000 \<le> now - t'))"
    using assms(1) unfolding work_inv_def by blast
  then show "0 < now \<and> now \<le> t' \<and> update_id u = snd k
      \<and> (\<forall>d t'. last_push k notes = Some (d, t') \<longrightarrow> delivery_id u \<noteq> d \<and> (is_end u \<or> 10000 \<le> now - t'))"
    using assms(2) by simp
qed

lemma row_inv_same: "row_inv t notes s \<Longrightarrow> ok s' \<Longrightarrow> view t s' = view t s \<Longrightarrow> row_inv t notes s'"
  by (simp add: row_inv_def)

lemma row_inv_removed: "row_inv t notes s \<Longrightarrow> now \<le> t \<Longrightarrow> row_inv t notes (rg_remove reg room i now s)"
  using remove_law [of s room i now] by (auto simp: row_inv_def)

lemma enrolled_inv: "row_inv t notes s \<Longrightarrow> row_inv t (notes @ [Enrolled k]) s" "work_inv t notes w \<Longrightarrow> work_inv t (notes @ [Enrolled k]) w"
  unfolding row_inv_def work_inv_def by (simp_all add: after_note_def)

lemma registered_inv:
  assumes inv: "row_inv now notes s" and v: "validActivityRegistration v now" and r: "rg_register reg room v now s = (b, s')"
  shows "view now s (room, registration_id v) \<noteq> None \<or> \<not> b \<Longrightarrow> row_inv now notes s'"
    "row_inv now (notes @ [Enrolled (room, registration_id v)]) s'"
proof -
  have ok: "ok s" using inv by (simp add: row_inv_def)
  note law = register_law [OF ok v r]
  show "row_inv now notes s'" if old: "view now s (room, registration_id v) \<noteq> None \<or> \<not> b"
    using old inv law unfolding row_inv_def by (auto simp: live_activity_Some privateRecord_def split: if_splits)
  show "row_inv now (notes @ [Enrolled (room, registration_id v)]) s'"
    using inv law unfolding row_inv_def by (auto simp: after_note_def split: if_splits)
qed

lemma request_inv:
  assumes inv: "row_inv now notes s" and h: "activity_handle reg configured path method room authorized body now s = (res, s')"
  defines "extra \<equiv> (case res of Inl r \<Rightarrow> enrolled_note reg path method room body now s (resp_status r = 200) | Inr _ \<Rightarrow> [])"
  shows "row_inv now (notes @ extra) s'" "work_inv now notes w \<Longrightarrow> work_inv now (notes @ extra) w"
    "pushes_spaced notes \<Longrightarrow> pushes_spaced (notes @ extra)"
proof -
  have ex: "extra = [] \<or> (\<exists>k. extra = [Enrolled k])" by (auto simp: extra_def enrolled_note_def split: sum.splits)
  then show "work_inv now notes w \<Longrightarrow> work_inv now (notes @ extra) w" using enrolled_inv by auto
  show "pushes_spaced notes \<Longrightarrow> pushes_spaced (notes @ extra)" using ex by (auto simp: pushes_spaced_append push_allowed_def)
  have ok: "ok s" using inv by (simp add: row_inv_def)
  have up: "row_inv now (notes @ extra) s'" if "row_inv now notes s'" using that ex enrolled_inv(1) by auto
  show "row_inv now (notes @ extra) s'"
    using h
  proof (cases rule: activity_handle_cases)
    case same
    then show ?thesis using inv up by simp
  next
    case (listed rows)
    then show ?thesis using list_law [OF ok listed(1)] row_inv_same [OF inv] up by simp
  next
    case (removed i)
    then show ?thesis using row_inv_removed [OF inv] up by simp
  next
    case (registered b r)
    note reg_inv = registered_inv [OF inv registered(3,4)]
    show ?thesis
    proof (cases "view now s (the room, registration_id (the body)) \<noteq> None \<or> \<not> b")
      case True
      then show ?thesis using reg_inv(1) up by blast
    next
      case False
      obtain a s1 where g: "rg_get reg (the room) (registration_id (the body)) now s = (a, s1)" by fastforce
      have "extra = [Enrolled (the room, registration_id (the body))]"
        using registered(1,2,5,6) False g get_law [OF ok g] by (simp add: extra_def enrolled_note_def registration_id_def)
      then show ?thesis using reg_inv(2) by simp
    qed
  qed
qed

lemma begin_inv:
  assumes inv: "row_inv now notes s" and u: "update_id u = snd k" and d: "deliver_begin reg configured (fst k) u now s = (step, s')" and pos: "0 < now"
    and w: "work_inv now notes w"
  shows "row_inv now notes s'" "step = Inr route \<Longrightarrow> work_inv now notes (w(k \<mapsto> (u, now, route)))"
proof -
  have ok: "ok s" using inv by (simp add: row_inv_def)
  obtain a s1 where g: "rg_get reg (fst k) (update_id u) now s = (a, s1)" by fastforce
  note law = get_law [OF ok g]
  have s': "s' = s1" using d g by (auto simp: deliver_begin_def split: option.splits)
  then show "row_inv now notes s'" using row_inv_same [OF inv] law by simp
  show "work_inv now notes (w(k \<mapsto> (u, now, route)))" if "step = Inr route"
  proof -
    have r: "a = Some route" "ac_lastId route \<noteq> Some (delivery_id u)" "is_end u \<or> ac_lastAt route \<le> 0 \<or> 10000 \<le> now - ac_lastAt route"
      using d g that by (auto simp: deliver_begin_def Let_def split: option.splits if_splits)
    have "view now s k = Some route" using law r(1) u by simp
    then have "delivery_id u \<noteq> d \<and> (is_end u \<or> 10000 \<le> now - t')" if "last_push k notes = Some (d, t')" for d t'
      using inv that r(2,3) unfolding row_inv_def by fastforce
    then show ?thesis using w u pos unfolding work_inv_def by (auto split: if_splits)
  qed
qed

lemma end_inv:
  assumes inv: "row_inv t notes s" and w: "work_inv t notes w" "w k = Some (u, now, route)"
    and d: "deliver_end reg (fst k) u now route sent s = (answer, s')"
  defines "extra \<equiv> (if sent = Apns_accepted then [Pushed k (delivery_id u) (is_end u) now] else [])"
  shows "row_inv t (notes @ extra) s'" "work_inv t (notes @ extra) (w(k := None))" "push_allowed notes (Pushed k (delivery_id u) (is_end u) now)"
proof -
  have ok: "ok s" using inv by (simp add: row_inv_def)
  have u: "0 < now" "now \<le> t" "update_id u = snd k"
    "\<And>d t'. last_push k notes = Some (d, t') \<Longrightarrow> delivery_id u \<noteq> d \<and> (is_end u \<or> 10000 \<le> now - t')"
    using w unfolding work_inv_def by blast+
  then show "push_allowed notes (Pushed k (delivery_id u) (is_end u) now)" by (auto simp: push_allowed_def split: option.splits)
  show "work_inv t (notes @ extra) (w(k := None))"
    using w(1) unfolding work_inv_def extra_def by (auto simp: after_note_def)
  show "row_inv t (notes @ extra) s'"
  proof (cases sent)
    case Apns_accepted
    let ?s = "rg_delivered reg (fst k) (snd k) (delivery_id u) now s"
    have law: "ok ?s" "view t ?s = (view t s)(k := map_option (\<lambda>a. a\<lparr>ac_lastId := Some (delivery_id u), ac_lastAt := now\<rparr>) (view t s k))"
      using delivered_law [OF ok, of "fst k" "snd k" "delivery_id u" now] u(2) by simp_all
    have "row_inv t (notes @ extra) ?s"
      using inv law u(1,2) Apns_accepted unfolding row_inv_def extra_def by (auto simp: after_note_def split: if_splits)
    moreover have "s' = (if is_end u then rg_remove reg (fst k) (snd k) now ?s else ?s)"
      using d Apns_accepted unfolding deliver_end_def u(3) by (simp add: Let_def)
    ultimately show ?thesis using row_inv_removed u(2) by simp
  next
    case Apns_stale
    obtain a s1 where g: "rg_get reg (fst k) (snd k) now s = (a, s1)" by fastforce
    have "row_inv t notes s1" using get_law [OF ok g] row_inv_same [OF inv] u(2) by simp
    moreover have "s' = s1 \<or> s' = rg_remove reg (fst k) (snd k) now s1"
      using d g Apns_stale u(3) by (auto simp: deliver_end_def Let_def)
    ultimately show ?thesis using row_inv_removed u(2) Apns_stale by (auto simp: extra_def)
  qed (use d inv in \<open>simp_all add: deliver_end_def extra_def\<close>)
qed

definition endpoint_inv :: "time \<Rightarrow> activity_note list \<Rightarrow> 's activity_state \<Rightarrow> bool" where
  "endpoint_inv t notes st \<longleftrightarrow> row_inv t notes (as_reg st) \<and> work_inv t notes (as_work st) \<and> pushes_spaced notes"

lemma endpoint_inv_later: "endpoint_inv t notes st \<Longrightarrow> t \<le> t' \<Longrightarrow> endpoint_inv t' notes st"
  unfolding endpoint_inv_def using row_inv_later work_inv_later by blast

lemma begin_step_inv:
  assumes inv: "endpoint_inv now notes st" and d: "enqueue_begin reg configured k now st = (answer, st')" and pos: "0 < now"
  shows "endpoint_inv now notes st'"
proof -
  consider "st' = st" | n where "find_index (\<lambda>(room, update). (room, update_id update) = k) (as_queue st) = Some n" "as_work st k = None"
    using d by (cases "as_work st k") (auto simp: enqueue_begin_def split: option.splits)
  then show ?thesis
  proof cases
    case (2 n)
    define u where "u = snd (as_queue st ! n)"
    from find_index_Some_split [OF 2(1)] have key: "fst (as_queue st ! n) = fst k" "update_id u = snd k" by (auto simp: u_def)
    obtain step s1 where b: "deliver_begin reg configured (fst k) u now (as_reg st) = (step, s1)" by fastforce
    have st': "as_reg st' = s1" "as_work st' = (case step of Inl _ \<Rightarrow> as_work st | Inr route \<Rightarrow> (as_work st)(k \<mapsto> (u, now, route)))"
      using d 2 b by (auto simp: enqueue_begin_def u_def [symmetric] Let_def split: sum.splits)
    note b_inv = begin_inv [OF _ key(2) b pos]
    show ?thesis using inv st' b_inv unfolding endpoint_inv_def by (auto split: sum.splits)
  qed (use inv in simp)
qed

lemma run_inv:
  "sorted (t # event_times evs) \<Longrightarrow> 0 < t \<Longrightarrow> endpoint_inv t notes st \<Longrightarrow> activity_run reg configured evs st = (answers, later, st') \<Longrightarrow>
     \<exists>t'. endpoint_inv t' (notes @ later) st'"
proof (induction evs arbitrary: t "notes" st answers later)
  case (Cons ev evs)
  obtain answer extra st1 where s: "activity_step reg configured ev st = (answer, extra, st1)" by (metis prod_cases3)
  obtain answers' later' where r: "activity_run reg configured evs st1 = (answers', later', st')" "later = extra @ later'"
    using Cons.prems(4) s by (auto split: prod.splits)
  obtain t1 where t1: "t \<le> t1" "sorted (t1 # event_times evs)" "endpoint_inv t1 (notes @ extra) st1"
  proof (cases ev)
    case (Ac_request path verb room authorized body now)
    have inv: "endpoint_inv now notes st" using Cons.prems(1,3) Ac_request endpoint_inv_later by simp
    obtain res s1 where h: "activity_handle reg configured path verb room authorized body now (as_reg st) = (res, s1)" by fastforce
    note q = request_inv [OF _ h]
    have "endpoint_inv now (notes @ extra) st1" using inv q s Ac_request h unfolding endpoint_inv_def by (auto split: sum.splits)
    then show ?thesis using that [of now] Cons.prems(1) Ac_request by simp
  next
    case (Ac_begin k now)
    have inv: "endpoint_inv now notes st" "0 < now" using Cons.prems(1-3) Ac_begin endpoint_inv_later by simp_all
    have "extra = []" "enqueue_begin reg configured k now st = (answer, st1)" using s Ac_begin by (auto split: prod.splits)
    then show ?thesis using that [of now] begin_step_inv [OF inv(1) _ inv(2)] Cons.prems(1) Ac_begin by simp
  next
    case (Ac_end k sent)
    show ?thesis
    proof (cases "as_work st k")
      case None
      then show ?thesis using that [of t] s Ac_end Cons.prems(1,3) by simp
    next
      case (Some job)
      obtain u now route where j: "job = (u, now, route)" by (metis prod_cases3)
      obtain a s1 where d: "deliver_end reg (fst k) u now route sent (as_reg st) = (a, s1)" by fastforce
      have inv: "row_inv t notes (as_reg st)" "work_inv t notes (as_work st)" "pushes_spaced notes"
        using Cons.prems(3) by (simp_all add: endpoint_inv_def)
      note e = end_inv [OF inv(1,2) Some [unfolded j] d]
      have "extra = (if sent = Apns_accepted then [Pushed k (delivery_id u) (is_end u) now] else [])"
        "st1 = st\<lparr>as_reg := s1, as_work := (as_work st)(k := None)\<rparr>" using s Ac_end Some j d by auto
      then have "endpoint_inv t (notes @ extra) st1" using e inv(3) by (auto simp: endpoint_inv_def pushes_spaced_append)
      then show ?thesis using that [of t] Cons.prems(1) Ac_end by simp
    qed
  qed
  have "0 < t1" using t1(1) Cons.prems(2) by simp
  from Cons.IH [OF t1(2) this t1(3) r(1)] show ?case using r(2) by simp
qed auto

text \<open>In every run, accepted updates of an activity are spaced and differ, and rooms stay within the limit.\<close>

lemma run_spaced:
  assumes "sorted (event_times evs)" "\<forall>t \<in> set (event_times evs). 0 < t" "ok s"
    and "activity_run reg configured evs \<lparr>as_reg = s, as_queue = [], as_work = Map.empty\<rparr> = (answers, notes, st)"
  shows "pushes_spaced notes" "card {i. view now (as_reg st) (room, i) \<noteq> None} \<le> ACTIVITY_LIMIT"
proof -
  define t where "t = (case event_times evs of [] \<Rightarrow> 1 | x # _ \<Rightarrow> x)"
  have t: "sorted (t # event_times evs)" "0 < t" using assms(1,2) by (auto simp: t_def split: list.splits)
  have "endpoint_inv t [] \<lparr>as_reg = s, as_queue = [], as_work = Map.empty\<rparr>"
    using assms(3) by (simp add: endpoint_inv_def row_inv_def work_inv_def pushes_spaced_def)
  from run_inv [OF t this assms(4)] obtain t' where "endpoint_inv t' notes st" by auto
  then show "pushes_spaced notes" "card {i. view now (as_reg st) (room, i) \<noteq> None} \<le> ACTIVITY_LIMIT"
    using view_bounded by (auto simp: endpoint_inv_def row_inv_def)
qed

end

section \<open>Two registries\<close>

text \<open>Equal answers, up to the order of the subscriptions, and up to whether an activity whose token Apple
  refused was still there to be closed: the Node store may have purged it meanwhile, when it expired.\<close>

definition same_answer :: "response option \<Rightarrow> response option \<Rightarrow> bool" where
  "same_answer a b \<longleftrightarrow> a = b \<or> (\<exists>xs ys. mset xs = mset ys
     \<and> a = Some (json (JObj [(''ok'', JBool True), (''subscriptions'', JArr xs)]) 200)
     \<and> b = Some (json (JObj [(''ok'', JBool True), (''subscriptions'', JArr ys)]) 200))
     \<or> (\<exists>x y. a = Some (json (accepted_body False [(''closed'', JBool x)]) 200)
           \<and> b = Some (json (accepted_body False [(''closed'', JBool y)]) 200))"

locale activity_registries =
  one: activity_registry reg ok view + two: activity_registry reg' ok' view'
  for reg :: "'s registry" and ok view and reg' :: "'t registry" and ok' view'
begin

definition same :: "time \<Rightarrow> 's \<Rightarrow> 't \<Rightarrow> bool" where
  "same t s s' \<longleftrightarrow> ok s \<and> ok' s' \<and> view t s = view' t s'"

lemma registries_later: "same t s s' \<Longrightarrow> t \<le> t' \<Longrightarrow> same t' s s'"
  unfolding same_def using one.view_later [of t t' s] two.view_later [of t t' s'] by (auto simp: fun_eq_iff)

lemma same_get:
  assumes "same t s s'" "rg_get reg room i now s = (a, s1)" "rg_get reg' room i now s' = (b, s1')" "now \<le> t"
  shows "same t s1 s1'" "now = t \<Longrightarrow> a = b"
  using assms one.get_law [OF _ assms(2)] two.get_law [OF _ assms(3)] by (auto simp: same_def)

lemma same_remove: "same t s s' \<Longrightarrow> now \<le> t \<Longrightarrow> same t (rg_remove reg room i now s) (rg_remove reg' room i now s')"
  using one.remove_law [of s room i now] two.remove_law [of s' room i now] by (auto simp: same_def)

lemma same_delivered: "same t s s' \<Longrightarrow> now \<le> t \<Longrightarrow> same t (rg_delivered reg room i d now s) (rg_delivered reg' room i d now s')"
  using one.delivered_law [of s room i d now] two.delivered_law [of s' room i d now] by (auto simp: same_def)

lemma same_register:
  assumes "same now s s'" "validActivityRegistration v now" "rg_register reg room v now s = (b, s1)" "rg_register reg' room v now s' = (b', s1')"
  shows "b = b'" "same now s1 s1'"
proof -
  have ok: "ok s" "ok' s'" "view now s = view' now s'" using assms(1) by (simp_all add: same_def)
  note laws = one.register_law [OF ok(1) assms(2,3)] two.register_law [OF ok(2) assms(2,4)]
  show b: "b = b'" using laws ok(3) by simp
  have "view now s1 k = view' now s1' k" for k using laws ok(3) b by (metis order_refl)
  then show "same now s1 s1'" using laws unfolding same_def by blast
qed

lemma same_listed:
  assumes "same now s s'" "rg_list reg room now s = (xs, s1)" "rg_list reg' room now s' = (ys, s1')"
  shows "mset xs = mset ys" "same now s1 s1'"
  using assms one.list_law [OF _ assms(2)] two.list_law [OF _ assms(3)] by (auto simp: same_def)

lemma same_registration:
  assumes "same now s s'" "activity_registration reg configured method room body now s = (r, s1)"
    "activity_registration reg' configured method room body now s' = (r', s1')"
  shows "r = r' \<and> same now s1 s1'"
proof (cases "method \<noteq> ''DELETE'' \<and> validActivityRegistration body now")
  case True
  obtain b t b' t' where p: "rg_register reg room body now s = (b, t)" "rg_register reg' room body now s' = (b', t')" by fastforce
  show ?thesis using True p assms(2,3) same_register [OF assms(1) _ p] by (simp add: activity_registration_def)
next
  case False
  then show ?thesis using assms same_remove [OF assms(1)] by (auto simp: activity_registration_def split: if_splits)
qed

lemma same_handle:
  assumes "same now s s'" "activity_handle reg configured path method room authorized body now s = (r, s1)"
    "activity_handle reg' configured path method room authorized body now s' = (r', s1')"
  shows "same now s1 s1'" "case (r, r') of (Inl a, Inl b) \<Rightarrow> same_answer (Some a) (Some b) \<and> resp_status a = resp_status b
    | (Inr u, Inr u') \<Rightarrow> u = u' | _ \<Rightarrow> False"
proof -
  obtain xs t ys t' where l: "rg_list reg (the room) now s = (xs, t)" "rg_list reg' (the room) now s' = (ys, t')" by fastforce
  obtain a u b u' where g: "activity_registration reg configured method (the room) (the body) now s = (a, u)"
    "activity_registration reg' configured method (the room) (the body) now s' = (b, u')" by fastforce
  have facts: "mset xs = mset ys" "same now t t'" "a = b" "same now u u'"
    using same_listed [OF assms(1) l] same_registration [OF assms(1) g] by auto
  show "same now s1 s1'"
    using assms l g facts(2,4) by (cases body) (auto simp: activity_handle_def Let_def split: if_splits)
  show "case (r, r') of (Inl a, Inl b) \<Rightarrow> same_answer (Some a) (Some b) \<and> resp_status a = resp_status b
    | (Inr u, Inr u') \<Rightarrow> u = u' | _ \<Rightarrow> False"
    using assms(2,3) l g facts(1,3) by (cases body) (auto simp: activity_handle_def Let_def same_answer_def json_def split: if_splits)
qed

lemma same_begin:
  assumes "same now s s'" "deliver_begin reg configured room u now s = (r, s1)" "deliver_begin reg' configured room u now s' = (r', s1')"
  shows "r = r' \<and> same now s1 s1'"
proof -
  obtain a t b t' where g: "rg_get reg room (update_id u) now s = (a, t)" "rg_get reg' room (update_id u) now s' = (b, t')" by fastforce
  show ?thesis using assms(2,3) g same_get [OF assms(1) g] by (auto simp: deliver_begin_def split: option.splits)
qed

lemma same_end:
  assumes same: "same t s s'" "now \<le> t"
    and d: "deliver_end reg room u now route sent s = (r, s1)" "deliver_end reg' room u now route sent s' = (r', s1')"
  shows "same_answer (Some r) (Some r')" "same t s1 s1'"
proof -
  have "same_answer (Some r) (Some r') \<and> same t s1 s1'"
  proof (cases sent)
    case Apns_accepted
    then show ?thesis using d same_delivered [OF same, of room "update_id u" "delivery_id u"] same_remove same(2)
      by (auto simp: deliver_end_def Let_def same_answer_def split: if_splits)
  next
    case Apns_stale
    let ?k = "(room, update_id u)"
    obtain a x b y where g: "rg_get reg room (update_id u) now s = (a, x)" "rg_get reg' room (update_id u) now s' = (b, y)" by fastforce
    define closed closed' where "closed = (case a of None \<Rightarrow> False | Some c \<Rightarrow> ac_token c = ac_token route)"
      and "closed' = (case b of None \<Rightarrow> False | Some c \<Rightarrow> ac_token c = ac_token route)"
    have s1: "r = json (accepted_body False [(''closed'', JBool closed)]) 200" "s1 = (if closed then rg_remove reg room (update_id u) now x else x)"
      "r' = json (accepted_body False [(''closed'', JBool closed')]) 200" "s1' = (if closed' then rg_remove reg' room (update_id u) now y else y)"
      using d g Apns_stale unfolding closed_def closed'_def by (auto simp: deliver_end_def Let_def)
    have xy: "same t x y" using same_get(1) [OF same(1) g same(2)] .
    have laws: "view t x = view t s" "view' t y = view' t s'" "a = view now s ?k" "b = view' now s' ?k"
      using one.get_law [OF _ g(1)] two.get_law [OF _ g(2)] same by (auto simp: same_def)
    have gone: "view t s ?k = None" "view' t s' ?k = None" if "a \<noteq> b"
      using that same one.view_later [OF same(2), of s ?k] two.view_later [OF same(2), of s' ?k] laws(3,4)
      by (auto simp: same_def live_activity_def split: option.splits if_splits)
    have "same t s1 s1'"
    proof (cases "closed = closed'")
      case True
      then show ?thesis using s1(2,4) xy same_remove [OF xy same(2)] by simp
    next
      case False
      then have "a \<noteq> b" unfolding closed_def closed'_def by auto
      note n = gone [OF this]
      have "view t s1 = view t s" "ok s1" "view' t s1' = view' t s'" "ok' s1'"
        using s1(2,4) xy laws(1,2) n one.remove_law [of x room "update_id u" now] two.remove_law [of y room "update_id u" now] same(2)
        by (auto simp: same_def fun_upd_idem split: if_splits)
      then show ?thesis using same(1) by (simp add: same_def)
    qed
    then show ?thesis using s1(1,3) by (auto simp: same_answer_def)
  qed (use d same(1) in \<open>auto simp: deliver_end_def same_answer_def\<close>)
  then show "same_answer (Some r) (Some r')" "same t s1 s1'" by simp_all
qed

definition work_before :: "time \<Rightarrow> (activity_key \<rightharpoonup> js \<times> time \<times> activity) \<Rightarrow> bool" where
  "work_before t w \<longleftrightarrow> (\<forall>job \<in> ran w. fst (snd job) \<le> t)"

lemma work_before:
  "work_before t w \<Longrightarrow> now \<le> t \<Longrightarrow> work_before t (w(k \<mapsto> (u, now, r)))" "work_before t w \<Longrightarrow> work_before t (w(k := None))"
  "work_before t w \<Longrightarrow> w k = Some (u, now, r) \<Longrightarrow> now \<le> t" "work_before t w \<Longrightarrow> t \<le> t' \<Longrightarrow> work_before t' w"
proof -
  have "ran (w(k \<mapsto> x)) \<subseteq> insert x (ran w)" for x by (auto simp: ran_def)
  then show "work_before t w \<Longrightarrow> now \<le> t \<Longrightarrow> work_before t (w(k \<mapsto> (u, now, r)))" unfolding work_before_def by fastforce
  have "ran (w(k := None)) \<subseteq> ran w" by (auto simp: ran_def)
  then show "work_before t w \<Longrightarrow> work_before t (w(k := None))" unfolding work_before_def by blast
  show "work_before t w \<Longrightarrow> w k = Some (u, now, r) \<Longrightarrow> now \<le> t" unfolding work_before_def using ranI [of w k "(u, now, r)"] by fastforce
  show "work_before t w \<Longrightarrow> t \<le> t' \<Longrightarrow> work_before t' w" unfolding work_before_def using order_trans by blast
qed

definition same_state :: "time \<Rightarrow> 's activity_state \<Rightarrow> 't activity_state \<Rightarrow> bool" where
  "same_state t st st' \<longleftrightarrow> same t (as_reg st) (as_reg st') \<and> as_queue st = as_queue st' \<and> as_work st = as_work st'
     \<and> work_before t (as_work st)"

lemma same_state_later: "same_state t st st' \<Longrightarrow> t \<le> t' \<Longrightarrow> same_state t' st st'"
  unfolding same_state_def using registries_later work_before(4) by blast

lemma same_request_step:
  assumes "same_state now st st'"
    and "activity_step reg configured (Ac_request path method room authorized body now) st = (a, n, st1)"
    and "activity_step reg' configured (Ac_request path method room authorized body now) st' = (b, n', st1')"
  shows "same_answer a b \<and> n = n' \<and> same_state now st1 st1'"
proof -
  have s: "same now (as_reg st) (as_reg st')" using assms(1) by (simp add: same_state_def)
  obtain r s1 r' s1' where h: "activity_handle reg configured path method room authorized body now (as_reg st) = (r, s1)"
    "activity_handle reg' configured path method room authorized body now (as_reg st') = (r', s1')" by fastforce
  note sh = same_handle [OF s h]
  obtain x y x' y' where g: "rg_get reg (the room) (str_of (field ''activityId'' (the body))) now (as_reg st) = (x, y)"
    "rg_get reg' (the room) (str_of (field ''activityId'' (the body))) now (as_reg st') = (x', y')" by fastforce
  have "enrolled_note reg path method room body now (as_reg st) c = enrolled_note reg' path method room body now (as_reg st') c" for c
    using same_get(2) [OF s g] g by (simp add: enrolled_note_def)
  then show ?thesis using assms h sh
    by (cases r; cases r') (auto simp: same_state_def same_answer_def)
qed

lemma same_begin_step:
  assumes "same_state now st st'" "enqueue_begin reg configured k now st = (a, st1)" "enqueue_begin reg' configured k now st' = (b, st1')"
  shows "a = b \<and> same_state now st1 st1'"
proof (cases "find_index (\<lambda>(room, update). (room, update_id update) = k) (as_queue st)")
  case (Some n)
  let ?u = "snd (as_queue st ! n)"
  obtain r s1 r' s1' where d: "deliver_begin reg configured (fst k) ?u now (as_reg st) = (r, s1)"
    "deliver_begin reg' configured (fst k) ?u now (as_reg st') = (r', s1')" by fastforce
  have sb: "r = r'" "same now s1 s1'" using same_begin [OF _ d] assms(1) by (auto simp: same_state_def)
  have e: "as_queue st' = as_queue st" "as_work st' = as_work st" using assms(1) by (simp_all add: same_state_def)
  show ?thesis
  proof (cases "as_work st k")
    case None
    then show ?thesis using assms Some d sb e
      by (cases r) (auto simp: enqueue_begin_def same_state_def Let_def work_before(1))
  next
    case w: (Some w)
    then show ?thesis using assms Some e by (simp add: enqueue_begin_def)
  qed
qed (use assms in \<open>auto simp: enqueue_begin_def same_state_def\<close>)

lemma same_end_step:
  assumes "same_state t st st'" "activity_step reg configured (Ac_end k sent) st = (a, n, st1)" "activity_step reg' configured (Ac_end k sent) st' = (b, n', st1')"
  shows "same_answer a b \<and> n = n' \<and> same_state t st1 st1'"
proof (cases "as_work st k")
  case None
  then show ?thesis using assms by (auto simp: same_state_def same_answer_def)
next
  case (Some w)
  obtain u now route where w: "w = (u, now, route)" by (metis prod_cases3)
  obtain r s1 r' s1' where d: "deliver_end reg (fst k) u now route sent (as_reg st) = (r, s1)"
    "deliver_end reg' (fst k) u now route sent (as_reg st') = (r', s1')" by fastforce
  have "same t (as_reg st) (as_reg st')" "now \<le> t" "as_work st' k = Some w"
    using assms(1) Some w work_before(3) [of t "as_work st" k u now route] unfolding same_state_def by auto
  note se = same_end [OF this(1,2) d] this(3)
  show ?thesis using assms Some w d se work_before(2) [of t "as_work st" k] by (auto simp: same_state_def)
qed

lemma same_run:
  "sorted (t # event_times evs) \<Longrightarrow> same_state t st st' \<Longrightarrow> activity_run reg configured evs st = (as, n, st1) \<Longrightarrow>
     activity_run reg' configured evs st' = (bs, n', st1') \<Longrightarrow> list_all2 same_answer as bs \<and> n = n' \<and> (\<exists>t'\<ge>t. same_state t' st1 st1')"
proof (induction evs arbitrary: t st st' as n bs n')
  case (Cons ev evs)
  obtain a e st2 where s1: "activity_step reg configured ev st = (a, e, st2)" by (metis prod_cases3)
  obtain b e' st2' where s2: "activity_step reg' configured ev st' = (b, e', st2')" by (metis prod_cases3)
  note s = s1 s2
  obtain as2 n2 bs2 n2' where r: "activity_run reg configured evs st2 = (as2, n2, st1)" "activity_run reg' configured evs st2' = (bs2, n2', st1')"
    "as = a # as2" "n = e @ n2" "bs = b # bs2" "n' = e' @ n2'" using Cons.prems(3,4) s by (auto split: prod.splits)
  obtain t2 where t2: "t \<le> t2" "sorted (t2 # event_times evs)" "same_answer a b \<and> e = e' \<and> same_state t2 st2 st2'"
  proof (cases ev)
    case (Ac_request path verb room authorized body now)
    then have "same_state now st st'" using Cons.prems(1,2) same_state_later by simp
    from same_request_step [OF this s [unfolded Ac_request]] show ?thesis using that [of now] Ac_request Cons.prems(1) by simp
  next
    case (Ac_begin k now)
    obtain x y x' y' where b: "enqueue_begin reg configured k now st = (x, y)" "enqueue_begin reg' configured k now st' = (x', y')" by fastforce
    have "same_state now st st'" using Cons.prems(1,2) same_state_later Ac_begin by simp
    from same_begin_step [OF this b] show ?thesis using that [of now] s b Ac_begin Cons.prems(1) by (simp add: same_answer_def)
  next
    case (Ac_end k sent)
    from same_end_step [OF Cons.prems(2) s [unfolded Ac_end]] show ?thesis using that [of t] Cons.prems(1) Ac_end by simp
  qed
  then show ?case using Cons.IH [OF t2(2) _ r(1,2)] r(3-6) by (metis list_all2_Cons order_trans)
qed auto

end

interpretation activity_runtimes: activity_registries SqliteTaskActivities table_ok table_view "WorkerTaskActivities collate" storage_ok storage_view
  by unfold_locales

section \<open>The size of a push\<close>

lemma to_decimal_length: "0 < k \<Longrightarrow> n < 10 ^ k \<Longrightarrow> length (to_decimal n) \<le> k"
proof (induction n arbitrary: k rule: to_decimal.induct)
  case (1 n)
  show ?case
  proof (cases "n < 10")
    case True
    then show ?thesis using 1(2) by (simp add: to_decimal.simps)
  next
    case False
    then obtain j where j: "k = Suc j" "0 < j" using 1(2,3) by (cases k; cases "k - 1") auto
    then have "n div 10 < 10 ^ j" using 1(3) by (simp add: less_mult_imp_div_less mult.commute)
    then show ?thesis using 1(1) [OF False j(2)] j False by (simp add: to_decimal.simps [of n])
  qed
qed

lemma plain_int_length: "\<bar>i\<bar> < 10 ^ 16 \<Longrightarrow> length (plain_json (JInt i)) \<le> 17"
  using to_decimal_length [of 16 "nat \<bar>i\<bar>"] by (auto simp: nat_less_iff)

lemma base64_string:
  assumes "validBase64 v lo hi"
  obtains s where "v = JStr s" "length s \<le> hi"
  using assms validBase64_canonical_iff [of _ lo hi] by (cases v) auto

lemma content_length:
  assumes "exact_fields c [''nonce'', ''box'']" "validBase64 (field ''nonce'' c) 32 32" "validBase64 (field ''box'' c) 24 3072"
  shows "length (plain_json c) \<le> 3200"
proof -
  from assms(2) obtain n where n: "field ''nonce'' c = JStr n" "length n \<le> 32" by (rule base64_string)
  from assms(3) obtain b where b: "field ''box'' c = JStr b" "length b \<le> 3072" by (rule base64_string)
  obtain kvs where c: "c = JObj kvs" "length kvs = 2" "\<forall>k \<in> fst ` set kvs. k = ''nonce'' \<or> k = ''box''"
    using assms(1) by (cases c) (auto simp: exact_fields_def list_all_iff)
  then obtain k1 v1 k2 v2 where "kvs = [(k1, v1), (k2, v2)]" by (auto simp: length_Suc_conv numeral_2_eq_2)
  then show ?thesis using c n b by (auto split: if_splits)
qed

lemma payload_length:
  assumes "validActivityUpdate u now" "0 \<le> now" "now \<le> max_safe_integer"
  shows "byteLength (plain_json (activity_payload u now)) \<le> 4096"
proof -
  let ?c = "field ''contentState'' u" and ?s = "now div 1000"
  have c: "length (plain_json ?c) \<le> 3200" using assms(1) content_length unfolding validActivityUpdate_def Let_def by blast
  have s: "0 \<le> ?s" "?s \<le> 9007199254740" using assms(2,3) zdiv_mono1 [of now 9007199254740991 1000] by (simp_all add: max_safe_integer_def)
  obtain d where d: "field ''staleDate'' u = JInt d" "?s - 300 \<le> d" "d \<le> ?s + 120"
    using assms(1) by (cases "field ''staleDate'' u") (auto simp: validActivityUpdate_def Let_def)
  have "length (plain_json (JInt ?s)) \<le> 17" "length (plain_json (JInt d)) \<le> 17" "length (plain_json (JInt (?s - 1))) \<le> 17"
    using s d by (intro plain_int_length; simp)+
  moreover have "field ''event'' u = JStr ''update'' \<or> field ''event'' u = JStr ''end''" using assms(1) by (auto simp: validActivityUpdate_def Let_def)
  ultimately show ?thesis using c d(1) by (auto simp: activity_payload_def Let_def byteLength_def simp del: plain_json.simps(1))
qed

lemma lower_token: "activity_token (JStr t) \<Longrightarrow> activity_token (JStr (map to_lower t))"
proof -
  have "hex_char c \<or> char_between CHR ''A'' CHR ''F'' c \<Longrightarrow> hex_char (to_lower c)" for c
    by (auto simp: hex_char_def char_between_def to_lower_def)
  then show "activity_token (JStr t) \<Longrightarrow> activity_token (JStr (map to_lower t))"
    by (auto simp: activity_token_def class_repeat_def list_all_iff)
qed

section \<open>Properties\<close>

abbreviation idle_endpoint :: "'s \<Rightarrow> 's activity_state" where
  "idle_endpoint s \<equiv> \<lparr>as_reg = s, as_queue = [], as_work = Map.empty\<rparr>"


text \<open>C35: The activity endpoint behaves alike over the table of the Node relay and the storage of the Durable Object. For
  the same events both give the same answers, but for the order in which subscriptions are listed
  and whether an activity that expired during a refused push was still there to close; they push the
  same updates, and hold the same live activities afterwards.\<close>

theorem activity_runtimes_agree:
  assumes "sorted (event_times evs)"
    and "activity_run SqliteTaskActivities configured evs (idle_endpoint []) = (as, n, st)"
    and "activity_run (WorkerTaskActivities collate) configured evs (idle_endpoint Map.empty) = (bs, n', st')"
  shows "list_all2 same_answer as bs \<and> n = n' \<and> as_queue st = as_queue st' \<and> as_work st = as_work st'
    \<and> (\<exists>t. \<forall>now\<ge>t. table_view now (as_reg st) = storage_view now (as_reg st'))"
proof -
  define t where "t = (case event_times evs of [] \<Rightarrow> 0 | x # _ \<Rightarrow> x)"
  have t: "sorted (t # event_times evs)" using assms(1) by (auto simp: t_def split: list.splits)
  have "activity_runtimes.same_state t (idle_endpoint []) (idle_endpoint Map.empty)"
    by (simp add: activity_runtimes.same_state_def activity_runtimes.same_def activity_runtimes.work_before_def table_ok_def storage_ok_def
        rows_ok_def room_activities_def table_view_def storage_view_def with_id_def fun_eq_iff)
  note r = activity_runtimes.same_run [OF t this assms(2,3)]
  then obtain t' where s: "activity_runtimes.same_state t' st st'" by blast
  have "table_view now (as_reg st) = storage_view now (as_reg st')" if "t' \<le> now" for now
    using activity_runtimes.same_state_later [OF s that] by (simp add: activity_runtimes.same_state_def activity_runtimes.same_def)
  then show ?thesis using r s unfolding activity_runtimes.same_state_def by blast
qed

text \<open>A valid update always fits into a push: for an activity that was registered and a configured environment
  the request reaches Apple and its answer alone decides, neither the checks of the sender nor the
  limit of 4096 bytes refuse it.\<close>

theorem activity_push_sent:
  assumes "validActivityRegistration v registered" "validActivityUpdate u now" "0 \<le> now" "now \<le> max_safe_integer"
    and "apnsConfigured env (Some (str_of (field ''environment'' v)))"
  shows "byteLength (plain_json (activity_payload u now)) \<le> 4096
    \<and> sendTaskActivityAPNs env apple (privateRecord v existing) u now
      = (case apple (privateRecord v existing) (plain_json (activity_payload u now)) of
           None \<Rightarrow> Apns_failed
         | Some (status, reason) \<Rightarrow>
             if 200 \<le> status \<and> status \<le> 299 then Apns_accepted
             else if status = 410 \<or> reason \<in> {''BadDeviceToken'', ''Unregistered''} then Apns_stale else Apns_rejected)"
proof -
  note size = payload_length [OF assms(2-4)]
  obtain t where t: "field ''token'' v = JStr t" "activity_token (JStr t)"
    using assms(1) by (cases "field ''token'' v") (auto simp: validActivityRegistration_def activity_token_def)
  have "ac_bundleId (privateRecord v existing) = ACTIVITY_BUNDLE_ID" "ac_environment (privateRecord v existing) \<in> {''sandbox'', ''production''}"
    "activity_token (JStr (ac_token (privateRecord v existing)))" "ac_environment (privateRecord v existing) = str_of (field ''environment'' v)"
    using assms(1) t lower_token [OF t(2)] by (auto simp: validActivityRegistration_def privateRecord_def)
  then show ?thesis using size assms(2,5) unfolding sendTaskActivityAPNs_def Let_def by simp
qed

section \<open>Witnesses\<close>

definition sample_enrollment :: js where
  "sample_enrollment = JObj [(''activityId'', JStr ''a1''), (''token'', JStr (replicate 32 CHR ''F'')), (''environment'', JStr ''sandbox''),
     (''bundleId'', JStr ACTIVITY_BUNDLE_ID), (''expiresAt'', JInt 3600000), (''nonce'', JStr (replicate 32 CHR ''A'')), (''box'', JStr (replicate 24 CHR ''A''))]"

definition sample_update :: "string \<Rightarrow> js" where
  "sample_update i = JObj [(''activityId'', JStr ''a1''), (''deliveryId'', JStr i), (''event'', JStr ''update''), (''staleDate'', JInt 60),
     (''contentState'', JObj [(''nonce'', JStr (replicate 32 CHR ''A'')), (''box'', JStr (replicate 24 CHR ''A''))])]"

definition sample_events :: "activity_event list" where
  "sample_events = (let room = ''00112233445566aa''; send = (\<lambda>i. Ac_request ''/push/activity/update'' ''POST'' (Some room) True (Some (sample_update i))) in
     [Ac_request ''/push/activity/register'' ''PUT'' (Some room) True (Some sample_enrollment) 1000,
      send ''d1'' 1000, Ac_begin (room, ''a1'') 1000, send ''d2'' 1500, Ac_begin (room, ''a1'') 1500, Ac_end (room, ''a1'') Apns_accepted,
      Ac_begin (room, ''a1'') 2000, send ''d3'' 11000, Ac_begin (room, ''a1'') 11000, Ac_end (room, ''a1'') Apns_accepted])"

lemma sample_base64: "validBase64 (JStr (replicate 32 CHR ''A'')) 32 32" "validBase64 (JStr (replicate 24 CHR ''A'')) 24 2048"
  "validBase64 (JStr (replicate 24 CHR ''A'')) 24 3072"
  by code_simp+

lemmas sample_checks = validActivityId_def activity_token_def exact_fields_def class_repeat_def hex_char_def alnum_char_def char_between_def
  max_safe_integer_def

lemma sample_enrollment_valid: "validActivityRegistration sample_enrollment 1000"
  using sample_base64 by (simp add: validActivityRegistration_def sample_enrollment_def sample_checks ACTIVITY_TTL_MS_def del: validBase64.simps)

lemma sample_update_valid: "i \<in> {''d1'', ''d2'', ''d3''} \<Longrightarrow> 0 \<le> now \<Longrightarrow> now \<le> 100000 \<Longrightarrow> validActivityUpdate (sample_update i) now"
proof -
  assume i: "i \<in> {''d1'', ''d2'', ''d3''}" and now: "0 \<le> now" "now \<le> 100000"
  have "now div 1000 \<le> 100" "0 \<le> now div 1000" using zdiv_mono1 [of now 100000 1000] now by simp_all
  then show ?thesis using i sample_base64
    by (auto simp: validActivityUpdate_def sample_update_def Let_def sample_checks simp del: validBase64.simps)
qed

lemmas sample_run = sample_events_def Let_def activity_handle_def activity_paths_def activity_registration_def enrolled_note_def
  enqueue_begin_def deliver_begin_def deliver_end_def sample_enrollment_valid sample_update_valid json_def class_repeat_def hex_char_def char_between_def

lemma sample_fields: "update_id (sample_update i) = ''a1''" "delivery_id (sample_update i) = i" "\<not> is_end (sample_update i)"
  "str_of (field ''activityId'' sample_enrollment) = ''a1''" "str_of (field ''environment'' sample_enrollment) = ''sandbox''"
  "str_of (field ''environment'' sample_enrollment) = ''sandbox''" "ac_expiresAt (privateRecord sample_enrollment e) = 3600000"
  "ac_environment (privateRecord sample_enrollment e) = ''sandbox''" "ac_lastId (privateRecord sample_enrollment None) = None"
  "ac_lastAt (privateRecord sample_enrollment None) = 0"
  by (simp_all add: update_id_def delivery_id_def is_end_def sample_update_def sample_enrollment_def privateRecord_def)

lemmas sample_registry = SqliteTaskActivities_def activities_register_def activities_get_def activities_purge_def activities_delivered_def
  ACTIVITY_LIMIT_def jm_get_def remove_at_def

lemma sample_result:
  "fst (snd (activity_run SqliteTaskActivities (\<lambda>_. True) sample_events (idle_endpoint [])))
     = [Enrolled (''00112233445566aa'', ''a1''), Pushed (''00112233445566aa'', ''a1'') ''d1'' False 1000, Pushed (''00112233445566aa'', ''a1'') ''d3'' False 11000]"
  "map (map_option resp_status) (fst (activity_run SqliteTaskActivities (\<lambda>_. True) sample_events (idle_endpoint [])))
     = [Some 200, None, None, None, None, Some 200, Some 202, None, None, Some 200]"
  by (simp_all add: sample_run sample_fields sample_registry del: field.simps)


theorem activity_runtimes_agree_witness:
  "list_all2 same_answer (fst (activity_run SqliteTaskActivities (\<lambda>_. True) sample_events (idle_endpoint [])))
     (fst (activity_run (WorkerTaskActivities (map of_char)) (\<lambda>_. True) sample_events (idle_endpoint Map.empty)))
   \<and> map (map_option resp_status) (fst (activity_run SqliteTaskActivities (\<lambda>_. True) sample_events (idle_endpoint [])))
     = [Some 200, None, None, None, None, Some 200, Some 202, None, None, Some 200]"
proof -
  have h: "sorted (event_times sample_events)" by (simp add: sample_events_def Let_def)
  show ?thesis using sample_result(2) activity_runtimes_agree [OF h, of "\<lambda>_. True" _ _ _ "map of_char"] by (metis prod.collapse)
qed

theorem activity_push_sent_witness:
  "sendTaskActivityAPNs [''APNS_TEAM_ID'' \<mapsto> ''T'', ''APNS_KEY_ID'' \<mapsto> ''K'', ''APNS_PRIVATE_KEY'' \<mapsto> ''P'']
     (\<lambda>_ body. if length body \<le> 4096 then Some (410, []) else None) (privateRecord sample_enrollment None) (sample_update ''d1'') 5000 = Apns_stale"
proof -
  let ?env = "[''APNS_TEAM_ID'' \<mapsto> ''T'', ''APNS_KEY_ID'' \<mapsto> ''K'', ''APNS_PRIVATE_KEY'' \<mapsto> ''P'']"
  have "validActivityUpdate (sample_update ''d1'') 5000" "apnsConfigured ?env (Some (str_of (field ''environment'' sample_enrollment)))"
    unfolding sample_fields(5) by (simp_all add: sample_update_valid apnsConfigured_def apns_ready_def apnsEnvironment_def configured_value_def)
  from activity_push_sent [OF sample_enrollment_valid this(1) _ _ this(2), of "\<lambda>_ body. if length body \<le> 4096 then Some (410, []) else None" None]
  show ?thesis by (simp add: byteLength_def max_safe_integer_def)
qed

end
