(* ===== verification/Task_Records.thy ===== *)
theory Task_Records
  imports Task_Policy "HOL-Library.List_Lexorder" "HOL-Library.Char_ord"
begin

text \<open>
  The paged listing of the task records of a Durable Object
  (\<open>src/taskDispatch/worker-records.js\<close>). Shows: the loop ends whatever the storage answers, and on a
  storage that lists its keys in order it gives exactly the records, or the error of a history above
  its bounds.

  \<open>page a\<close> stands for \<open>storage.list({ prefix, startAfter: a, limit: 1000 })\<close>. Keys are ASCII, so that they
  compare like their characters.
\<close>

definition PAGE_LIMIT :: nat where "PAGE_LIMIT = 1000"

definition RECORD_LIMIT :: nat where "RECORD_LIMIT = ROOM_RECEIPT_LIMIT + ROOM_JOB_LIMIT"

datatype records_error = History_exceeds_bounds | Cursor_did_not_advance

text \<open>The loop; \<open>None\<close> is a loop that does not end.\<close>

partial_function (option) list_records_loop ::
  "(string option \<Rightarrow> (string \<times> 'v) list) \<Rightarrow> (string, 'v) jmap \<Rightarrow> string option \<Rightarrow> (records_error + (string, 'v) jmap) option" where
  "list_records_loop page records startAfter =
     (let rows = page startAfter; records1 = fold (\<lambda>(k, v) m. jm_set m k v) rows records
      in if length records1 > RECORD_LIMIT then Some (Inl History_exceeds_bounds)
         else if length rows < PAGE_LIMIT then Some (Inr records1)
         else let last_key = fst (last rows)
           in if rows = [] \<or> last_key = [] \<or> (case startAfter of None \<Rightarrow> False | Some a \<Rightarrow> a \<noteq> [] \<and> last_key \<le> a)
              then Some (Inl Cursor_did_not_advance)
              else list_records_loop page records1 (Some last_key))"

definition listTaskJobRecords :: "(string option \<Rightarrow> (string \<times> 'v) list) \<Rightarrow> (records_error + (string, 'v) jmap) option" where
  "listTaskJobRecords page = list_records_loop page [] None"

section \<open>Pages\<close>

lemma fold_set_keys: "fst ` set (fold (\<lambda>(k, v) m. jm_set m k v) rows records) = fst ` set rows \<union> fst ` set records"
proof (induction rows arbitrary: records)
  case (Cons e rows)
  have "fst ` set (jm_set m k v) = insert k (fst ` set m)" for m :: "('a, 'b) jmap" and k v
    using arg_cong [OF jm_keys_set [of m k v], of set] by (auto split: if_splits)
  then show ?case using Cons by (cases e) auto
qed simp

lemma fold_set_wf: "jm_wf records \<Longrightarrow> jm_wf (fold (\<lambda>(k, v) m. jm_set m k v) rows records)"
  by (induction rows arbitrary: records) auto

text \<open>Every turn adds a key above the last cursor, and at most \<open>RECORD_LIMIT\<close> keys are kept.\<close>

definition passed :: "(string, 'v) jmap \<Rightarrow> string option \<Rightarrow> nat" where
  "passed records startAfter = (case startAfter of None \<Rightarrow> 0 | Some a \<Rightarrow> card {k \<in> fst ` set records. k \<le> a})"

lemma passed_advances:
  assumes "case startAfter of None \<Rightarrow> True | Some a \<Rightarrow> a < b" "fst ` set records \<subseteq> fst ` set records1" "b \<in> fst ` set records1"
  shows "passed records startAfter < passed records1 (Some b)"
proof (cases startAfter)
  case None
  have "0 < card {k \<in> fst ` set records1. k \<le> b}" using assms(3) by (simp add: card_gt_0_iff) blast
  then show ?thesis using None by (simp add: passed_def)
next
  case (Some a)
  have "{k \<in> fst ` set records. k \<le> a} \<subset> {k \<in> fst ` set records1. k \<le> b}"
    using assms Some by (auto simp: not_le [symmetric])
  then show ?thesis using Some by (simp add: passed_def psubset_card_mono)
qed

lemma passed_le: "passed records a \<le> length records"
  using card_mono [of "fst ` set records" "{k \<in> fst ` set records. k \<le> the a}"] card_image_le [of "set records" fst] card_length [of records]
  by (cases a) (auto simp: passed_def)

lemma list_records_ends:
  assumes "length records \<le> RECORD_LIMIT" "startAfter \<noteq> Some []"
  shows "\<exists>r. list_records_loop page records startAfter = Some r"
  using assms
proof (induction "RECORD_LIMIT - passed records startAfter" arbitrary: records startAfter rule: less_induct)
  case less
  define rows where "rows = page startAfter"
  define records1 where "records1 = fold (\<lambda>(k, v) m. jm_set m k v) rows records"
  define b where "b = fst (last rows)"
  note unfold = list_records_loop.simps [of page records startAfter, folded rows_def, unfolded Let_def, folded records1_def b_def]
  show ?case
  proof (cases "length records1 > RECORD_LIMIT \<or> length rows < PAGE_LIMIT
      \<or> rows = [] \<or> b = [] \<or> (case startAfter of None \<Rightarrow> False | Some a \<Rightarrow> a \<noteq> [] \<and> b \<le> a)")
    case True
    then show ?thesis unfolding unfold by auto
  next
    case False
    have keys: "fst ` set records \<subseteq> fst ` set records1" "fst ` set rows \<subseteq> fst ` set records1"
      unfolding records1_def fold_set_keys by auto
    have "b \<in> fst ` set rows" using False by (simp add: b_def)
    then have "passed records startAfter < passed records1 (Some b)"
      using False less.prems(2) keys by (intro passed_advances) (auto split: option.splits)
    moreover have "passed records1 (Some b) \<le> RECORD_LIMIT" using passed_le [of records1 "Some b"] False by simp
    ultimately have "\<exists>r. list_records_loop page records1 (Some b) = Some r" using False by (intro less.hyps) auto
    then show ?thesis unfolding unfold using False by simp
  qed
qed

section \<open>An ordered storage\<close>

text \<open>The rows of a storage with its keys in order, after a key and up to a page.\<close>

definition ordered_page :: "(string \<times> 'v) list \<Rightarrow> string option \<Rightarrow> (string \<times> 'v) list" where
  "ordered_page store startAfter = take PAGE_LIMIT (case startAfter of None \<Rightarrow> store | Some a \<Rightarrow> filter (\<lambda>e. a < fst e) store)"

lemma filter_above:
  fixes store :: "('k :: linorder \<times> 'v) list"
  assumes "sorted_wrt (<) (map fst store)" "n < length store"
  shows "filter (\<lambda>e. fst (store ! n) < fst e) store = drop (Suc n) store"
proof -
  have split: "store = take n store @ store ! n # drop (Suc n) store" using assms(2) by (simp add: id_take_nth_drop)
  have "sorted_wrt (<) (map fst (take n store) @ fst (store ! n) # map fst (drop (Suc n) store))"
    using assms(1) by (subst (asm) split) simp
  then have "\<forall>e \<in> set (take n store). fst e < fst (store ! n)" "\<forall>e \<in> set (drop (Suc n) store). fst (store ! n) < fst e"
    by (auto simp: sorted_wrt_append)
  moreover from this(1) have "\<forall>e \<in> set (take n store). \<not> fst (store ! n) < fst e" by (meson order_less_not_sym)
  ultimately show ?thesis by (subst split) simp
qed

lemma fold_set_append:
  "distinct (map fst (records @ rows)) \<Longrightarrow> fold (\<lambda>(k, v) m. jm_set m k v) rows records = records @ rows"
proof (induction rows arbitrary: records)
  case (Cons e rows)
  have "jm_get records (fst e) = None" using Cons.prems by (auto simp: jm_get_def map_of_eq_None_iff)
  then have "jm_set records (fst e) (snd e) = records @ [e]" by (simp add: jm_set_absent)
  then show ?case using Cons by (simp add: case_prod_unfold)
qed simp

definition cursor :: "(string \<times> 'v) list \<Rightarrow> nat \<Rightarrow> string option" where
  "cursor store n = (if n = 0 then None else Some (fst (store ! (n - 1))))"

lemma ordered_page_cursor:
  assumes "sorted_wrt (<) (map fst store)" "n \<le> length store"
  shows "ordered_page store (cursor store n) = take PAGE_LIMIT (drop n store)"
proof (cases n)
  case (Suc m)
  then show ?thesis using filter_above [OF assms(1), of m] assms(2) by (simp add: ordered_page_def cursor_def)
qed (simp add: ordered_page_def cursor_def)

lemma list_records_ordered:
  assumes store: "sorted_wrt (<) (map fst store)" "\<forall>e \<in> set store. fst e \<noteq> []"
  shows "n \<le> length store \<Longrightarrow> n \<le> RECORD_LIMIT \<Longrightarrow> list_records_loop (ordered_page store) (take n store) (cursor store n)
    = Some (if length store \<le> RECORD_LIMIT then Inr store else Inl History_exceeds_bounds)"
proof (induction "length store - n" arbitrary: n rule: less_induct)
  case less
  define rows where "rows = take PAGE_LIMIT (drop n store)"
  have page: "ordered_page store (cursor store n) = rows" using ordered_page_cursor [OF store(1) less.prems(1)] by (simp add: rows_def)
  have all: "take n store @ rows = take (n + PAGE_LIMIT) store" by (simp add: rows_def take_add)
  have "distinct (map fst (take n store @ rows))"
    unfolding all using store(1) strict_sorted_iff [of "map fst store"] by (simp add: take_map [symmetric] distinct_take)
  then have records1: "fold (\<lambda>(k, v) m. jm_set m k v) rows (take n store) = take (n + PAGE_LIMIT) store"
    using fold_set_append all by metis
  note unfold = list_records_loop.simps [of "ordered_page store" "take n store" "cursor store n", unfolded page Let_def records1]
  show ?case
  proof (cases "n + PAGE_LIMIT \<le> length store \<and> n + PAGE_LIMIT \<le> RECORD_LIMIT")
    case False
    then show ?thesis unfolding unfold using less.prems by (auto simp: rows_def)
  next
    case True
    let ?m = "n + PAGE_LIMIT"
    have rows: "length rows = PAGE_LIMIT" "0 < PAGE_LIMIT" using True by (auto simp: rows_def PAGE_LIMIT_def)
    then have "last rows = store ! (?m - 1)" using True by (subst last_conv_nth) (auto simp: rows_def)
    moreover have "store ! (?m - 1) \<in> set store" "n < ?m" using True rows(2) by auto
    moreover have "fst (store ! (n - 1)) < fst (store ! (?m - 1))" if "n \<noteq> 0"
      using sorted_wrt_nth_less [OF store(1), of "n - 1" "?m - 1"] that True rows(2) by auto
    ultimately have "list_records_loop (ordered_page store) (take n store) (cursor store n)
        = list_records_loop (ordered_page store) (take ?m store) (cursor store ?m)"
      unfolding unfold using True rows store(2) by (auto simp: cursor_def)
    also have "\<dots> = Some (if length store \<le> RECORD_LIMIT then Inr store else Inl History_exceeds_bounds)"
      using True rows(2) by (intro less.hyps) auto
    finally show ?thesis .
  qed
qed

section \<open>Properties\<close>

text \<open>C36: The listing of the task records ends, with the records or an error, whatever pages the storage gives: a page
  that is empty, repeats itself or goes back cannot keep it turning.\<close>

theorem listTaskJobRecords_terminates:
  "\<exists>r. listTaskJobRecords page = Some r"
  unfolding listTaskJobRecords_def by (rule list_records_ends) simp_all

text \<open>On a storage that lists its keys in order, the pages add up to exactly its records, and a
  history of more than the allowed records is refused.\<close>

theorem listTaskJobRecords_complete:
  assumes "sorted_wrt (<) (map fst store)" "\<forall>e \<in> set store. fst e \<noteq> []"
  shows "listTaskJobRecords (ordered_page store) = Some (if length store \<le> RECORD_LIMIT then Inr store else Inl History_exceeds_bounds)"
  using list_records_ordered [OF assms, of 0] by (simp add: listTaskJobRecords_def cursor_def)

end
