(* ===== verification/Relay_Upgrade.thy ===== *)
theory Relay_Upgrade
  imports Room_Session Room_Access
begin

text \<open>
  How a WebSocket comes to be open: the \<open>upgrade\<close> listener of \<open>src/node/server.js\<close>, which asks the quota service
  and goes on when its answer is there, and \<open>acceptWebSocket\<close> of \<open>src/relay/room.js\<close>. Shows: however upgrades,
  answers of the quota service, frames, ticket timers and closes interleave, a room of the Node relay never has
  more than 32 sockets, none of which is in two rooms; and both runtimes open a socket only for a credential
  that owns the room.

  The wait for the quota service splits the listener: \<open>upgrade_begin\<close> runs to the wait, \<open>upgrade_finish\<close> goes on with
  the decision. A request is one whose target parses as a URL; its header names are in lower case. Metrics,
  log lines and the bytes of a refusal are left out.
\<close>

section \<open>The Node relay\<close>

definition MAX_ROOM_SOCKETS :: nat where "MAX_ROOM_SOCKETS = 32"
lemmas [relay_limits] = MAX_ROOM_SOCKETS_def

text \<open>What the listener relies on: \<open>JSON.stringify\<close>, SHA-256, the verifier of tickets of a managed relay, whether there is a quota
  service, and Node's \<open>isIP\<close> with the trusted proxies.\<close>

record upgrade_env =
  ue_stringify :: "js \<Rightarrow> string"
  ue_sha :: "string \<Rightarrow> string"
  ue_cool :: cool_config
  ue_admission :: "(js \<Rightarrow> js \<Rightarrow> time \<Rightarrow> js option) option"
  ue_access :: bool
  ue_isIP :: "string \<Rightarrow> bool"
  ue_trusted :: "string list"

definition header :: "string \<Rightarrow> request \<Rightarrow> string option" where
  "header k request = map_of (r_headers request) k"

definition param :: "string \<Rightarrow> request \<Rightarrow> js" where
  "param k request = (case map_of (r_query request) k of None \<Rightarrow> JNull | Some v \<Rightarrow> JStr v)"

definition upgrade_ticket :: "upgrade_env \<Rightarrow> time \<Rightarrow> request \<Rightarrow> js option" where
  "upgrade_ticket e now request = (case ue_admission e of None \<Rightarrow> None
     | Some verify \<Rightarrow> verify (opt_js (header ''x-granttap-admission'' request)) (param ''room'' request) now)"

text \<open>The identity the quota service is asked about, and whether it is that of a paired device without a ticket.\<close>

definition quota_identity :: "upgrade_env \<Rightarrow> request \<Rightarrow> string option \<Rightarrow> js option \<Rightarrow> client_identity \<times> bool" where
  "quota_identity e request address ticket =
     (clientIdentity (ue_isIP e) (ue_trusted e) address (opt_js (header ''x-real-ip'' request)) ticket, ticket = None)"

text \<open>An upgrade that waits for its decision.\<close>

record upgrade_wait =
  uw_request :: request
  uw_room :: string
  uw_ticket :: "js option"
  uw_asked :: "(client_identity \<times> bool) option"

definition upgrade_begin ::
  "upgrade_env \<Rightarrow> time \<Rightarrow> string option \<Rightarrow> request \<Rightarrow> node_relay \<Rightarrow> (refusal + upgrade_wait) \<times> node_relay" where
  "upgrade_begin e now address request s =
     (let room = str_of (param ''room'' request); ticket = upgrade_ticket e now request;
          credential = bearer (header ''authorization'' request);
          authorized = acceptsWebSocketPath (r_path request) \<and> validRoom (param ''room'' request)
            \<and> authorizeUpgrade (ue_sha e) (nr_rooms s) room credential
      in case upgradeRefusal (ue_stringify e) (ue_sha e) (ue_cool e) authorized (ue_admission e \<noteq> None)
             (header ''x-granttap-admission'' request) ticket (opt_js (header ''x-granttap-recipient-key-id'' request))
             (param ''room'' request) (length (room_sockets room s)) MAX_ROOM_SOCKETS now (nr_coolDowns s) of
         (Some refusal, es) \<Rightarrow> (Inl refusal, s\<lparr>nr_coolDowns := es\<rparr>)
       | (None, es) \<Rightarrow> (Inr \<lparr>uw_request = request, uw_room = room, uw_ticket = ticket,
           uw_asked = (if ue_access e then Some (quota_identity e request address ticket) else None)\<rparr>, s\<lparr>nr_coolDowns := es\<rparr>))"

text \<open>\<open>ws.relayState\<close> of a new socket.\<close>

definition new_session :: "upgrade_env \<Rightarrow> time \<Rightarrow> upgrade_wait \<Rightarrow> relay_socket" where
  "new_session e now w =
     (let request = uw_request w; relayControl = header ''x-granttap-recipient-routing'' request = Some ''1'';
          managed = \<lparr>ms_socket = \<lparr>n_room = uw_room w, n_role = None,
               n_recipientKeyId = header ''x-granttap-recipient-key-id'' request,
               n_identity = managedCooldownIdentity (ue_stringify e) (ue_sha e) (uw_ticket w),
               n_ticketExpiresAt = None, n_open = True, n_policyClose = False\<rparr>,
             ms_commercial = (ue_admission e \<noteq> None), ms_ticket = uw_ticket w, ms_timer = None\<rparr>
      in \<lparr>rs_managed = (case uw_ticket w of None \<Rightarrow> managed | Some ticket \<Rightarrow> armManagedExpiry managed ticket),
          rs_relayControl = relayControl,
          rs_ingressFlow = (relayControl \<and> header ''x-granttap-ingress-flow'' request = Some ''1''),
          rs_ingressReceived = None, rs_window = \<lparr>windowStartedAt = Some now, windowMessages = 0\<rparr>,
          rs_presenceEnabled = (header ''x-granttap-presence'' request = Some ''1''), rs_presenceAt = None\<rparr>)"

definition capabilities :: "bool \<Rightarrow> js" where
  "capabilities ingressFlow = JObj ([(''type'', JStr ''relay.capabilities''), (''recipientRouting'', JBool True), (''taskDispatch'', JBool True),
     (''retainedState'', JBool True), (''retainedStateGroups'', JBool True)] @ ingressCapabilities ingressFlow)"

text \<open>The end of an upgrade: refused or given up, with the lease that is released, or open, with what is sent first.\<close>

datatype upgrade_end =
    Upgrade_refused refusal "string option"
  | Upgrade_gone "string option"
  | Upgrade_open "js list"

definition lease_of :: "decision option \<Rightarrow> string option" where
  "lease_of d = (case d of None \<Rightarrow> None | Some d \<Rightarrow> if dc_leaseId d = Some [] then None else dc_leaseId d)"

definition upgrade_finish ::
  "upgrade_env \<Rightarrow> time \<Rightarrow> decision option \<Rightarrow> bool \<Rightarrow> nat \<Rightarrow> upgrade_wait \<Rightarrow> node_relay \<Rightarrow> upgrade_end \<times> node_relay" where
  "upgrade_finish e now d destroyed ws w s =
     (case (case d of None \<Rightarrow> None | Some d \<Rightarrow> if dc_allowed d then None else Some d) of
        Some denied \<Rightarrow> (Upgrade_refused \<lparr>rf_status = 429, rf_reason = dc_reason denied,
            rf_retryAfter = Some (if dc_retryAfter denied = 0 then 5 else dc_retryAfter denied)\<rparr> None, s)
      | None \<Rightarrow>
          if destroyed then (Upgrade_gone (lease_of d), s)
          else if length (room_sockets (uw_room w) s) \<ge> MAX_ROOM_SOCKETS then
            (Upgrade_refused \<lparr>rf_status = 429, rf_reason = ''room-full'', rf_retryAfter = Some 5\<rparr> (lease_of d), s)
          else (case authorize (ue_sha e) (nr_rooms s) (uw_room w) (bearer (header ''authorization'' (uw_request w))) True now of
              (False, rooms) \<Rightarrow>
                (Upgrade_refused \<lparr>rf_status = 401, rf_reason = ''unauthorized'', rf_retryAfter = None\<rparr> (lease_of d), s\<lparr>nr_rooms := rooms\<rparr>)
            | (True, rooms) \<Rightarrow>
                let rs = new_session e now w in
                (Upgrade_open (if rs_relayControl rs then [capabilities (rs_ingressFlow rs)] else []),
                 set_socket ws rs (s\<lparr>nr_rooms := rooms\<rparr>))))"

section \<open>The Durable Object\<close>

datatype ws_answer = Ws_refused response | Ws_open "js list"

definition lower :: "string \<Rightarrow> string" where
  "lower = map (\<lambda>c. if char_between CHR ''A'' CHR ''Z'' c then char_of ((of_char c :: nat) + 32) else c)"

definition websocket_request :: "request \<Rightarrow> bool" where
  "websocket_request request \<longleftrightarrow> lower (case header ''upgrade'' request of None \<Rightarrow> [] | Some v \<Rightarrow> v) = ''websocket''"

definition cooling_body :: "int \<Rightarrow> js" where
  "cooling_body retryAfter = JObj [(''error'', JStr ''cool-down''), (''retryAfter'', JInt retryAfter)]"

definition acceptWebSocket :: "room_env \<Rightarrow> time \<Rightarrow> nat \<Rightarrow> request \<Rightarrow> room_object \<Rightarrow> ws_answer \<times> room_object" where
  "acceptWebSocket e now ws request s =
     (if \<not> websocket_request request then (Ws_refused (json (error_body ''expected websocket'') 426), s)
      else if \<not> validRoom (param ''room'' request) then (Ws_refused (json (error_body ''valid room query parameter required'') 400), s)
      else (case requireRoomAuth (re_sha e) (es_auth (ro_endpoints s)) (bearer (header ''authorization'' request)) of
          (Some refusal, auth) \<Rightarrow> (Ws_refused refusal, s\<lparr>ro_endpoints := (ro_endpoints s)\<lparr>es_auth := auth\<rparr>\<rparr>)
        | (None, auth) \<Rightarrow>
            let s1 = s\<lparr>ro_endpoints := (ro_endpoints s)\<lparr>es_auth := auth\<rparr>\<rparr>;
                room = str_of (param ''room'' request); key = header ''x-granttap-recipient-key-id'' request in
            if key \<noteq> None \<and> \<not> validRecipientKeyId (opt_js key) then (Ws_refused (json (error_body ''invalid recipient'') 400), s1)
            else (case coolingUpgradeResponse (ro_policy s1) (JStr room) (opt_js key) now of
                (Some retryAfter, policy) \<Rightarrow> (Ws_refused (json (cooling_body retryAfter) 429), s1\<lparr>ro_policy := policy\<rparr>)
              | (None, policy) \<Rightarrow>
                  let relayControl = header ''x-granttap-recipient-routing'' request = Some ''1'';
                      ingressFlow = relayControl \<and> header ''x-granttap-ingress-flow'' request = Some ''1'';
                      a = \<lparr>a_room = room, a_recipientKeyId = key, a_role = None, a_relayControl = relayControl,
                        a_presenceEnabled = (header ''x-granttap-presence'' request = Some ''1''),
                        a_taskDispatch = (header ''x-granttap-task-dispatch'' request = Some ''1''),
                        a_ingressFlow = ingressFlow, a_ingressReceived = None\<rparr>
                  in (Ws_open (if relayControl then [capabilities ingressFlow] else []),
                      set_attachment ws a (s1\<lparr>ro_policy := policy\<rparr>)))))"

section \<open>The relay as a whole\<close>

text \<open>The timer of a ticket, on the socket it was armed for.\<close>

definition ticket_timer :: "cool_config \<Rightarrow> time \<Rightarrow> nat \<Rightarrow> node_relay \<Rightarrow> relay_out list \<times> node_relay" where
  "ticket_timer c now ws s = (case jm_get (nr_sockets s) ws of
       None \<Rightarrow> ([], s)
     | Some rs \<Rightarrow> (case admission_timer c now (rs_managed rs) (nr_coolDowns s) of (frame, ms, es) \<Rightarrow>
         (case frame of None \<Rightarrow> [] | Some f \<Rightarrow> [Out_close ws f], set_socket ws (rs\<lparr>rs_managed := ms\<rparr>) s\<lparr>nr_coolDowns := es\<rparr>)))"

text \<open>The system: the relay, the upgrades that wait, and the credential each socket was asked for with, which the relay
  does not keep.\<close>

type_synonym relay_system = "node_relay \<times> upgrade_wait list \<times> (nat \<rightharpoonup> string)"

inductive relay_step :: "upgrade_env \<Rightarrow> relay_system \<Rightarrow> relay_system \<Rightarrow> bool" for e where
  refused: "upgrade_begin e now address request s = (Inl refusal, s') \<Longrightarrow> relay_step e (s, waits, keys) (s', waits, keys)"
| waiting: "upgrade_begin e now address request s = (Inr w, s') \<Longrightarrow> relay_step e (s, waits, keys) (s', w # waits, keys)"
| finished: "w \<in> set waits \<Longrightarrow> jm_get (nr_sockets s) ws = None \<Longrightarrow> upgrade_finish e now d destroyed ws w s = (r, s')
    \<Longrightarrow> relay_step e (s, waits, keys) (s', remove1 w waits, keys(ws \<mapsto> bearer (header ''authorization'' (uw_request w))))"
| frame: "handleSocketMessage stringify parse c verify env disk now ws raw s = Some (outs, s') \<Longrightarrow> relay_step e (s, waits, keys) (s', waits, keys)"
| timer: "ticket_timer c now ws s = (outs, s') \<Longrightarrow> relay_step e (s, waits, keys) (s', waits, keys)"
| closed: "closeNodeSocket stringify env now ws s = (outs, s') \<Longrightarrow> relay_step e (s, waits, keys) (s', waits, keys)"

section \<open>The rooms of the sockets\<close>

text \<open>Every socket is in the room \<open>\<rho>\<close> gives it, and the rooms have the owners \<open>\<delta>\<close>.\<close>

definition assigned :: "(nat \<rightharpoonup> string) \<Rightarrow> (string \<rightharpoonup> string) \<Rightarrow> node_relay \<Rightarrow> bool" where
  "assigned \<rho> \<delta> s \<longleftrightarrow> jm_wf (nr_sockets s) \<and> (\<forall>t rs. jm_get (nr_sockets s) t = Some rs \<longrightarrow> \<rho> t = Some (rs_room rs))
     \<and> authDigest (nr_rooms s) = \<delta>"

lemma assigned_get: "assigned \<rho> \<delta> s \<Longrightarrow> jm_get (nr_sockets s) t = Some rs \<Longrightarrow> \<rho> t = Some (rs_room rs)"
  by (simp add: assigned_def)

lemma room_with [simp]: "rs_room (with_socket f rs) = n_room (f (ms_socket (rs_managed rs)))"
  by simp

lemma assigned_other [simp]: "assigned \<rho> \<delta> (s\<lparr>nr_states := y\<rparr>) = assigned \<rho> \<delta> s"
  "assigned \<rho> \<delta> (s\<lparr>nr_coolDowns := z\<rparr>) = assigned \<rho> \<delta> s" "assigned \<rho> \<delta> (s\<lparr>nr_delivery := d\<rparr>) = assigned \<rho> \<delta> s"
  by (simp_all add: assigned_def)

lemma assigned_rooms: "assigned \<rho> \<delta> s \<Longrightarrow> authDigest x = authDigest (nr_rooms s) \<Longrightarrow> assigned \<rho> \<delta> (s\<lparr>nr_rooms := x\<rparr>)"
  by (simp add: assigned_def)

lemma assigned_set_socket: "assigned \<rho> \<delta> s \<Longrightarrow> \<rho> ws = Some (rs_room rs) \<Longrightarrow> assigned \<rho> \<delta> (set_socket ws rs s)"
  by (auto simp: set_socket_def assigned_def)

lemma digest_write [simp]: "authDigest (writeQueue rooms room role q now) = authDigest rooms"
  by (cases role) (auto simp: authDigest_def writeQueue_def fun_eq_iff split: option.splits)

lemma digest_queue: "node_queue rooms room role now = (q, rooms') \<Longrightarrow> authDigest rooms' = authDigest rooms"
  by (auto simp: node_queue_def Let_def split: option.splits)

lemma digest_enqueue: "enqueue rooms room role raw i x now = (r, rooms') \<Longrightarrow> authDigest rooms' = authDigest rooms"
  by (auto simp: enqueue_def Let_def split: if_splits prod.splits dest: digest_queue)

lemma digest_acknowledge [simp]: "authDigest (node_acknowledge rooms room role i now) = authDigest rooms"
  by (auto simp: node_acknowledge_def Let_def split: prod.splits dest: digest_queue)

lemmas room_writes = assigned_rooms [OF _ digest_enqueue] assigned_rooms [OF _ digest_queue]

lemma assigned_deliver: "deliver_to env now why t raw i s = (os, s') \<Longrightarrow> assigned \<rho> \<delta> s \<Longrightarrow> assigned \<rho> \<delta> s'"
  by (auto simp: deliver_to_def Let_def intro!: assigned_set_socket dest: assigned_get split: option.splits prod.splits send_result.splits)

lemma assigned_deliver_all: "deliver_all env now why raw i ts s = (os, s') \<Longrightarrow> assigned \<rho> \<delta> s \<Longrightarrow> assigned \<rho> \<delta> s'"
  by (induction ts arbitrary: s os) (auto split: prod.splits dest: assigned_deliver)

lemma assigned_close:
  "close_socket c now ws rs token v s = (os, s') \<Longrightarrow> assigned \<rho> \<delta> s \<Longrightarrow> \<rho> ws = Some (rs_room rs) \<Longrightarrow> assigned \<rho> \<delta> s'"
  by (auto simp: close_socket_def intro!: assigned_set_socket closeForPolicy_kept [THEN conjunct1, symmetric] split: prod.splits)

lemma assigned_publish: "publishNodePresence stringify env now room s = (os, s') \<Longrightarrow> assigned \<rho> \<delta> s \<Longrightarrow> assigned \<rho> \<delta> s'"
  by (auto simp: publishNodePresence_def Let_def dest: assigned_deliver_all)

lemma assigned_note [simp]: "assigned \<rho> \<delta> (presence_note room role i now s) = assigned \<rho> \<delta> s"
  by (simp add: presence_note_def assigned_def)

lemma assigned_forward: "forward_frame env now ws room envelope raw s = (os, s') \<Longrightarrow> assigned \<rho> \<delta> s \<Longrightarrow> assigned \<rho> \<delta> s'"
  by (auto simp: forward_frame_def split: prod.splits dest: assigned_deliver_all)

lemma assigned_store:
  assumes "store_frame stringify c env disk now ws rs envelope raw role s = ((os, s'), go)" "assigned \<rho> \<delta> s" "\<rho> ws = Some (rs_room rs)"
  shows "assigned \<rho> \<delta> s'"
proof -
  obtain stored rooms where q: "enqueue (nr_rooms s) (rs_room rs) role raw (str_of (field ''deliveryId'' envelope))
      (js_time (field ''expiresAt'' envelope)) now = (stored, rooms)" by fastforce
  have "assigned \<rho> \<delta> (s\<lparr>nr_rooms := rooms\<rparr>)" by (rule room_writes(1) [OF assms(2) q])
  then show ?thesis using assms by (auto simp: store_frame_def Let_def q split: if_splits prod.splits queue_outcome.splits
      dest: assigned_close [where \<rho> = \<rho> and \<delta> = \<delta>] assigned_deliver [where \<rho> = \<rho> and \<delta> = \<delta>])
qed

lemma assigned_route:
  assumes "route_frame stringify c env disk now ws rs envelope raw s = (os, s')" "assigned \<rho> \<delta> s" "\<rho> ws = Some (rs_room rs)"
  shows "assigned \<rho> \<delta> s'"
proof -
  define rs1 where "rs1 = (if case rs_presenceAt rs of None \<Rightarrow> True | Some t \<Rightarrow> t = 0 \<or> now - t \<ge> 30000 then rs\<lparr>rs_presenceAt := Some now\<rparr> else rs)"
  define s1 where "s1 = (if case rs_presenceAt rs of None \<Rightarrow> True | Some t \<Rightarrow> t = 0 \<or> now - t \<ge> 30000
     then set_socket ws rs1 (presence_note (rs_room rs) (rs_role rs) (rs_key rs) now s) else s)"
  have r1: "\<rho> ws = Some (rs_room rs1)" "assigned \<rho> \<delta> s1" using assms by (auto simp: rs1_def s1_def assigned_set_socket)
  show ?thesis using assms(1) r1 unfolding route_frame_def Let_def rs1_def [symmetric] s1_def [symmetric]
    by (auto split: option.splits if_splits prod.splits
      dest: assigned_forward [where \<rho> = \<rho> and \<delta> = \<delta>] assigned_store [where \<rho> = \<rho> and \<delta> = \<delta>])
qed

lemma assigned_register:
  assumes "registerRole env now parse ws role envelope rs s = (os, rs2, s')" "assigned \<rho> \<delta> s" "\<rho> ws = Some (rs_room rs)"
  shows "assigned \<rho> \<delta> s'" "\<rho> ws = Some (rs_room rs2)"
proof -
  define rs1 where "rs1 = with_socket (\<lambda>n. n\<lparr>n_role := Some role, n_identity := identityOf (n\<lparr>n_role := Some role\<rparr>) envelope\<rparr>) rs"
  have r1: "\<rho> ws = Some (rs_room rs1)" using assms(3) by (simp add: rs1_def)
  then have set: "assigned \<rho> \<delta> (set_socket ws rs1 (s\<lparr>nr_rooms := rooms\<rparr>))"
    if "node_queue (nr_rooms s) (rs_room rs) role now = (queue, rooms)" for queue rooms
    using room_writes(2) [OF assms(2) that] by (simp add: assigned_set_socket)
  have replay: "assigned \<rho> \<delta> s2" if "start_replay env now parse ws rows s1 = (os1, s2)" "assigned \<rho> \<delta> s1" for rows s1 os1 s2
    using that by (auto simp: start_replay_def split: list.splits prod.splits dest: assigned_deliver)
  show a: "assigned \<rho> \<delta> s'" using assms(1) set replay by (fastforce simp: registerRole_def Let_def rs1_def [symmetric] split: prod.splits)
  show "\<rho> ws = Some (rs_room rs2)" using assms(1) r1 assigned_get [OF a, of ws]
    by (auto simp: registerRole_def Let_def rs1_def [symmetric] split: prod.splits option.splits)
qed

lemma refuseCooling_room: "refuseCoolingSocket c n es envelope now = (r, n', es') \<Longrightarrow> n_room n' = n_room n"
  by (auto simp: refuseCoolingSocket_def split: prod.splits if_splits)

lemma assigned_accept:
  assumes "accept_envelope stringify parse c env disk now ws rs envelope raw s = (os, s')" "assigned \<rho> \<delta> s" "\<rho> ws = Some (rs_room rs)"
  shows "assigned \<rho> \<delta> s'"
proof -
  obtain refused ns es where c: "(if rs_role rs = None then refuseCoolingSocket c (ms_socket (rs_managed rs)) (nr_coolDowns s) envelope now
      else (None, ms_socket (rs_managed rs), nr_coolDowns s)) = (refused, ns, es)" by (metis prod_cases3)
  have room: "n_room ns = rs_room rs" using c refuseCooling_room by (auto split: if_splits)
  define rs1 where "rs1 = with_socket (\<lambda>_. ns) rs"
  define s1 where "s1 = set_socket ws rs1 s\<lparr>nr_coolDowns := es\<rparr>"
  have r1: "\<rho> ws = Some (rs_room rs1)" using assms(3) room by (simp add: rs1_def)
  then have a1: "assigned \<rho> \<delta> s1" using assms(2) by (simp add: s1_def assigned_set_socket)
  have first: "assigned \<rho> \<delta> s4"
    if "registerRole env now parse ws role envelope rs1 s1 = (o1, rs2, s2)"
      "publishNodePresence stringify env now (rs_room rs) (presence_note (rs_room rs) (rs_role rs2) (rs_key rs) now s2) = (o2, s3)"
      "route_frame stringify c env disk now ws (case jm_get (nr_sockets s3) ws of Some rs3 \<Rightarrow> rs3 | None \<Rightarrow> rs2) envelope raw s3 = (o3, s4)"
    for role o1 rs2 s2 o2 s3 o3 s4
  proof -
    note reg = assigned_register [OF that(1) a1 r1]
    have a3: "assigned \<rho> \<delta> s3" using assigned_publish [OF that(2)] reg(1) by simp
    have "\<rho> ws = Some (rs_room (case jm_get (nr_sockets s3) ws of Some rs3 \<Rightarrow> rs3 | None \<Rightarrow> rs2))"
      using reg(2) assigned_get [OF a3, of ws] by (cases "jm_get (nr_sockets s3) ws") simp_all
    then show ?thesis by (rule assigned_route [OF that(3) a3])
  qed
  note closes = assigned_close [OF _ a1 r1]
  have routed: "assigned \<rho> \<delta> s4" if "route_frame stringify c env disk now ws rs1 envelope raw s1 = (o3, s4)" for o3 s4
    by (rule assigned_route [OF that a1 r1])
  show ?thesis using assms(1) a1 first closes routed
    unfolding accept_envelope_def Let_def c by (auto simp: rs1_def [symmetric] s1_def [symmetric] split: option.splits if_splits prod.splits)
qed

lemma renewal_room: "renewManagedConnection c verify v now s es = (r, s', es') \<Longrightarrow> n_room (ms_socket s') = n_room (ms_socket s)"
  by (auto simp: renewManagedConnection_def armManagedExpiry_def split: if_splits option.splits prod.splits dest!: closeForPolicy_kept)

lemma timer_room: "admission_timer c now s es = (r, s', es') \<Longrightarrow> n_room (ms_socket s') = n_room (ms_socket s)"
  by (auto simp: admission_timer_def split: if_splits option.splits prod.splits dest!: closeForPolicy_kept)

lemma assigned_message:
  assumes "handleSocketMessage stringify parse c verify env disk now ws raw s = Some (outs, s')" "assigned \<rho> \<delta> s"
  shows "assigned \<rho> \<delta> s'"
proof (cases "jm_get (nr_sockets s) ws")
  case None
  then show ?thesis using assms by (simp add: handleSocketMessage_def)
next
  case (Some rs)
  have room: "\<rho> ws = Some (rs_room rs)" by (rule assigned_get [OF assms(2) Some])
  obtain acked acks where k: "consume parse (dl_responses (nr_delivery s)) ws raw now = (acked, acks)" by fastforce
  obtain ok w where f: "(if acked then (True, rs_window rs) else acceptSocketFrame (rs_window rs) now MAX_SOCKET_MESSAGES_PER_SECOND) = (ok, w)"
    by fastforce
  define rs1 where "rs1 = rs\<lparr>rs_window := w\<rparr>"
  define s1 where "s1 = set_socket ws rs1 s\<lparr>nr_delivery := (nr_delivery s)\<lparr>dl_responses := acks\<rparr>\<rparr>"
  have r1: "\<rho> ws = Some (rs_room rs1)" "rs_room rs1 = rs_room rs" using room by (simp_all add: rs1_def)
  then have a1: "assigned \<rho> \<delta> s1" using assms(2) by (simp add: s1_def assigned_set_socket)
  have renewed: "assigned \<rho> \<delta> (set_socket ws (rs1\<lparr>rs_managed := ms, rs_ingressReceived := x\<rparr>) (set_socket ws (rs1\<lparr>rs_managed := ms\<rparr>) s1\<lparr>nr_coolDowns := es\<rparr>))"
      "assigned \<rho> \<delta> (set_socket ws (rs1\<lparr>rs_managed := ms\<rparr>) s1\<lparr>nr_coolDowns := es\<rparr>)" "\<rho> ws = Some (n_room (ms_socket ms))"
    if "renewManagedConnection c v2 envelope now (rs_managed rs1) (nr_coolDowns s1) = (r, ms, es)" for v2 envelope r ms es x
    using renewal_room [OF that] r1 a1 by (simp_all add: assigned_set_socket)
  show ?thesis using assms Some assigned_close [where \<rho> = \<rho> and \<delta> = \<delta>, OF _ assms(2) room] assigned_close [where \<rho> = \<rho> and \<delta> = \<delta>, OF _ a1 r1(1)] a1 renewed
    unfolding handleSocketMessage_def Let_def
    by (auto simp: k f rs1_def [symmetric] s1_def [symmetric] split: if_splits option.splits prod.splits renewal.splits verdict.splits
        intro!: assigned_rooms dest: assigned_accept [where \<rho> = \<rho> and \<delta> = \<delta>])
qed

lemma assigned_timer:
  assumes "ticket_timer c now ws s = (outs, s')" "assigned \<rho> \<delta> s"
  shows "assigned \<rho> \<delta> s'"
proof (cases "jm_get (nr_sockets s) ws")
  case (Some rs)
  obtain frame ms es where t: "admission_timer c now (rs_managed rs) (nr_coolDowns s) = (frame, ms, es)" by (metis prod_cases3)
  then show ?thesis using assms Some assigned_get [OF assms(2) Some] timer_room [OF t]
    by (auto simp: ticket_timer_def intro!: assigned_set_socket)
qed (use assms in \<open>simp add: ticket_timer_def\<close>)

lemma assigned_closed:
  assumes "closeNodeSocket stringify env now ws s = (outs, s')" "assigned \<rho> \<delta> s"
  shows "assigned \<rho> \<delta> s'"
proof -
  have "assigned \<rho> \<delta> (s\<lparr>nr_sockets := jm_delete (nr_sockets s) ws\<rparr>)" using assms(2) by (auto simp: assigned_def split: if_splits)
  then show ?thesis using assms by (auto simp: closeNodeSocket_def split: option.splits dest: assigned_publish [where \<rho> = \<rho> and \<delta> = \<delta>])
qed

section \<open>The invariant of the system\<close>

definition room_of :: "node_relay \<Rightarrow> nat \<rightharpoonup> string" where
  "room_of s t = map_option (\<lambda>rs. rs_room rs) (jm_get (nr_sockets s) t)"

definition system_ok :: "(string \<Rightarrow> string) \<Rightarrow> node_relay \<Rightarrow> (nat \<rightharpoonup> string) \<Rightarrow> bool" where
  "system_ok sha s keys \<longleftrightarrow> jm_wf (nr_sockets s) \<and> (\<forall>room. length (room_sockets room s) \<le> MAX_ROOM_SOCKETS)
     \<and> (\<forall>room. auth_ok (nr_rooms s) room)
     \<and> (\<forall>t room. room_of s t = Some room \<longrightarrow> (\<exists>c. keys t = Some c \<and> is_hex64 c \<and> authDigest (nr_rooms s) room = Some (sha c)))"

lemma room_sockets_fewer:
  assumes "assigned (room_of s) \<delta> s'" "jm_wf (nr_sockets s)"
  shows "length (room_sockets room s') \<le> length (room_sockets room s)"
proof -
  have d: "distinct (map fst (room_sockets room s'))" "distinct (map fst (room_sockets room s))"
    using assms by (simp_all add: room_sockets_def assigned_def jm_wf_def distinct_map_filter)
  have wf: "jm_wf (nr_sockets s')" using assms(1) by (simp add: assigned_def)
  have "fst ` set (room_sockets room s') \<subseteq> fst ` set (room_sockets room s)"
  proof
    fix t assume "t \<in> fst ` set (room_sockets room s')"
    then obtain rs' where "(t, rs') \<in> set (nr_sockets s')" "rs_room rs' = room" by (auto simp: room_sockets_def)
    then obtain rs where "jm_get (nr_sockets s) t = Some rs" "rs_room rs = room"
      using assigned_get [OF assms(1) jm_get_mem [OF wf]] by (auto simp: room_of_def)
    then show "t \<in> fst ` set (room_sockets room s)" by (force simp: room_sockets_def jm_get_def dest: map_of_SomeD)
  qed
  then have "card (set (map fst (room_sockets room s'))) \<le> card (set (map fst (room_sockets room s)))" by (simp add: card_mono)
  then show ?thesis using d by (simp only: distinct_card length_map)
qed

lemma system_kept:
  assumes "assigned (room_of s) (authDigest (nr_rooms s)) s'" "system_ok sha s keys"
  shows "system_ok sha s' keys"
  unfolding system_ok_def
proof (intro conjI allI impI)
  show "jm_wf (nr_sockets s')" using assms(1) by (simp add: assigned_def)
  show "length (room_sockets room s') \<le> MAX_ROOM_SOCKETS" for room
    using room_sockets_fewer [OF assms(1), of room] assms(2) by (meson order_trans system_ok_def)
  show "auth_ok (nr_rooms s') room" for room using assms by (simp add: assigned_def auth_ok_def system_ok_def)
  fix t room assume "room_of s' t = Some room"
  then have "room_of s t = Some room" using assigned_get [OF assms(1), of t] by (auto simp: room_of_def)
  then show "\<exists>c. keys t = Some c \<and> is_hex64 c \<and> authDigest (nr_rooms s') room = Some (sha c)"
    using assms by (simp add: assigned_def system_ok_def)
qed

lemma assigned_self: "jm_wf (nr_sockets s) \<Longrightarrow> assigned (room_of s) (authDigest (nr_rooms s)) s"
  by (simp add: assigned_def room_of_def)

lemma authorize_others: "room' \<noteq> room \<Longrightarrow> authDigest (snd (authorize sha rooms room c pin now)) room' = authDigest rooms room'"
  by (auto simp: authorize_def pinAuth_def ensureRoom_def authDigest_def Let_def split: option.splits)

text \<open>The owner of a room after a check of the Node gate, and of a room that was owned.\<close>

lemma authorize_owner:
  assumes "hex_digest sha" "\<forall>room. auth_ok rooms room" "authorize sha rooms room c True now = (b, rooms')"
  shows "b \<Longrightarrow> is_hex64 c \<and> authDigest rooms' room = Some (sha c)" "\<forall>room. auth_ok rooms' room"
    "authDigest rooms room' = Some d \<Longrightarrow> authDigest rooms' room' = Some d"
proof -
  note gate = node_gate.auth_answer [OF assms(1), of rooms room c True now] node_gate.auth_owner [OF assms(1), of rooms room c True now]
    node_gate.auth_ok [OF assms(1), of rooms room c True now]
  have ok: "auth_ok rooms room" using assms(2) by blast
  show "b \<Longrightarrow> is_hex64 c \<and> authDigest rooms' room = Some (sha c)"
    using gate(1,2) ok assms(3) by (auto simp: gate_answer_def gate_owner_def split: option.splits)
  show "\<forall>room. auth_ok rooms' room"
  proof
    fix other show "auth_ok rooms' other"
      using gate(3) ok assms(2,3) authorize_others [of other room sha rooms c True now]
      by (cases "other = room") (simp_all add: auth_ok_def)
  qed
  show "authDigest rooms' room' = Some d" if "authDigest rooms room' = Some d"
    using that gate(2) ok assms(3) authorize_others [of room' room sha rooms c True now]
    by (cases "room' = room") (simp_all add: gate_owner_def)
qed

lemma new_session_room [simp]: "rs_room (new_session e now w) = uw_room w"
  by (simp add: new_session_def Let_def armManagedExpiry_def split: option.splits)

lemma upgrade_finish_cases:
  assumes "upgrade_finish e now d destroyed ws w s = (r, s')"
  obtains "s' = s"
  | rooms b where "authorize (ue_sha e) (nr_rooms s) (uw_room w) (bearer (header ''authorization'' (uw_request w))) True now = (b, rooms)"
      "length (room_sockets (uw_room w) s) < MAX_ROOM_SOCKETS"
      "s' = (if b then set_socket ws (new_session e now w) (s\<lparr>nr_rooms := rooms\<rparr>) else s\<lparr>nr_rooms := rooms\<rparr>)"
  using assms by (auto simp: upgrade_finish_def Let_def split: option.splits if_splits prod.splits bool.splits)

lemma system_pinned:
  assumes "system_ok sha s keys" "\<forall>room. auth_ok rooms room"
    "\<And>room d. authDigest (nr_rooms s) room = Some d \<Longrightarrow> authDigest rooms room = Some d"
  shows "system_ok sha (s\<lparr>nr_rooms := rooms\<rparr>) keys"
proof -
  have same: "room_of (s\<lparr>nr_rooms := rooms\<rparr>) = room_of s" "room_sockets room (s\<lparr>nr_rooms := rooms\<rparr>) = room_sockets room s" for room
    by (simp_all add: room_of_def room_sockets_def fun_eq_iff)
  have "\<exists>c. keys t = Some c \<and> is_hex64 c \<and> authDigest rooms room = Some (sha c)" if "room_of s t = Some room" for t room
    using assms(1) assms(3) that unfolding system_ok_def by blast
  then show ?thesis using assms(1,2) unfolding system_ok_def same by simp
qed

lemma system_key: "system_ok sha s keys \<Longrightarrow> jm_get (nr_sockets s) ws = None \<Longrightarrow> system_ok sha s (keys(ws \<mapsto> c))"
  unfolding system_ok_def room_of_def by auto

lemma system_added:
  assumes "system_ok sha s keys" "jm_get (nr_sockets s) ws = None" "length (room_sockets (rs_room rs) s) < MAX_ROOM_SOCKETS"
    and "is_hex64 c" "authDigest (nr_rooms s) (rs_room rs) = Some (sha c)"
  shows "system_ok sha (set_socket ws rs s) (keys(ws \<mapsto> c))"
proof -
  have socks: "nr_sockets (set_socket ws rs s) = nr_sockets s @ [(ws, rs)]" by (simp add: set_socket_def jm_set_absent [OF assms(2)])
  have full: "length (room_sockets room s) \<le> MAX_ROOM_SOCKETS" for room using assms(1) by (simp add: system_ok_def)
  have few: "length (room_sockets room (set_socket ws rs s)) \<le> MAX_ROOM_SOCKETS" for room
    using full [of room] assms(3) by (auto simp: room_sockets_def socks)
  have at: "room_of (set_socket ws rs s) t = (if t = ws then Some (rs_room rs) else room_of s t)" for t by (simp add: room_of_def set_socket_def)
  have rooms: "nr_rooms (set_socket ws rs s) = nr_rooms s" by (simp add: set_socket_def)
  have wf: "jm_wf (nr_sockets (set_socket ws rs s))" using assms(1) by (simp add: set_socket_def system_ok_def)
  have owned: "\<exists>c'. (keys(ws \<mapsto> c)) t = Some c' \<and> is_hex64 c' \<and> authDigest (nr_rooms s) room = Some (sha c')"
    if "room_of (set_socket ws rs s) t = Some room" for t room
    using that assms(1,4,5) unfolding at system_ok_def by (cases "t = ws") auto
  show ?thesis using assms(1) wf few owned unfolding system_ok_def rooms by blast
qed

lemma finish_ok:
  assumes sha: "hex_digest (ue_sha e)" and ok: "system_ok (ue_sha e) s keys" and new: "jm_get (nr_sockets s) ws = None"
    and f: "upgrade_finish e now d destroyed ws w s = (r, s')"
  shows "system_ok (ue_sha e) s' (keys(ws \<mapsto> bearer (header ''authorization'' (uw_request w))))"
proof -
  let ?c = "bearer (header ''authorization'' (uw_request w))"
  from f show ?thesis
  proof (cases rule: upgrade_finish_cases)
    case (2 rooms b)
    note auth = authorize_owner [OF sha _ 2(1)]
    have oks: "\<forall>room. auth_ok (nr_rooms s) room" "jm_wf (nr_sockets s)" using ok by (simp_all add: system_ok_def)
    have pinned: "system_ok (ue_sha e) (s\<lparr>nr_rooms := rooms\<rparr>) keys"
      by (rule system_pinned [OF ok auth(2) [OF oks(1)] auth(3) [OF oks(1)]])
    show ?thesis
    proof (cases b)
      case True
      have "system_ok (ue_sha e) (set_socket ws (new_session e now w) (s\<lparr>nr_rooms := rooms\<rparr>)) (keys(ws \<mapsto> ?c))"
        using system_added [OF pinned, of ws "new_session e now w" ?c] new 2(2) auth(1) [OF oks(1) True] by (simp add: room_sockets_def)
      then show ?thesis using 2(3) True by simp
    next
      case False
      then show ?thesis using 2(3) system_key [OF pinned, of ws] new by simp
    qed
  qed (use system_key [OF ok new] in simp)
qed

lemma upgrade_begin_keeps: "upgrade_begin e now address request s = (r, s') \<Longrightarrow> nr_sockets s' = nr_sockets s \<and> nr_rooms s' = nr_rooms s"
  by (auto simp: upgrade_begin_def Let_def split: prod.splits option.splits)

lemma relay_step_ok:
  assumes "relay_step e x y" "hex_digest (ue_sha e)" "system_ok (ue_sha e) (fst x) (snd (snd x))"
  shows "system_ok (ue_sha e) (fst y) (snd (snd y))"
  using assms
proof (induction rule: relay_step.induct)
  case (refused now address request s refusal s' waits keys)
  then show ?case using upgrade_begin_keeps [OF refused(1)] by (simp add: system_ok_def room_of_def room_sockets_def)
next
  case (waiting now address request s w s' waits keys)
  then show ?case using upgrade_begin_keeps [OF waiting(1)] by (simp add: system_ok_def room_of_def room_sockets_def)
next
  case (finished w waits s ws now d destroyed r s' keys)
  then show ?case unfolding fst_conv snd_conv by (intro finish_ok)
next
  case (frame stringify parse c verify env disk now ws raw s outs s' waits keys)
  then have wf: "jm_wf (nr_sockets s)" by (simp add: system_ok_def)
  show ?case using system_kept [OF assigned_message [OF frame(1) assigned_self [OF wf]]] frame(3) by simp
next
  case (timer c now ws s outs s' waits keys)
  then have wf: "jm_wf (nr_sockets s)" by (simp add: system_ok_def)
  show ?case using system_kept [OF assigned_timer [OF timer(1) assigned_self [OF wf]]] timer(3) by simp
next
  case (closed stringify env now ws s outs s' waits keys)
  then have wf: "jm_wf (nr_sockets s)" by (simp add: system_ok_def)
  show ?case using system_kept [OF assigned_closed [OF closed(1) assigned_self [OF wf]]] closed(3) by simp
qed

lemma relay_reaches_ok:
  assumes "(relay_step e)\<^sup>*\<^sup>* (s0, [], Map.empty) (s, waits, keys)" "hex_digest (ue_sha e)" "nr_sockets s0 = []" "\<forall>room. auth_ok (nr_rooms s0) room"
  shows "system_ok (ue_sha e) s keys"
proof -
  have "system_ok (ue_sha e) s0 Map.empty" using assms(3,4) by (simp add: system_ok_def room_of_def room_sockets_def jm_wf_def)
  with assms(1) have "system_ok (ue_sha e) (fst (s, waits, keys)) (snd (snd (s, waits, keys)))"
    by (induction rule: rtranclp_induct) (simp_all add: relay_step_ok [OF _ assms(2)])
  then show ?thesis by simp
qed

section \<open>Properties\<close>

text \<open>C13: On the Node relay a room never has more than 32 sockets. From a start without sockets, however the
  upgrades, the answers of the quota service they wait for, frames, ticket timers and closes interleave, the
  sockets of each room stay within the limit: an upgrade that was let through before its wait is counted again after it.\<close>

theorem room_sockets_bounded:
  assumes "(relay_step e)\<^sup>*\<^sup>* (s0, [], Map.empty) (s, waits, keys)" "hex_digest (ue_sha e)" "nr_sockets s0 = []" "\<forall>room. auth_ok (nr_rooms s0) room"
  shows "length (room_sockets room s) \<le> MAX_ROOM_SOCKETS"
  using relay_reaches_ok [OF assms] by (simp add: system_ok_def)

text \<open>C6: Only the owner of a room has sockets in it. In every state the Node relay reaches from a start without sockets,
  each socket was asked for with a well-formed credential whose digest is the one the room is pinned to, also when
  the room was pinned by somebody else while the upgrade waited for the quota service.\<close>

theorem open_sockets_owned:
  assumes "(relay_step e)\<^sup>*\<^sup>* (s0, [], Map.empty) (s, waits, keys)" "hex_digest (ue_sha e)" "nr_sockets s0 = []" "\<forall>room. auth_ok (nr_rooms s0) room"
    and "jm_get (nr_sockets s) ws = Some rs"
  shows "\<exists>c. keys ws = Some c \<and> validRoomCredential (JStr c) \<and> authDigest (nr_rooms s) (rs_room rs) = Some (ue_sha e c)"
  using relay_reaches_ok [OF assms(1-4)] assms(5) by (fastforce simp: system_ok_def room_of_def)

section \<open>Witnesses\<close>

definition sample_credential :: string where "sample_credential = replicate 64 CHR ''a''"

definition sample_upgrade :: request where
  "sample_upgrade = \<lparr>r_method = ''GET'', r_path = ''/'', r_query = [(''room'', ''00112233445566aa'')],
     r_headers = [(''authorization'', ''Bearer '' @ sample_credential)], r_length = None, r_chunks = None\<rparr>"

definition sample_upgrade_env :: upgrade_env where
  "sample_upgrade_env = \<lparr>ue_stringify = (\<lambda>_. []), ue_sha = (\<lambda>_. replicate 64 CHR ''0''), ue_cool = default_cool_down, ue_admission = None,
     ue_access = False, ue_isIP = (\<lambda>_. False), ue_trusted = []\<rparr>"

definition sample_start :: node_relay where
  "sample_start = \<lparr>nr_rooms = Map.empty, nr_states = [], nr_presence = Map.empty, nr_sockets = [], nr_delivery = createSocketDelivery, nr_coolDowns = []\<rparr>"

definition sample_wait :: upgrade_wait where
  "sample_wait = \<lparr>uw_request = sample_upgrade, uw_room = ''00112233445566aa'', uw_ticket = None, uw_asked = None\<rparr>"

lemma sample_bearer: "bearer (header ''authorization'' sample_upgrade) = sample_credential"
  by (simp add: bearer_def header_def sample_upgrade_def sample_credential_def trim_def starts_with_def numeral_eq_Suc blank_char_def)

lemma sample_credential_hex: "is_hex64 sample_credential"
  by (simp add: sample_credential_def is_hex64_def)

lemma remaining_none [simp]: "remaining c [] key admitted now = (0, [])"
  by (simp add: remaining_def split: option.splits)

lemma sample_begin: "upgrade_begin sample_upgrade_env 1000 None sample_upgrade sample_start = (Inr sample_wait, sample_start)"
  using sample_credential_hex sample_bearer
  by (simp add: upgrade_begin_def param_def upgrade_ticket_def sample_upgrade_env_def sample_upgrade_def sample_start_def sample_wait_def
      authorizeUpgrade_def authDigest_def upgradeRefusal_def header_def acceptsWebSocketPath_def validRoom.simps class_repeat_def hex_char_def char_between_def
      opt_js_def managedCooldownIdentity_def remaining_none room_sockets_def relay_limits Let_def)

lemma sample_sha: "hex_digest (ue_sha sample_upgrade_env)"
  by (simp add: hex_digest_def sample_upgrade_env_def is_hex64_def class_repeat_def hex_char_def char_between_def)

lemma sample_finish:
  "\<exists>r s'. upgrade_finish sample_upgrade_env 1001 None False 7 sample_wait sample_start = (r, s')
     \<and> nr_sockets s' = [(7, new_session sample_upgrade_env 1001 sample_wait)]"
proof -
  obtain b rooms where a: "authorize (ue_sha sample_upgrade_env) (nr_rooms sample_start) (uw_room sample_wait) sample_credential True 1001 = (b, rooms)"
    by fastforce
  have "auth_ok (nr_rooms sample_start) (uw_room sample_wait)" "authDigest (nr_rooms sample_start) (uw_room sample_wait) = None"
    by (simp_all add: auth_ok_def authDigest_def sample_start_def)
  then have "b" using node_gate.auth_answer [OF sample_sha, of "nr_rooms sample_start" "uw_room sample_wait" sample_credential True 1001] a sample_credential_hex
    by (simp add: gate_answer_def)
  then show ?thesis using a sample_bearer by (simp add: upgrade_finish_def sample_wait_def sample_start_def room_sockets_def relay_limits set_socket_def Let_def)
qed

lemma sample_run:
  "\<exists>s. (relay_step sample_upgrade_env)\<^sup>*\<^sup>* (sample_start, [], Map.empty) (s, [], [7 \<mapsto> sample_credential])
     \<and> nr_sockets s = [(7, new_session sample_upgrade_env 1001 sample_wait)]"
proof -
  obtain r s where f: "upgrade_finish sample_upgrade_env 1001 None False 7 sample_wait sample_start = (r, s)"
    and s: "nr_sockets s = [(7, new_session sample_upgrade_env 1001 sample_wait)]" using sample_finish by blast
  have key: "bearer (header ''authorization'' (uw_request sample_wait)) = sample_credential" using sample_bearer by (simp add: sample_wait_def)
  have one: "relay_step sample_upgrade_env (sample_start, [], Map.empty) (sample_start, [sample_wait], Map.empty)"
    by (rule relay_step.waiting [OF sample_begin])
  have "relay_step sample_upgrade_env (sample_start, [sample_wait], Map.empty)
      (s, remove1 sample_wait [sample_wait], Map.empty(7 \<mapsto> bearer (header ''authorization'' (uw_request sample_wait))))"
    by (rule relay_step.finished [OF _ _ f]) (simp_all add: sample_start_def)
  then have two: "relay_step sample_upgrade_env (sample_start, [sample_wait], Map.empty) (s, [], [7 \<mapsto> sample_credential])" unfolding key by simp
  have "(relay_step sample_upgrade_env)\<^sup>*\<^sup>* (sample_start, [], Map.empty) (s, [], [7 \<mapsto> sample_credential])"
    using one two by (meson converse_rtranclp_into_rtranclp r_into_rtranclp)
  then show ?thesis using s by blast
qed

lemma sample_start_ok: "nr_sockets sample_start = []" "\<forall>room. auth_ok (nr_rooms sample_start) room"
  by (simp_all add: sample_start_def auth_ok_def authDigest_def)

theorem room_sockets_bounded_witness:
  "\<exists>s :: node_relay. length (nr_sockets s) = 1 \<and> length (room_sockets ''00112233445566aa'' s) \<le> MAX_ROOM_SOCKETS"
proof -
  obtain s where run: "(relay_step sample_upgrade_env)\<^sup>*\<^sup>* (sample_start, [], Map.empty) (s, [], [7 \<mapsto> sample_credential])"
    and s: "nr_sockets s = [(7, new_session sample_upgrade_env 1001 sample_wait)]" using sample_run by blast
  have "length (nr_sockets s) = 1" by (simp add: s)
  with room_sockets_bounded [OF run sample_sha sample_start_ok] show ?thesis by blast
qed

theorem open_sockets_owned_witness:
  "\<exists>s :: node_relay. jm_get (nr_sockets s) 7 = Some (new_session sample_upgrade_env 1001 sample_wait)
     \<and> authDigest (nr_rooms s) ''00112233445566aa'' = Some (replicate 64 CHR ''0'')"
proof -
  obtain s where run: "(relay_step sample_upgrade_env)\<^sup>*\<^sup>* (sample_start, [], Map.empty) (s, [], [7 \<mapsto> sample_credential])"
    and s: "nr_sockets s = [(7, new_session sample_upgrade_env 1001 sample_wait)]" using sample_run by blast
  have g: "jm_get (nr_sockets s) 7 = Some (new_session sample_upgrade_env 1001 sample_wait)" by (simp add: s jm_get_def)
  from open_sockets_owned [OF run sample_sha sample_start_ok g]
  have "authDigest (nr_rooms s) ''00112233445566aa'' = Some (replicate 64 CHR ''0'')" by (simp add: sample_wait_def sample_upgrade_env_def)
  with g show ?thesis by blast
qed

section \<open>Refused upgrades\<close>

text \<open>The Node relay pins a room only for an upgrade it opens (\<open>upgrade_begin_keeps\<close>); the Durable Object pins it before it looks
  at the recipient and at the cool-down, so that a refused upgrade can pin a new room.\<close>

lemma refused_upgrade_pins:
  assumes "websocket_request request" "validRoom (param ''room'' request)" "is_hex64 (bearer (header ''authorization'' request))"
    and "es_auth (ro_endpoints s) = None" "header ''x-granttap-recipient-key-id'' request = Some i" "\<not> validRecipientKeyId (JStr i)"
  shows "acceptWebSocket e now ws request s = (Ws_refused (json (error_body ''invalid recipient'') 400),
    s\<lparr>ro_endpoints := (ro_endpoints s)\<lparr>es_auth := Some (re_sha e (bearer (header ''authorization'' request)))\<rparr>\<rparr>)"
  using assms by (simp add: acceptWebSocket_def requireRoomAuth_def opt_js_def Let_def)

end
