(* ===== verification/Relay_Routing.thy ===== *)
theory Relay_Routing
  imports Relay_Upgrade Pairing_Mailbox
begin

text \<open>
  Which part of the relay answers a request: \<open>routeRequest\<close> (\<open>src/relay/requestRouter.js\<close>) in front of the
  Durable Objects and \<open>fetch\<close> of \<open>src/relay/room.js\<close> behind it, \<open>routeHttp\<close> of \<open>src/node/server.js\<close>, and the legacy
  proxy (\<open>src/relay/legacyProxy.js\<close>, \<open>src/worker.js\<close>); with the task requests of the Durable Object
  (\<open>handleRoomTaskDispatch\<close> of \<open>src/taskDispatch/worker-room.js\<close>) and the job pump of the Node relay
  (\<open>src/taskDispatch/socket-offers.js\<close>). Shows: both runtimes give a request to the same handler, the
  Durable Object that gets it is the one of its own room or mailbox, and the proxy lets nothing through that
  the relay behind it would not route.

  The handlers are those of the other theories; here they are named by \<open>handler\<close>.
\<close>

section \<open>Routes\<close>

datatype handler = H_tasks | H_pairing string | H_endpoint | H_activities | H_push_register | H_push_status | H_websocket

definition task_path :: "string \<Rightarrow> bool" where
  "task_path path \<longleftrightarrow> path = ''/task-jobs'' \<or> starts_with ''/task-jobs/'' path \<or> starts_with ''/task-job-writers/'' path
     \<or> starts_with ''/task-resources/'' path \<or> starts_with ''/task-job-configurations/'' path"

definition activity_path :: "string \<Rightarrow> bool" where
  "activity_path path \<longleftrightarrow> starts_with ''/push/activity/'' path"

text \<open>The bindings of the worker: whether the namespaces of the mailboxes and of the rooms are there.\<close>

datatype binding = CODES | ROOM

type_synonym bindings = "binding \<Rightarrow> bool"

definition routeTo :: "bindings \<Rightarrow> binding \<Rightarrow> string \<Rightarrow> response + binding \<times> string" where
  "routeTo env b name = (if env b then Inr (b, name) else Inl (json (error_body ''relay binding unavailable'') 503))"

definition routeRoom :: "bindings \<Rightarrow> request \<Rightarrow> response + binding \<times> string" where
  "routeRoom env request =
     (if \<not> validRoom (param ''room'' request) then Inl (json (error_body ''valid room query parameter required'') 400)
      else routeTo env ROOM (str_of (param ''room'' request)))"

definition health_ok :: js where "health_ok = JObj [(''ok'', JBool True)]"

definition routeRequest :: "bindings \<Rightarrow> request \<Rightarrow> response + binding \<times> string" where
  "routeRequest env request =
     (let path = r_path request in
      if path = ''/health'' then Inl (json health_ok 200)
      else case pair_mailbox path of
        Some mailbox \<Rightarrow> routeTo env CODES mailbox
      | None \<Rightarrow>
          if path \<in> {''/push/register'', ''/push/status'', ''/endpoint''} \<or> activity_path path then routeRoom env request
          else if task_path path then routeRoom env request
          else if websocket_request request then routeRoom env request
          else Inl (json (error_body ''not found'') 404))"

text \<open>\<open>fetch\<close> of a room.\<close>

definition room_fetch :: "request \<Rightarrow> handler" where
  "room_fetch request =
     (let path = r_path request in
      if activity_path path then H_activities
      else if task_path path then H_tasks
      else if path = ''/push/register'' then H_push_register
      else if path = ''/push/status'' then H_push_status
      else if path = ''/endpoint'' then H_endpoint
      else H_websocket)"

text \<open>A request through the router and the object: the handler and the name of its object.\<close>

definition worker_route :: "bindings \<Rightarrow> request \<Rightarrow> response + handler \<times> string" where
  "worker_route env request = (case routeRequest env request of
       Inl answer \<Rightarrow> Inl answer
     | Inr (CODES, mailbox) \<Rightarrow> Inr (H_pairing mailbox, mailbox)
     | Inr (ROOM, room) \<Rightarrow> Inr (room_fetch request, room))"

definition health_body :: "string option \<Rightarrow> js" where
  "health_body instanceId = JObj ((''ok'', JBool True) # (case instanceId of
     None \<Rightarrow> [] | Some i \<Rightarrow> if i = [] then [] else [(''instanceId'', JStr i)]))"

definition routeHttp :: "string option \<Rightarrow> request \<Rightarrow> response + handler" where
  "routeHttp instanceId request =
     (let path = r_path request in
      if path = ''/health'' \<and> r_method request = ''GET'' then Inl (json (health_body instanceId) 200)
      else if task_path path then Inr H_tasks
      else case pair_mailbox path of
        Some mailbox \<Rightarrow> Inr (H_pairing mailbox)
      | None \<Rightarrow>
          if path = ''/endpoint'' then Inr H_endpoint
          else if activity_path path then Inr H_activities
          else if path = ''/push/register'' then Inr H_push_register
          else if path = ''/push/status'' then Inr H_push_status
          else Inl (json (error_body ''not found'') 404))"

section \<open>The legacy proxy\<close>

definition allowedRequest :: "request \<Rightarrow> bool" where
  "allowedRequest request =
     (let path = r_path request in
      if path = ''/health'' then r_method request = ''GET''
      else if pair_mailbox path \<noteq> None then r_method request \<in> {''GET'', ''PUT'', ''POST''}
      else if path \<in> {''/push/register'', ''/push/status'', ''/endpoint''} \<or> activity_path path then validRoom (param ''room'' request)
      else acceptsWebSocketPath path \<and> websocket_request request \<and> validRoom (param ''room'' request))"

text \<open>\<open>origin\<close> is what the URL parser makes of the configured origin: its protocol and host, or nothing. A proxied
  request keeps everything but its host.\<close>

definition proxyLegacyRequest :: "(string \<Rightarrow> (string \<times> string) option) \<Rightarrow> string \<Rightarrow> string \<Rightarrow> request \<Rightarrow> response + string \<times> request" where
  "proxyLegacyRequest origin upstreamOrigin host request =
     (if \<not> allowedRequest request then Inl (json (error_body ''not found'') 404)
      else case origin upstreamOrigin of
        None \<Rightarrow> Inl (json (error_body ''relay upstream unavailable'') 503)
      | Some (protocol, upstream) \<Rightarrow>
          if protocol \<noteq> ''https:'' \<or> upstream = host then Inl (json (error_body ''relay upstream unavailable'') 503)
          else Inr (upstream, request))"

text \<open>The entry point: a response, a request for the proxied host, or one for an object of this worker.\<close>

datatype entry = Answered response | Proxied string request | Handled handler string

definition worker_fetch :: "(string \<Rightarrow> (string \<times> string) option) \<Rightarrow> string option \<Rightarrow> bindings \<Rightarrow> string \<Rightarrow> request \<Rightarrow> entry" where
  "worker_fetch origin upstream env host request =
     (if upstream \<noteq> None \<and> upstream \<noteq> Some [] then
        (case proxyLegacyRequest origin (the upstream) host request of Inl r \<Rightarrow> Answered r | Inr (h, r) \<Rightarrow> Proxied h r)
      else (case worker_route env request of Inl r \<Rightarrow> Answered r | Inr (h, name) \<Rightarrow> Handled h name))"

section \<open>Task requests of the Durable Object\<close>

text \<open>The credential of a writer: the header without its prefix, which is not trimmed.\<close>

definition raw_credential :: "request \<Rightarrow> string" where
  "raw_credential request = (case header ''authorization'' request of None \<Rightarrow> []
     | Some v \<Rightarrow> if starts_with ''Bearer '' v then drop 7 v else v)"

definition handleRoomTaskDispatch :: "room_env \<Rightarrow> time \<Rightarrow> request \<Rightarrow> room_object \<Rightarrow> dispatch_reply option \<times> room_run" where
  "handleRoomTaskDispatch e now request s =
     (case worker_authorize (re_sha e) (es_auth (ro_endpoints s)) (bearer (header ''authorization'' request)) False of (owner, auth) \<Rightarrow>
      (case taskDispatchResponse (worker_ops (re_stringify e) (re_sha e)) commitWriterGrant (re_stringify e) (re_sha e) (r_method request)
          (r_path request) (map_of (r_query request) ''room'') owner (raw_credential request)
          (\<lambda>limit. case read_request (re_parse e) request limit of Inl _ \<Rightarrow> None | Inr v \<Rightarrow> Some v)
          (map_of (r_query request) ''metadata'' = Some ''1'') now (ro_tasks s) of
         (None, tasks) \<Rightarrow> (None, ([], s\<lparr>ro_tasks := tasks, ro_endpoints := (ro_endpoints s)\<lparr>es_auth := auth\<rparr>\<rparr>, False))
       | (Some reply, tasks) \<Rightarrow>
           let s1 = s\<lparr>ro_tasks := tasks, ro_endpoints := (ro_endpoints s)\<lparr>es_auth := auth\<rparr>\<rparr> in
           (Some reply,
            if fst reply < 300 \<and> r_method request \<noteq> ''GET''
            then room_then (if r_method request = ''PUT'' then offerRoomTaskJobs e now s1 else room_done s1) (\<lambda>s2. room_done (room_alarm e now s2))
            else room_done s1)))"

section \<open>Task requests and the job pump of the Node relay\<close>

definition node_task_request ::
  "(string \<Rightarrow> js option) \<Rightarrow> (js \<Rightarrow> string) \<Rightarrow> (string \<Rightarrow> string) \<Rightarrow> rooms \<Rightarrow> time \<Rightarrow> request \<Rightarrow> task_table dispatch_state
     \<Rightarrow> dispatch_reply option \<times> task_table dispatch_state" where
  "node_task_request parse stringify sha rooms now request s =
     (let credential = bearer (header ''authorization'' request); room = map_of (r_query request) ''room'' in
      taskDispatchResponse (node_ops stringify sha) node_commit stringify sha (r_method request) (r_path request) room
        (fst (authorize sha rooms (case room of None \<Rightarrow> [] | Some r \<Rightarrow> r) credential False now)) credential
        (\<lambda>limit. Some (node_read_request parse request limit)) (map_of (r_query request) ''metadata'' = Some ''1'') now s)"

text \<open>The pump over the sockets of all rooms: what it reads of each, and the offers it remembers.\<close>

record pump_peer =
  pp_socket :: nat
  pp_room :: string
  pp_open :: bool
  pp_role :: "role option"
  pp_taskDispatch :: bool
  pp_key :: "string option"

type_synonym offer_cache = "nat \<rightharpoonup> (string, time) jmap"

definition cache_of :: "offer_cache \<Rightarrow> nat \<Rightarrow> (string, time) jmap" where
  "cache_of offered ws = (case offered ws of None \<Rightarrow> [] | Some cache \<Rightarrow> cache)"

definition pump_step :: "time \<Rightarrow> pump_peer \<Rightarrow> task_table \<Rightarrow> offer_cache \<Rightarrow> (nat \<times> public_job) list \<times> task_table \<times> offer_cache" where
  "pump_step now p ts offered =
     (if \<not> pp_open p \<or> pp_role p \<noteq> Some Machine \<or> \<not> pp_taskDispatch p then ([], ts, offered)
      else let cache = cache_of offered (pp_socket p) in
        if pp_key p \<in> {None, Some []} then ([], ts, offered(pp_socket p \<mapsto> cache))
        else let recent = filter (\<lambda>e. \<not> now - snd e \<ge> OFFER_INTERVAL_MS) cache in
          (case node_due ts (pp_room p) (opt_js (pp_key p)) now (map fst recent) of (due, ts1) \<Rightarrow>
           (case offerTaskJobs (\<lambda>_. due) (pp_key p) (\<lambda>_. True) cache now of (sent, cache1) \<Rightarrow>
             (map (Pair (pp_socket p)) sent, ts1, offered(pp_socket p \<mapsto> cache1)))))"

fun nodeTaskDispatchPump :: "time \<Rightarrow> pump_peer list \<Rightarrow> task_table \<Rightarrow> offer_cache \<Rightarrow> (nat \<times> public_job) list \<times> task_table \<times> offer_cache" where
  "nodeTaskDispatchPump now [] ts offered = ([], ts, offered)"
| "nodeTaskDispatchPump now (p # peers) ts offered =
     (case pump_step now p ts offered of (sent, ts1, offered1) \<Rightarrow>
      (case nodeTaskDispatchPump now peers ts1 offered1 of (sent', ts2, offered2) \<Rightarrow> (sent @ sent', ts2, offered2)))"

text \<open>The offers of a run of the pump, each tick with the sockets and the jobs of its time.\<close>

fun pump_run :: "(time \<times> pump_peer list \<times> task_table) list \<Rightarrow> offer_cache \<Rightarrow> (time \<times> nat \<times> public_job) list" where
  "pump_run [] offered = []"
| "pump_run ((now, peers, ts) # ticks) offered =
     (case nodeTaskDispatchPump now peers ts offered of (sent, ts1, offered1) \<Rightarrow>
       map (Pair now) sent @ pump_run ticks offered1)"

section \<open>Paths exclude each other\<close>

lemma starts_with_split: "starts_with a p \<Longrightarrow> \<exists>r. p = a @ r"
  unfolding starts_with_def by (metis append_take_drop_id)

lemma pair_path: "pair_mailbox p = Some m \<Longrightarrow> \<exists>r. p = ''/pair/'' @ r"
  by (auto simp: pair_mailbox_def dest!: starts_with_split split: if_splits)

lemma task_paths: "task_path p \<Longrightarrow> \<exists>r. p = ''/task-'' @ r"
  by (auto simp: task_path_def dest!: starts_with_split)

lemma activity_paths: "activity_path p \<Longrightarrow> \<exists>r. p = ''/push/activity/'' @ r"
  by (auto simp: activity_path_def dest!: starts_with_split)

lemma task_alone: "task_path p \<Longrightarrow> pair_mailbox p = None \<and> \<not> activity_path p \<and> p \<notin> {''/endpoint'', ''/push/register'', ''/push/status'', ''/health'', ''/'', ''/ws''}"
  using task_paths [of p] by (auto simp: pair_mailbox_def activity_path_def starts_with_def)

lemma pair_alone: "pair_mailbox p = Some m \<Longrightarrow> \<not> task_path p \<and> \<not> activity_path p \<and> p \<notin> {''/endpoint'', ''/push/register'', ''/push/status'', ''/health''}"
  using pair_path [of p m] by (auto simp: task_path_def activity_path_def starts_with_def)

lemma activity_alone: "activity_path p \<Longrightarrow> \<not> task_path p \<and> pair_mailbox p = None \<and> p \<notin> {''/endpoint'', ''/push/register'', ''/push/status'', ''/health''}"
  using activity_paths [of p] by (auto simp: task_path_def pair_mailbox_def starts_with_def)

lemma fixed_alone: "p \<in> {''/endpoint'', ''/push/register'', ''/push/status'', ''/'', ''/ws''} \<Longrightarrow> \<not> task_path p \<and> \<not> activity_path p \<and> pair_mailbox p = None"
  by (auto simp: task_path_def activity_path_def pair_mailbox_def starts_with_def)

text \<open>The route of a proxied request.\<close>

lemma allowed_routed:
  assumes "allowedRequest request" "r_path request \<noteq> ''/health''" "env CODES" "env ROOM"
  shows "\<exists>h name. worker_route env request = Inr (h, name)"
proof -
  note d = allowedRequest_def worker_route_def routeRequest_def routeRoom_def routeTo_def acceptsWebSocketPath_def Let_def
  consider (pair) m where "pair_mailbox (r_path request) = Some m"
    | (push) "pair_mailbox (r_path request) = None" "r_path request \<in> {''/push/register'', ''/push/status'', ''/endpoint''} \<or> activity_path (r_path request)"
    | (other) "pair_mailbox (r_path request) = None" "\<not> (r_path request \<in> {''/push/register'', ''/push/status'', ''/endpoint''} \<or> activity_path (r_path request))"
    by fastforce
  then show ?thesis
  proof cases
    case pair
    then show ?thesis using assms by (simp add: d)
  next
    case push
    have "validRoom (param ''room'' request)" using assms(1,2) push unfolding allowedRequest_def Let_def by metis
    then show ?thesis using assms(2-4) push unfolding d by simp
  next
    case other
    have "websocket_request request \<and> validRoom (param ''room'' request)" using assms(1,2) other unfolding allowedRequest_def Let_def by metis
    then show ?thesis using assms(2-4) other unfolding d by simp
  qed
qed

section \<open>Properties\<close>


section \<open>Spacing of the offers\<close>

text \<open>When a job was last offered to a socket.\<close>

definition last_offer :: "offer_cache \<Rightarrow> nat \<Rightarrow> string \<Rightarrow> time option" where
  "last_offer offered ws i = jm_get (cache_of offered ws) i"

text \<open>What a step at \<open>now\<close> does to the remembered offers.\<close>

definition spaced_step :: "offer_cache \<Rightarrow> time \<Rightarrow> (nat \<times> public_job) list \<Rightarrow> offer_cache \<Rightarrow> bool" where
  "spaced_step C now sent C' \<longleftrightarrow>
     (\<forall>ws j. (ws, j) \<in> set sent \<longrightarrow> (\<forall>t. last_offer C ws (pj_id j) = Some t \<longrightarrow> now - t \<ge> OFFER_INTERVAL_MS)
        \<and> last_offer C' ws (pj_id j) = Some now)
     \<and> (\<forall>ws i t. last_offer C ws i = Some t \<longrightarrow> now - t < OFFER_INTERVAL_MS \<longrightarrow> last_offer C' ws i = Some t)
     \<and> distinct (map (\<lambda>(ws, j). (ws, pj_id j)) sent)"

lemma spaced_none: "spaced_step C now [] C"
  by (simp add: spaced_step_def)

lemma spaced_join:
  assumes "spaced_step C now a C1" "spaced_step C1 now b C2"
  shows "spaced_step C now (a @ b) C2"
proof -
  have pos: "now - now < OFFER_INTERVAL_MS" by (simp add: OFFER_INTERVAL_MS_def)
  have apart: "(ws, pj_id j) \<notin> (\<lambda>(ws, j). (ws, pj_id j)) ` set b" if "(ws, j) \<in> set a" for ws j
    using assms that pos unfolding spaced_step_def by (fastforce simp: not_le)
  have early: "now - t \<ge> OFFER_INTERVAL_MS" if "(ws, j) \<in> set b" "last_offer C ws (pj_id j) = Some t" for ws j t
    using assms that unfolding spaced_step_def by (meson not_le)
  show ?thesis using assms apart early pos unfolding spaced_step_def by fastforce
qed

lemma recent_get: "map_of xs i = Some t \<Longrightarrow> P (i, t) \<Longrightarrow> map_of (filter P xs) i = Some t"
  by (induction xs) (auto split: if_splits)

lemma send_offers_spaced:
  assumes "send_offers offered (\<lambda>_. True) now jobs = (sent, offered')"
  shows "(\<forall>j \<in> set sent. (\<forall>t. jm_get offered (pj_id j) = Some t \<longrightarrow> now - t \<ge> OFFER_INTERVAL_MS) \<and> jm_get offered' (pj_id j) = Some now)
    \<and> (\<forall>i t. jm_get offered i = Some t \<longrightarrow> now - t < OFFER_INTERVAL_MS \<longrightarrow> jm_get offered' i = Some t) \<and> distinct (map pj_id sent)"
  using assms
proof (induction jobs arbitrary: offered sent)
  case (Cons job jobs)
  show ?case
  proof (cases "case jm_get offered (pj_id job) of None \<Rightarrow> False | Some t \<Rightarrow> now - t < OFFER_INTERVAL_MS")
    case True
    then show ?thesis using Cons by simp
  next
    case False
    obtain rest where r: "send_offers (jm_set offered (pj_id job) now) (\<lambda>_. True) now jobs = (rest, offered')" "sent = job # rest"
      using Cons.prems False by (auto split: prod.splits)
    note IH = Cons.IH [OF r(1)]
    have pos: "now - now < OFFER_INTERVAL_MS" by (simp add: OFFER_INTERVAL_MS_def)
    have fresh: "pj_id j \<noteq> pj_id job" if "j \<in> set rest" for j using IH that pos by (fastforce simp: not_le)
    have last: "jm_get offered' (pj_id job) = Some now" using IH pos by simp
    have old: "now - t \<ge> OFFER_INTERVAL_MS" if "jm_get offered (pj_id job) = Some t" for t using False that by simp
    have kept: "jm_get offered' i = Some t" if "jm_get offered i = Some t" "now - t < OFFER_INTERVAL_MS" for i t
      using IH that old [of t] by (cases "i = pj_id job") auto
    have others: "(\<forall>t. jm_get offered (pj_id j) = Some t \<longrightarrow> now - t \<ge> OFFER_INTERVAL_MS) \<and> jm_get offered' (pj_id j) = Some now"
      if "j \<in> set rest" for j
      using IH fresh [OF that] that by simp
    have "pj_id job \<notin> pj_id ` set rest" using fresh by force
    then have "distinct (map pj_id sent)" using IH r(2) by simp
    then show ?thesis using last old kept others r(2) by auto
  qed
qed simp

lemma pump_step_spaced:
  assumes "pump_step now p ts C = (sent, ts', C')"
  shows "spaced_step C now sent C'"
proof -
  let ?ws = "pp_socket p"
  let ?recent = "filter (\<lambda>e. \<not> now - snd e \<ge> OFFER_INTERVAL_MS) (cache_of C ?ws)"
  have keep: "spaced_step C now [] (C(?ws \<mapsto> cache_of C ?ws))"
    by (simp add: spaced_step_def last_offer_def cache_of_def)
  consider "sent = []" "C' = C" | "sent = []" "C' = C(?ws \<mapsto> cache_of C ?ws)"
    | due jobs cache where "offerTaskJobs (\<lambda>_. due) (pp_key p) (\<lambda>_. True) (cache_of C ?ws) now = (jobs, cache)" "pp_key p \<notin> {None, Some []}"
        "sent = map (Pair ?ws) jobs" "C' = C(?ws \<mapsto> cache)"
  proof -
    obtain due ts1 where n: "node_due ts (pp_room p) (opt_js (pp_key p)) now (map fst ?recent) = (due, ts1)" by fastforce
    obtain jobs cache where offers: "offerTaskJobs (\<lambda>_. due) (pp_key p) (\<lambda>_. True) (cache_of C ?ws) now = (jobs, cache)" by fastforce
    show ?thesis
    proof (cases "\<not> pp_open p \<or> pp_role p \<noteq> Some Machine \<or> \<not> pp_taskDispatch p")
      case True
      then show ?thesis using assms that(1) by (simp add: pump_step_def)
    next
      case False
      show ?thesis
      proof (cases "pp_key p \<in> {None, Some []}")
        case True
        then show ?thesis using assms False that(2) by (simp add: pump_step_def Let_def)
      next
        case named: False
        have "pump_step now p ts C = (map (Pair ?ws) jobs, ts1, C(?ws \<mapsto> cache))"
          using False named n offers by (auto simp: pump_step_def Let_def)
        then show ?thesis using assms that(3) [OF offers named] by simp
      qed
    qed
  qed
  then show ?thesis
  proof cases
    case (3 due jobs cache)
    have s: "send_offers ?recent (\<lambda>_. True) now due = (jobs, cache)" using 3(1,2) by (auto simp: offerTaskJobs_def Let_def split: option.splits if_splits)
    have recent: "jm_get ?recent i = Some t" if "jm_get (cache_of C ?ws) i = Some t" "now - t < OFFER_INTERVAL_MS" for i t
      using that recent_get [of "cache_of C ?ws" i t] by (simp add: jm_get_def)
    have same: "last_offer C' ws i = (if ws = ?ws then jm_get cache i else last_offer C ws i)" for ws i
      by (simp add: 3(4) last_offer_def cache_of_def)
    have d: "distinct (map (\<lambda>(ws, j). (ws, pj_id j)) sent)"
      using conjunct2 [OF conjunct2 [OF send_offers_spaced [OF s]]] by (simp add: 3(3) distinct_map comp_def inj_on_def)
    show ?thesis unfolding spaced_step_def
    proof (intro conjI d allI impI)
      fix ws j assume "(ws, j) \<in> set sent"
      then have j: "ws = ?ws" "j \<in> set jobs" by (auto simp: 3(3))
      have "jm_get cache (pj_id j) = Some now" using send_offers_spaced [OF s] j(2) by blast
      then show "last_offer C' ws (pj_id j) = Some now" by (simp add: same j(1))
      show "now - t \<ge> OFFER_INTERVAL_MS" if "last_offer C ws (pj_id j) = Some t" for t
      proof (rule ccontr)
        assume "\<not> now - t \<ge> OFFER_INTERVAL_MS"
        then have "jm_get ?recent (pj_id j) = Some t" using recent [of "pj_id j" t] that j(1) by (simp add: last_offer_def)
        then show False using send_offers_spaced [OF s] j(2) \<open>\<not> now - t \<ge> OFFER_INTERVAL_MS\<close> by blast
      qed
    next
      fix ws i t assume "last_offer C ws i = Some t" "now - t < OFFER_INTERVAL_MS"
      then show "last_offer C' ws i = Some t"
        using conjunct1 [OF conjunct2 [OF send_offers_spaced [OF s]]] recent [of i t] unfolding same by (auto simp: last_offer_def)
    qed
  qed (simp_all add: spaced_none keep)
qed

lemma pump_spaced: "nodeTaskDispatchPump now peers ts C = (sent, ts', C') \<Longrightarrow> spaced_step C now sent C'"
proof (induction peers arbitrary: ts C sent)
  case (Cons p peers)
  obtain s1 t1 C1 where 1: "pump_step now p ts C = (s1, t1, C1)" by (metis prod_cases3)
  obtain s2 where 2: "nodeTaskDispatchPump now peers t1 C1 = (s2, ts', C')" using Cons.prems 1 by (auto split: prod.splits)
  show ?case using spaced_join [OF pump_step_spaced [OF 1] Cons.IH [OF 2]] Cons.prems 1 2 by simp
qed (simp add: spaced_none)

lemma run_times: "(t', x) \<in> set (pump_run ticks C) \<Longrightarrow> t' \<in> set (map fst ticks)"
proof (induction ticks arbitrary: C)
  case (Cons tick ticks)
  then show ?case by (cases tick) (auto split: prod.splits)
qed simp

text \<open>A remembered offer keeps its job from being offered again too early.\<close>

lemma run_waits:
  assumes "sorted (map fst ticks)" "(t', ws, j) \<in> set (pump_run ticks C)" "last_offer C ws (pj_id j) = Some t"
  shows "t + OFFER_INTERVAL_MS \<le> t'"
  using assms
proof (induction ticks arbitrary: C)
  case (Cons tick ticks)
  obtain now peers ts where tick: "tick = (now, peers, ts)" by (metis prod_cases3)
  obtain sent ts1 C1 where p: "nodeTaskDispatchPump now peers ts C = (sent, ts1, C1)" by (metis prod_cases3)
  note s = pump_spaced [OF p, unfolded spaced_step_def]
  show ?case
  proof (cases "(t', ws, j) \<in> set (pump_run ticks C1)")
    case True
    then have "now \<le> t'" using run_times [OF True] Cons.prems(1) tick by auto
    show ?thesis
    proof (cases "now - t < OFFER_INTERVAL_MS")
      case True
      then have "last_offer C1 ws (pj_id j) = Some t" using s Cons.prems(3) by blast
      then show ?thesis using Cons.IH [OF _ \<open>(t', ws, j) \<in> set (pump_run ticks C1)\<close>] Cons.prems(1) tick by simp
    qed (use \<open>now \<le> t'\<close> in simp)
  next
    case False
    then have "t' = now" "(ws, j) \<in> set sent" using Cons.prems(2) tick p by auto
    then show ?thesis using s Cons.prems(3) by fastforce
  qed
qed simp

text \<open>C38: The Node relay does not flood a computer with a job. However often the pump runs, and whatever the sockets and jobs are
  at each run, two offers of the same job to the same socket are at least 15 seconds apart.\<close>

theorem offers_spaced:
  assumes "sorted (map fst ticks)"
  shows "sorted_wrt (\<lambda>(t, ws, j) (t', ws', j'). ws' = ws \<longrightarrow> pj_id j' = pj_id j \<longrightarrow> t + OFFER_INTERVAL_MS \<le> t') (pump_run ticks C)"
  using assms
proof (induction ticks arbitrary: C)
  case (Cons tick ticks)
  obtain now peers ts where tick: "tick = (now, peers, ts)" by (metis prod_cases3)
  obtain sent ts1 C1 where p: "nodeTaskDispatchPump now peers ts C = (sent, ts1, C1)" by (metis prod_cases3)
  note s = pump_spaced [OF p, unfolded spaced_step_def]
  have later: "now + OFFER_INTERVAL_MS \<le> t'" if "(ws, j) \<in> set sent" "(t', ws, j') \<in> set (pump_run ticks C1)" "pj_id j' = pj_id j" for ws j t' j'
    using run_waits [OF _ that(2), of now] s that(1,3) Cons.prems tick by simp
  have "sorted_wrt (\<lambda>(ws, j) (ws', j'). \<not> (ws' = ws \<and> pj_id j' = pj_id j)) sent"
    using s by (induction sent) (auto simp: image_iff split: prod.splits)
  then have "sorted_wrt (\<lambda>(t, ws, j) (t', ws', j'). ws' = ws \<longrightarrow> pj_id j' = pj_id j \<longrightarrow> t + OFFER_INTERVAL_MS \<le> t') (map (Pair now) sent)"
    by (auto simp: sorted_wrt_map elim!: sorted_wrt_mono_rel [rotated])
  then show ?case using later Cons.IH [of C1] Cons.prems by (auto simp: tick p sorted_wrt_append)
qed simp

section \<open>Task requests\<close>

text \<open>The jobs that a request makes the object offer are offerable to the machines they are offered to.\<close>

lemma dispatch_offers:
  assumes "handleRoomTaskDispatch e now request s = (reply, outs, s', ok)" "x \<in> set outs" "jm_wf (ro_sockets s)"
  shows "r_method request = ''PUT'' \<and> (\<exists>ws a job. jm_get (ro_sockets s) ws = Some a \<and> x = Room_offer ws job \<and> offerable now a job)"
proof -
  obtain owner auth where a: "worker_authorize (re_sha e) (es_auth (ro_endpoints s)) (bearer (header ''authorization'' request)) False = (owner, auth)"
    by fastforce
  have "x \<in> run_outs (snd (handleRoomTaskDispatch e now request s))" using assms(1,2) by simp
  then obtain tasks where "r_method request = ''PUT''"
    "x \<in> run_outs (offerRoomTaskJobs e now (s\<lparr>ro_tasks := tasks, ro_endpoints := (ro_endpoints s)\<lparr>es_auth := auth\<rparr>\<rparr>))"
    unfolding handleRoomTaskDispatch_def a
    by (auto simp: Let_def room_then_outs split: prod.splits option.splits if_splits)
  then show ?thesis using offers_outs assms(3) by fastforce
qed

section \<open>Witnesses\<close>


definition sample_peer :: pump_peer where
  "sample_peer = \<lparr>pp_socket = 1, pp_room = ''r'', pp_open = True, pp_role = Some Machine, pp_taskDispatch = True, pp_key = Some ''k''\<rparr>"

definition sample_due :: job where
  "sample_due = (new_job sample_job ''job-0001'' ''fp'' 0)\<lparr>j_expiresAt := 100000\<rparr>"

definition sample_ticks :: "(time \<times> pump_peer list \<times> task_table) list" where
  "sample_ticks = map (\<lambda>t. (t, [sample_peer], [((''r'', ''job-0001''), sample_due)])) [100, 1100, 15100]"

lemma sample_offered: "map fst (pump_run sample_ticks Map.empty) = [100, 15100]"
  by (simp add: sample_ticks_def sample_peer_def sample_due_def sample_job_def new_job_def pump_step_def cache_of_def node_due_def
      expireQueued_def expireJob_def task_rows_def opt_js_def offerTaskJobs_def OFFER_INTERVAL_MS_def publicJob_def jm_get_def Let_def image_iff)

theorem offers_spaced_witness:
  "map fst (pump_run sample_ticks Map.empty) = [100, 15100]
   \<and> sorted_wrt (\<lambda>(t, ws, j) (t', ws', j'). ws' = ws \<longrightarrow> pj_id j' = pj_id j \<longrightarrow> t + OFFER_INTERVAL_MS \<le> t') (pump_run sample_ticks Map.empty)"
  using sample_offered offers_spaced [of sample_ticks Map.empty] by (simp add: sample_ticks_def)

end
