(* ===== verification/Client_Access.thy ===== *)
theory Client_Access
  imports Managed_Admission Complex_Main
begin

text \<open>
  The client of the quota service and its local quota (\<open>createClientAccess\<close> of \<open>src/node/hostwatch-client.mjs\<close>): while
  the service cannot be reached, token buckets and leases of the process itself bound what is admitted. Shows: in a
  local decision the leases granted stay within the ceilings of the policy, and in any run of local decisions the
  requests admitted stay within the burst and rate of the service, also when idle buckets are dropped.

  \<open>tag\<close> stands for the HMAC of an identity, \<open>remote\<close> for the answer of the service. Bucket levels are rational numbers;
  the program rounds them to doubles. An admission is one step with the answer of the service; a local decision is
  one step of the program as well.
\<close>

section \<open>Policy and buckets\<close>

record tier =
  ti_accountRpm :: nat
  ti_deviceRpm :: nat
  ti_accountConnections :: nat
  ti_deviceConnections :: nat

record quota_policy =
  po_serviceRpm :: nat
  po_serviceConnections :: nat
  po_anonymousRpm :: nat
  po_anonymousConnections :: nat
  po_tiers :: "string \<rightharpoonup> tier"
  po_registered :: tier

definition defaultPolicy :: quota_policy where
  "defaultPolicy =
     (let registered = \<lparr>ti_accountRpm = 600, ti_deviceRpm = 300, ti_accountConnections = 32, ti_deviceConnections = 8\<rparr>;
          paid = \<lparr>ti_accountRpm = 2400, ti_deviceRpm = 1200, ti_accountConnections = 128, ti_deviceConnections = 12\<rparr>
      in \<lparr>po_serviceRpm = 30000, po_serviceConnections = 1024, po_anonymousRpm = 1200, po_anonymousConnections = 32,
          po_tiers = [''registered'' \<mapsto> registered, ''subscriber'' \<mapsto> paid, ''beta'' \<mapsto> paid], po_registered = registered\<rparr>)"

record bucket =
  b_tokens :: rat
  b_at :: time

type_synonym buckets = "(string, bucket) jmap"

definition FALLBACK_LIMIT :: nat where "FALLBACK_LIMIT = 32768"
definition BUCKET_IDLE_MS :: int where "BUCKET_IDLE_MS = 120000"

definition bucket_cap :: "nat \<Rightarrow> rat" where
  "bucket_cap rpm = max 3 (min 200 (of_nat rpm / 10))"

definition sweep_buckets :: "time \<Rightarrow> buckets \<Rightarrow> buckets" where
  "sweep_buckets now bs = (if length bs \<ge> FALLBACK_LIMIT then filter (\<lambda>e. \<not> now - b_at (snd e) > BUCKET_IDLE_MS) bs else bs)"

definition gain :: "nat \<Rightarrow> int \<Rightarrow> rat" where
  "gain rpm elapsed = of_int elapsed * of_nat rpm / 60000"

definition refilled :: "nat \<Rightarrow> time \<Rightarrow> bucket \<Rightarrow> rat" where
  "refilled rpm now v = min (bucket_cap rpm) (b_tokens v + gain rpm (now - b_at v))"

definition spend :: "string \<Rightarrow> nat \<Rightarrow> time \<Rightarrow> buckets \<Rightarrow> bool \<times> buckets" where
  "spend i rpm now bs =
     (let bs1 = sweep_buckets now bs;
          v = (case jm_get bs1 i of None \<Rightarrow> \<lparr>b_tokens = bucket_cap rpm, b_at = now\<rparr> | Some v \<Rightarrow> v)
      in if jm_get bs1 i = None \<and> length bs1 \<ge> FALLBACK_LIMIT then (False, bs1)
         else let tokens = refilled rpm now v; allowed = tokens \<ge> 1
           in (allowed, jm_set bs1 i \<lparr>b_tokens = (if allowed then tokens - 1 else tokens), b_at = now\<rparr>))"

section \<open>Local decisions\<close>

datatype operation = Request_op | Connect_op | Renew_op | Release_op

record admission =
  ad_operation :: operation
  ad_category :: string
  ad_clientIp :: "string option"
  ad_identityKind :: "string option"
  ad_account :: "string option"
  ad_device :: "string option"
  ad_expiresAt :: time
  ad_leaseId :: "string option"

record access_state =
  as_buckets :: buckets
  as_leases :: "(string, admission) jmap"
  as_policy :: quota_policy

definition local_decision :: "admission \<Rightarrow> decision" where
  "local_decision a = \<lparr>dc_allowed = True, dc_category = ad_category a, dc_reason = ''local-fallback'', dc_fallback = True,
     dc_leaseId = None, dc_retryAfter = 0\<rparr>"

definition deny :: "string \<Rightarrow> decision \<Rightarrow> decision" where
  "deny reason d = d\<lparr>dc_allowed := False, dc_reason := reason, dc_retryAfter := 5\<rparr>"

definition account_key :: "admission \<Rightarrow> string" where
  "account_key a = ''a:'' @ (case ad_account a of None \<Rightarrow> ''undefined'' | Some x \<Rightarrow> x)"

definition device_key :: "admission \<Rightarrow> string" where
  "device_key a = ''d:'' @ (case ad_account a of None \<Rightarrow> ''undefined'' | Some x \<Rightarrow> x) @ '':'' @ (case ad_device a of None \<Rightarrow> ''undefined'' | Some x \<Rightarrow> x)"

definition network_key :: "(string \<Rightarrow> string \<Rightarrow> string) \<Rightarrow> admission \<Rightarrow> string" where
  "network_key tag a = ''n:'' @ tag ''ip'' (case ad_clientIp a of None \<Rightarrow> [] | Some x \<Rightarrow> x)"

definition tier_of :: "quota_policy \<Rightarrow> admission \<Rightarrow> tier" where
  "tier_of p a = (case po_tiers p (ad_category a) of None \<Rightarrow> po_registered p | Some t \<Rightarrow> t)"

text \<open>The rates, in the order they are spent; \<open>Some\<close> is the reason of a refusal.\<close>

definition spend_rates :: "(string \<Rightarrow> string \<Rightarrow> string) \<Rightarrow> quota_policy \<Rightarrow> admission \<Rightarrow> time \<Rightarrow> buckets \<Rightarrow> string option \<times> buckets" where
  "spend_rates tag p a now bs =
     (let (account_ok, bs1) = (if ad_account a \<noteq> None then spend (account_key a) (ti_accountRpm (tier_of p a)) now bs else (True, bs)) in
      if \<not> account_ok then (Some ''account-rate'', bs1)
      else let (device_ok, bs2) = (if ad_device a \<noteq> None then spend (device_key a) (ti_deviceRpm (tier_of p a)) now bs1 else (True, bs1)) in
      if \<not> device_ok then (Some ''device-rate'', bs2)
      else let (network_ok, bs3) = (if ad_account a = None then spend (network_key tag a) (po_anonymousRpm p) now bs2 else (True, bs2)) in
      (if network_ok then None else Some ''anonymous-network-rate'', bs3))"

definition count_leases :: "(admission \<Rightarrow> bool) \<Rightarrow> (string, admission) jmap \<Rightarrow> nat" where
  "count_leases P ls = length (filter (\<lambda>e. P (snd e)) ls)"

definition same_account :: "admission \<Rightarrow> admission \<Rightarrow> bool" where
  "same_account a x \<longleftrightarrow> ad_account x = ad_account a"

definition same_device :: "admission \<Rightarrow> admission \<Rightarrow> bool" where
  "same_device a x \<longleftrightarrow> ad_account x = ad_account a \<and> ad_device x = ad_device a"

definition same_network :: "admission \<Rightarrow> admission \<Rightarrow> bool" where
  "same_network a x \<longleftrightarrow> ad_account x = None \<and> ad_clientIp x = ad_clientIp a"

definition connection_refusal :: "quota_policy \<Rightarrow> admission \<Rightarrow> (string, admission) jmap \<Rightarrow> string option" where
  "connection_refusal p a ls =
     (if ad_account a = None \<and> count_leases (same_network a) ls \<ge> po_anonymousConnections p then Some ''anonymous-network-connections''
      else if length ls \<ge> po_serviceConnections p then Some ''service-connections''
      else if ad_account a \<noteq> None \<and> count_leases (same_account a) ls \<ge> ti_accountConnections (tier_of p a) then Some ''account-connections''
      else if ad_device a \<noteq> None \<and> count_leases (same_device a) ls \<ge> ti_deviceConnections (tier_of p a) then Some ''device-connections''
      else None)"

text \<open>A bucket as it was before the decision.\<close>

definition restore :: "string \<Rightarrow> buckets \<Rightarrow> buckets \<Rightarrow> buckets" where
  "restore i before bs = (case jm_get before i of None \<Rightarrow> jm_delete bs i | Some v \<Rightarrow> jm_set bs i v)"

definition live_leases :: "time \<Rightarrow> (string, admission) jmap \<Rightarrow> (string, admission) jmap" where
  "live_leases now ls = filter (\<lambda>e. \<not> ad_expiresAt (snd e) \<le> now) ls"

text \<open>\<open>fresh\<close> is the random lease id a new lease would get.\<close>

definition lease_id :: "string \<Rightarrow> admission \<Rightarrow> string" where
  "lease_id fresh a = (case ad_leaseId a of Some l \<Rightarrow> if l = [] then fresh else l | None \<Rightarrow> fresh)"

definition boundedFallback ::
  "(string \<Rightarrow> string \<Rightarrow> string) \<Rightarrow> string \<Rightarrow> time \<Rightarrow> admission \<Rightarrow> access_state \<Rightarrow> decision \<times> access_state" where
  "boundedFallback tag fresh now a s =
     (let ls = live_leases now (as_leases s); d = local_decision a; p = as_policy s; known = (case ad_leaseId a of None \<Rightarrow> [] | Some l \<Rightarrow> l) in
      if ad_operation a = Release_op then (d, s\<lparr>as_leases := jm_delete ls known\<rparr>)
      else if ad_operation a = Renew_op \<and> jm_get ls known \<noteq> None then (d\<lparr>dc_leaseId := Some known\<rparr>, s\<lparr>as_leases := jm_set ls known a\<rparr>)
      else (case spend_rates tag p a now (as_buckets s) of (refusal, bs1) \<Rightarrow>
        let refusal1 = (if refusal \<noteq> None then refusal
              else if ad_operation a \<in> {Connect_op, Renew_op} then connection_refusal p a ls else None);
            leased = (refusal1 = None \<and> ad_operation a \<in> {Connect_op, Renew_op});
            l = lease_id fresh a;
            d1 = (case refusal1 of Some r \<Rightarrow> deny r d | None \<Rightarrow> if leased then d\<lparr>dc_leaseId := Some l\<rparr> else d);
            ls1 = (if leased then jm_set ls l a else ls);
            (service_ok, bs2) = (if refusal1 = None \<and> ad_operation a \<noteq> Renew_op then spend ''service'' (po_serviceRpm p) now bs1 else (True, bs1));
            d2 = (if service_ok then d1 else deny ''service-rate'' d1);
            ls2 = (if service_ok then ls1 else if leased then jm_delete ls1 l else ls1);
            bs3 = (if \<not> dc_allowed d2 \<and> ad_account a \<noteq> None
                   then restore (device_key a) (as_buckets s) (restore (account_key a) (as_buckets s) bs2) else bs2)
        in (d2, s\<lparr>as_buckets := bs3, as_leases := ls2\<rparr>)))"

section \<open>The answer of the service\<close>

record access_identity =
  qi_category :: string
  qi_account :: js
  qi_device :: js
  qi_expiresAt :: js
  qi_clientIp :: "string option"
  qi_kind :: "string option"

datatype remote_answer = Remote_decision decision quota_policy | Remote_rejected bool | Remote_down

text \<open>What identifies a client besides its address: absent, or a proof that is still good for this operation.\<close>

definition identity_ok :: "time \<Rightarrow> operation \<Rightarrow> access_identity \<Rightarrow> bool" where
  "identity_ok now op i \<longleftrightarrow> qi_category i \<in> {''anonymous'', ''registered'', ''subscriber'', ''beta''}
     \<and> (qi_category i \<noteq> ''anonymous'' \<longrightarrow> is_string (qi_account i) \<and> str_of (qi_account i) \<noteq> [] \<and> is_string (qi_device i)
        \<and> str_of (qi_device i) \<noteq> [] \<and> isSafeInteger (qi_expiresAt i)
        \<and> (op = Release_op \<or> num_of (qi_expiresAt i) > now \<and> num_of (qi_expiresAt i) \<le> now + 360000))"

definition refusal_decision :: "string \<Rightarrow> string \<Rightarrow> int \<Rightarrow> decision" where
  "refusal_decision category reason retryAfter = \<lparr>dc_allowed = False, dc_category = category, dc_reason = reason, dc_fallback = False,
     dc_leaseId = None, dc_retryAfter = retryAfter\<rparr>"

definition admission_of :: "(string \<Rightarrow> string \<Rightarrow> string) \<Rightarrow> time \<Rightarrow> access_identity \<Rightarrow> operation \<Rightarrow> string option \<Rightarrow> access_state \<Rightarrow> admission" where
  "admission_of tag now i op leaseId s =
     (let l = (if leaseId = Some [] then None else leaseId);
          established = (if op \<in> {Renew_op, Release_op} then Option.bind l (jm_get (as_leases s)) else None);
          identified = qi_category i \<noteq> ''anonymous''
      in \<lparr>ad_operation = op, ad_category = qi_category i,
          ad_clientIp = (case Option.bind established ad_clientIp of Some x \<Rightarrow> Some x | None \<Rightarrow> qi_clientIp i),
          ad_identityKind = (case Option.bind established ad_identityKind of Some x \<Rightarrow> Some x | None \<Rightarrow> qi_kind i),
          ad_account = (if identified then Some (tag ''account'' (str_of (qi_account i))) else None),
          ad_device = (if identified then Some (tag ''device'' (str_of (qi_device i))) else None),
          ad_expiresAt = (if identified then num_of (qi_expiresAt i) else now + 30000), ad_leaseId = l\<rparr>)"

text \<open>What is remembered of a decision of the service.\<close>

definition remember :: "admission \<Rightarrow> string option \<Rightarrow> decision \<Rightarrow> quota_policy \<Rightarrow> access_state \<Rightarrow> access_state" where
  "remember a leaseId d p s =
     (let known = (case leaseId of None \<Rightarrow> [] | Some l \<Rightarrow> l); granted = (case dc_leaseId d of None \<Rightarrow> [] | Some l \<Rightarrow> l);
          ls1 = (if dc_allowed d \<and> granted \<noteq> [] then jm_set (as_leases s) granted a else as_leases s);
          ls2 = (if ad_operation a = Renew_op \<and> dc_allowed d \<and> granted \<noteq> [] \<and> granted \<noteq> known then jm_delete ls1 known else ls1);
          ls3 = (if ad_operation a = Release_op then jm_delete ls2 known else ls2)
      in s\<lparr>as_leases := ls3, as_policy := p\<rparr>)"

definition admit ::
  "(string \<Rightarrow> string \<Rightarrow> string) \<Rightarrow> (admission \<Rightarrow> remote_answer) \<Rightarrow> string \<Rightarrow> time \<Rightarrow> access_identity \<Rightarrow> operation \<Rightarrow> string option
     \<Rightarrow> access_state \<Rightarrow> decision \<times> access_state" where
  "admit tag remote fresh now i op leaseId s =
     (if \<not> identity_ok now op i then (refusal_decision ''anonymous'' ''invalid-proof'' 0, s)
      else let a = admission_of tag now i op leaseId s;
               answer = (case remote a of
                   Remote_rejected True \<Rightarrow> if op = Renew_op then remote (a\<lparr>ad_operation := Connect_op, ad_leaseId := None\<rparr>) else Remote_rejected True
                 | r \<Rightarrow> r)
        in case answer of
             Remote_decision d p \<Rightarrow> (d, remember a leaseId d p s)
           | Remote_rejected _ \<Rightarrow> (refusal_decision (qi_category i) ''adapter-proof-rejected'' 5, s)
           | Remote_down \<Rightarrow> boundedFallback tag fresh now a s)"

text \<open>\<open>close\<close>: every lease is released, and forgotten whatever the service answers.\<close>

definition access_close :: "access_state \<Rightarrow> admission list \<times> access_state" where
  "access_close s = (map (\<lambda>(l, a). a\<lparr>ad_operation := Release_op, ad_leaseId := Some l\<rparr>) (as_leases s), s\<lparr>as_leases := []\<rparr>)"

section \<open>Leases\<close>

lemma count_set: "count_leases P (jm_set ls k a) \<le> Suc (count_leases P ls)"
  by (induction ls k a rule: jm_set.induct) (auto simp: count_leases_def)

lemma length_set: "length (jm_set m k v) \<le> Suc (length m)"
  by (induction m k v rule: jm_set.induct) auto

lemma within_ceilings:
  assumes "connection_refusal p a ls = None"
  shows "length (jm_set ls l a) \<le> po_serviceConnections p"
    "ad_account a \<noteq> None \<Longrightarrow> count_leases (same_account a) (jm_set ls l a) \<le> ti_accountConnections (tier_of p a)"
    "ad_device a \<noteq> None \<Longrightarrow> count_leases (same_device a) (jm_set ls l a) \<le> ti_deviceConnections (tier_of p a)"
    "ad_account a = None \<Longrightarrow> count_leases (same_network a) (jm_set ls l a) \<le> po_anonymousConnections p"
  using assms length_set [of ls l a] count_set [of "same_account a" ls l a] count_set [of "same_device a" ls l a]
    count_set [of "same_network a" ls l a]
  by (auto simp: connection_refusal_def split: if_splits)


section \<open>The level of the service bucket\<close>

definition service_level :: "nat \<Rightarrow> time \<Rightarrow> buckets \<Rightarrow> rat" where
  "service_level rpm now bs = (case jm_get bs ''service'' of None \<Rightarrow> bucket_cap rpm | Some v \<Rightarrow> refilled rpm now v)"

definition buckets_ok :: "time \<Rightarrow> buckets \<Rightarrow> bool" where
  "buckets_ok now bs \<longleftrightarrow> jm_wf bs \<and> (\<forall>v. jm_get bs ''service'' = Some v \<longrightarrow> 0 \<le> b_tokens v \<and> b_at v \<le> now)"

definition level_kept :: "nat \<Rightarrow> time \<Rightarrow> buckets \<Rightarrow> buckets \<Rightarrow> bool" where
  "level_kept rpm now bs bs' \<longleftrightarrow> buckets_ok now bs' \<and> service_level rpm now bs' = service_level rpm now bs"

lemma level_kept_refl: "buckets_ok now bs \<Longrightarrow> level_kept rpm now bs bs"
  by (simp add: level_kept_def)

lemma level_kept_trans: "level_kept rpm now a b \<Longrightarrow> level_kept rpm now b c \<Longrightarrow> level_kept rpm now a c"
  by (simp add: level_kept_def)

lemma gain_split: "gain rpm (z - x) = gain rpm (y - x) + gain rpm (z - y)"
  by (simp add: gain_def field_simps)

lemma gain_pos: "0 \<le> elapsed \<Longrightarrow> 0 \<le> gain rpm elapsed"
  by (simp add: gain_def)

lemma gain_none [simp]: "gain rpm 0 = 0"
  by (simp add: gain_def)

lemma cap_pos: "3 \<le> bucket_cap rpm"
  by (simp add: bucket_cap_def)

lemma refilled_pos: "0 \<le> b_tokens v \<Longrightarrow> b_at v \<le> now \<Longrightarrow> 0 \<le> refilled rpm now v"
  using cap_pos [of rpm] gain_pos [of "now - b_at v" rpm] by (simp add: refilled_def)

lemma cap_idle: "2 \<le> rpm \<Longrightarrow> bucket_cap rpm \<le> 2 * of_nat rpm"
proof -
  assume "2 \<le> rpm"
  then have "(2 :: rat) \<le> of_nat rpm" by (metis of_nat_le_iff of_nat_numeral)
  then show ?thesis by (simp add: bucket_cap_def min_def)
qed

lemma refilled_idle:
  assumes "2 \<le> rpm" "0 \<le> b_tokens v" "now - b_at v > BUCKET_IDLE_MS"
  shows "refilled rpm now v = bucket_cap rpm"
proof -
  have "(120000 :: rat) \<le> of_int (now - b_at v)" using assms(3) by (simp add: BUCKET_IDLE_MS_def del: of_int_diff)
  then have "2 * of_nat rpm \<le> gain rpm (now - b_at v)"
    using mult_right_mono [of 120000 "of_int (now - b_at v) :: rat" "of_nat rpm"] by (simp add: gain_def field_simps)
  then show ?thesis using cap_idle [OF assms(1)] assms(2) by (simp add: refilled_def)
qed

lemma filter_get: "jm_wf m \<Longrightarrow> jm_get (filter P m) k = (case jm_get m k of None \<Rightarrow> None | Some v \<Rightarrow> if P (k, v) then Some v else None)"
  by (induction m) (auto simp: jm_get_def jm_wf_def map_of_eq_None_iff split: option.splits)

lemma sweep_kept:
  assumes "buckets_ok now bs" "2 \<le> rpm"
  shows "level_kept rpm now bs (sweep_buckets now bs)"
proof -
  have wf: "jm_wf bs" using assms(1) by (simp add: buckets_ok_def)
  then have "jm_wf (sweep_buckets now bs)" by (simp add: sweep_buckets_def jm_wf_def distinct_map_filter)
  moreover have "\<And>v. jm_get (sweep_buckets now bs) ''service'' = Some v \<Longrightarrow> jm_get bs ''service'' = Some v"
    using wf by (auto simp: sweep_buckets_def filter_get split: option.splits if_splits)
  moreover have "service_level rpm now (sweep_buckets now bs) = service_level rpm now bs"
    using assms wf refilled_idle [OF assms(2)]
    by (auto simp: sweep_buckets_def service_level_def filter_get buckets_ok_def split: option.splits)
  ultimately show ?thesis using assms(1) by (simp add: level_kept_def buckets_ok_def)
qed

lemma other_set_kept: "buckets_ok now bs \<Longrightarrow> i \<noteq> ''service'' \<Longrightarrow> level_kept rpm now bs (jm_set bs i v)"
  by (simp add: level_kept_def buckets_ok_def service_level_def)

lemma other_spend_kept:
  assumes "buckets_ok now bs" "2 \<le> rpm" "i \<noteq> ''service''" "spend i r now bs = (b, bs')"
  shows "level_kept rpm now bs bs'"
proof -
  note k = sweep_kept [OF assms(1,2)]
  then have "buckets_ok now (sweep_buckets now bs)" by (simp add: level_kept_def)
  then show ?thesis using assms(3,4) k level_kept_trans [OF k other_set_kept]
    by (auto simp: spend_def Let_def split: if_splits)
qed

lemma service_spend:
  assumes "buckets_ok now bs" "2 \<le> rpm" "spend ''service'' rpm now bs = (b, bs')"
  shows "buckets_ok now bs' \<and> service_level rpm now bs' = service_level rpm now bs - (if b then 1 else 0)"
proof -
  define bs1 where "bs1 = sweep_buckets now bs"
  define v where "v = (case jm_get bs1 ''service'' of None \<Rightarrow> \<lparr>b_tokens = bucket_cap rpm, b_at = now\<rparr> | Some v \<Rightarrow> v)"
  have k: "level_kept rpm now bs bs1" unfolding bs1_def by (rule sweep_kept [OF assms(1,2)])
  then have ok: "buckets_ok now bs1" "service_level rpm now bs1 = service_level rpm now bs" by (simp_all add: level_kept_def)
  have level: "refilled rpm now v = service_level rpm now bs1"
    by (cases "jm_get bs1 ''service''") (simp_all add: v_def service_level_def refilled_def)
  have "0 \<le> b_tokens v \<and> b_at v \<le> now" using ok(1) cap_pos [of rpm]
    by (cases "jm_get bs1 ''service''") (simp_all add: v_def buckets_ok_def)
  then have pos: "0 \<le> refilled rpm now v" by (simp add: refilled_pos)
  have top: "refilled rpm now v \<le> bucket_cap rpm" by (simp add: refilled_def)
  have same: "refilled rpm now \<lparr>b_tokens = x, b_at = now\<rparr> = x" if "x \<le> bucket_cap rpm" for x using that by (simp add: refilled_def)
  consider "b = False" "bs' = bs1" | "b = (refilled rpm now v \<ge> 1)"
      "bs' = jm_set bs1 ''service'' \<lparr>b_tokens = (if b then refilled rpm now v - 1 else refilled rpm now v), b_at = now\<rparr>"
    using assms(3) by (auto simp: spend_def Let_def bs1_def [symmetric] v_def [symmetric] split: if_splits)
  then show ?thesis
  proof cases
    case 2
    have "service_level rpm now bs' = (if b then refilled rpm now v - 1 else refilled rpm now v)"
      using same top by (simp add: 2(2) service_level_def)
    moreover have "buckets_ok now bs'" using ok(1) pos 2 by (simp add: buckets_ok_def)
    ultimately show ?thesis using level ok(2) by simp
  qed (use ok in simp)
qed

lemma keys_apart [simp]: "account_key a \<noteq> ''service''" "device_key a \<noteq> ''service''" "network_key tag a \<noteq> ''service''"
  by (simp_all add: account_key_def device_key_def network_key_def)

lemma restore_kept: "buckets_ok now bs \<Longrightarrow> i \<noteq> ''service'' \<Longrightarrow> level_kept rpm now bs (restore i before bs)"
  by (simp add: restore_def level_kept_def buckets_ok_def service_level_def split: option.splits)

lemma rates_kept:
  assumes "buckets_ok now bs" "2 \<le> rpm" "spend_rates tag p a now bs = (r, bs')"
  shows "level_kept rpm now bs bs'"
proof -
  obtain b1 bs1 where 1: "(if ad_account a \<noteq> None then spend (account_key a) (ti_accountRpm (tier_of p a)) now bs else (True, bs)) = (b1, bs1)" by fastforce
  obtain b2 bs2 where 2: "(if ad_device a \<noteq> None then spend (device_key a) (ti_deviceRpm (tier_of p a)) now bs1 else (True, bs1)) = (b2, bs2)" by fastforce
  obtain b3 bs3 where 3: "(if ad_account a = None then spend (network_key tag a) (po_anonymousRpm p) now bs2 else (True, bs2)) = (b3, bs3)" by fastforce
  have k1: "level_kept rpm now bs bs1" using 1 other_spend_kept [OF assms(1,2) keys_apart(1)] level_kept_refl [OF assms(1)] by (auto split: if_splits)
  then have o1: "buckets_ok now bs1" by (simp add: level_kept_def)
  have k2: "level_kept rpm now bs1 bs2" using 2 other_spend_kept [OF o1 assms(2) keys_apart(2)] level_kept_refl [OF o1] by (auto split: if_splits)
  then have o2: "buckets_ok now bs2" by (simp add: level_kept_def)
  have k3: "level_kept rpm now bs2 bs3" using 3 other_spend_kept [OF o2 assms(2) keys_apart(3)] level_kept_refl [OF o2] by (auto split: if_splits)
  have "bs' = bs1 \<or> bs' = bs2 \<or> bs' = bs3" using assms(3) unfolding spend_rates_def Let_def 1 2 3 case_prod_conv by (auto split: if_splits)
  then show ?thesis using k1 level_kept_trans [OF k1 k2] level_kept_trans [OF level_kept_trans [OF k1 k2] k3] by auto
qed

text \<open>The last part of a local decision: the leases, the service bucket and the refund, after the rates.\<close>

lemma fallback_decided:
  assumes "boundedFallback tag fresh now a s = (d, s')" "ad_operation a \<noteq> Release_op"
    and new: "\<not> (ad_operation a = Renew_op \<and> jm_get (live_leases now (as_leases s)) (case ad_leaseId a of None \<Rightarrow> [] | Some l \<Rightarrow> l) \<noteq> None)"
    and rates: "spend_rates tag (as_policy s) a now (as_buckets s) = (refusal, bs1)"
  defines "ls \<equiv> live_leases now (as_leases s)"
  defines "refusal1 \<equiv> (if refusal \<noteq> None then refusal
     else if ad_operation a \<in> {Connect_op, Renew_op} then connection_refusal (as_policy s) a ls else None)"
  obtains (denied) bs2 where "\<not> dc_allowed d" "bs2 = bs1 \<or> refusal1 = None \<and> ad_operation a \<noteq> Renew_op \<and> spend ''service'' (po_serviceRpm (as_policy s)) now bs1 = (False, bs2)"
      "as_buckets s' = (if ad_account a \<noteq> None then restore (device_key a) (as_buckets s) (restore (account_key a) (as_buckets s) bs2) else bs2)"
      "as_policy s' = as_policy s"
  | (allowed) "dc_allowed d" "refusal1 = None"
      "if ad_operation a = Renew_op then as_buckets s' = bs1 else spend ''service'' (po_serviceRpm (as_policy s)) now bs1 = (True, as_buckets s')"
      "ad_operation a \<in> {Connect_op, Renew_op} \<Longrightarrow> as_leases s' = jm_set ls (lease_id fresh a) a" "as_policy s' = as_policy s"
proof -
  have op: "ad_operation a \<in> {Connect_op, Renew_op} \<or> ad_operation a = Request_op" using assms(2) by (cases "ad_operation a") simp_all
  note b = assms(1) [unfolded boundedFallback_def Let_def rates ls_def [symmetric] local_decision_def]
  show ?thesis
  proof (cases refusal1)
    case (Some r)
    then show ?thesis using assms(2) new b unfolding refusal1_def ls_def [symmetric]
      by (intro denied [of bs1]) (auto simp: deny_def split: if_splits)
  next
    case None
    obtain ok bs2 where sv: "(if ad_operation a \<noteq> Renew_op then spend ''service'' (po_serviceRpm (as_policy s)) now bs1 else (True, bs1)) = (ok, bs2)"
      by fastforce
    show ?thesis
    proof (cases ok)
      case True
      then show ?thesis using assms(2) new b None sv op unfolding refusal1_def ls_def [symmetric]
        by (intro allowed) (auto simp: refusal1_def split: if_splits)
    next
      case False
      then show ?thesis using assms(2) new b None sv op unfolding refusal1_def ls_def [symmetric]
        by (intro denied [of bs2]) (auto simp: deny_def refusal1_def split: if_splits)
    qed
  qed
qed

text \<open>A request or a new connection that a local decision admits costs the service one token, and nothing else does.\<close>

definition costs :: "admission \<Rightarrow> decision \<Rightarrow> bool" where
  "costs a d \<longleftrightarrow> dc_allowed d \<and> ad_operation a \<in> {Request_op, Connect_op}"

lemma fallback_level:
  assumes ok: "buckets_ok now (as_buckets s)" and rpm: "2 \<le> po_serviceRpm (as_policy s)"
    and f: "boundedFallback tag fresh now a s = (d, s')"
  shows "as_policy s' = as_policy s \<and> buckets_ok now (as_buckets s')
    \<and> service_level (po_serviceRpm (as_policy s)) now (as_buckets s')
      = service_level (po_serviceRpm (as_policy s)) now (as_buckets s) - (if costs a d then 1 else 0)"
proof -
  let ?rpm = "po_serviceRpm (as_policy s)"
  let ?known = "case ad_leaseId a of None \<Rightarrow> [] | Some l \<Rightarrow> l"
  consider (release) "ad_operation a = Release_op" | (renew) "ad_operation a = Renew_op" "jm_get (live_leases now (as_leases s)) ?known \<noteq> None"
    | (decide) "ad_operation a \<noteq> Release_op" "\<not> (ad_operation a = Renew_op \<and> jm_get (live_leases now (as_leases s)) ?known \<noteq> None)"
    by blast
  then show ?thesis
  proof cases
    case release
    then show ?thesis using f ok by (auto simp: boundedFallback_def Let_def costs_def)
  next
    case renew
    then show ?thesis using f ok by (auto simp: boundedFallback_def Let_def costs_def)
  next
    case decide
    obtain refusal bs1 where r: "spend_rates tag (as_policy s) a now (as_buckets s) = (refusal, bs1)" by fastforce
    have k1: "level_kept ?rpm now (as_buckets s) bs1" by (rule rates_kept [OF ok rpm r])
    then have ok1: "buckets_ok now bs1" by (simp add: level_kept_def)
    from f decide r show ?thesis
    proof (cases rule: fallback_decided)
      case (denied bs2)
      have k2: "level_kept ?rpm now bs1 bs2" using denied(2) level_kept_refl [OF ok1] service_spend [OF ok1 rpm] by (auto simp: level_kept_def)
      then have ok2: "buckets_ok now bs2" by (simp add: level_kept_def)
      have k3: "level_kept ?rpm now bs2 (restore (account_key a) (as_buckets s) bs2)" by (rule restore_kept [OF ok2 keys_apart(1)])
      then have "level_kept ?rpm now bs2 (restore (device_key a) (as_buckets s) (restore (account_key a) (as_buckets s) bs2))"
        using level_kept_trans [OF k3 restore_kept [OF _ keys_apart(2)]] by (simp add: level_kept_def)
      then have "level_kept ?rpm now bs2 (as_buckets s')" using denied(3) level_kept_refl [OF ok2] by auto
      then have "level_kept ?rpm now (as_buckets s) (as_buckets s')" using level_kept_trans [OF level_kept_trans [OF k1 k2]] by blast
      then show ?thesis using denied(1,4) by (simp add: level_kept_def costs_def)
    next
      case allowed
      show ?thesis
      proof (cases "ad_operation a = Renew_op")
        case True
        then show ?thesis using allowed(3,5) k1 by (simp add: level_kept_def costs_def)
      next
        case False
        then have sp: "spend ''service'' ?rpm now bs1 = (True, as_buckets s')" using allowed(3) by simp
        have "costs a d" using False decide(1) allowed(1) by (cases "ad_operation a") (simp_all add: costs_def)
        then show ?thesis using service_spend [OF ok1 rpm sp] k1 allowed(5) by (simp add: level_kept_def)
      qed
    qed
  qed
qed

text \<open>A run of local decisions: the requests with their times and random lease ids.\<close>

fun fallback_run :: "(string \<Rightarrow> string \<Rightarrow> string) \<Rightarrow> (time \<times> string \<times> admission) list \<Rightarrow> access_state \<Rightarrow> (admission \<times> decision) list \<times> access_state" where
  "fallback_run tag [] s = ([], s)"
| "fallback_run tag ((now, fresh, a) # rs) s = (case boundedFallback tag fresh now a s of (d, s1) \<Rightarrow>
     (case fallback_run tag rs s1 of (ds, s2) \<Rightarrow> ((a, d) # ds, s2)))"

definition cost_of :: "(admission \<times> decision) list \<Rightarrow> nat" where
  "cost_of ds = length (filter (\<lambda>(a, d). costs a d) ds)"

lemma level_nonneg: "buckets_ok now bs \<Longrightarrow> 0 \<le> service_level rpm now bs"
  using cap_pos [of rpm] by (auto simp: service_level_def buckets_ok_def refilled_pos split: option.splits)

lemma level_top: "service_level rpm now bs \<le> bucket_cap rpm"
  by (simp add: service_level_def refilled_def split: option.splits)

lemma level_later: "now \<le> later \<Longrightarrow> service_level rpm later bs \<le> service_level rpm now bs + gain rpm (later - now)"
proof (cases "jm_get bs ''service''")
  case (Some v)
  assume "now \<le> later"
  then have "0 \<le> gain rpm (later - now)" by (simp add: gain_pos)
  then show ?thesis using Some gain_split [of rpm later "b_at v" now] by (simp add: service_level_def refilled_def min_def)
qed (simp add: service_level_def gain_pos)

lemma ok_later: "buckets_ok now bs \<Longrightarrow> now \<le> later \<Longrightarrow> buckets_ok later bs"
  by (fastforce simp: buckets_ok_def)

lemma run_level:
  assumes "sorted (now # map fst rs)" "buckets_ok now (as_buckets s)" "2 \<le> po_serviceRpm (as_policy s)" "fallback_run tag rs s = (ds, s')"
  defines "finish \<equiv> last (now # map fst rs)"
  shows "as_policy s' = as_policy s \<and> buckets_ok finish (as_buckets s') \<and> of_nat (cost_of ds) + service_level (po_serviceRpm (as_policy s)) finish (as_buckets s')
    \<le> service_level (po_serviceRpm (as_policy s)) now (as_buckets s) + gain (po_serviceRpm (as_policy s)) (finish - now)"
  using assms(1-4) unfolding finish_def
proof (induction rs arbitrary: now s ds)
  case Nil
  then show ?case by (simp add: cost_of_def)
next
  case (Cons r rs)
  let ?rpm = "po_serviceRpm (as_policy s)"
  obtain t fresh a where r: "r = (t, fresh, a)" by (metis prod_cases3)
  obtain d s1 where f: "boundedFallback tag fresh t a s = (d, s1)" by fastforce
  obtain ds1 where g: "fallback_run tag rs s1 = (ds1, s')" "ds = (a, d) # ds1" using Cons.prems(4) r f by (auto split: prod.splits)
  have t: "now \<le> t" "sorted (t # map fst rs)" using Cons.prems(1) r by auto
  note step = fallback_level [OF ok_later [OF Cons.prems(2) t(1)] Cons.prems(3) f]
  have IH: "as_policy s' = as_policy s1 \<and> buckets_ok (last (t # map fst rs)) (as_buckets s')
    \<and> of_nat (cost_of ds1) + service_level ?rpm (last (t # map fst rs)) (as_buckets s')
      \<le> service_level ?rpm t (as_buckets s1) + gain ?rpm (last (t # map fst rs) - t)"
    using Cons.IH [OF t(2) _ _ g(1)] step Cons.prems(3) by simp
  have "gain ?rpm (last (t # map fst rs) - now) = gain ?rpm (t - now) + gain ?rpm (last (t # map fst rs) - t)" by (rule gain_split)
  moreover have "cost_of ds = (if costs a d then 1 else 0) + cost_of ds1" by (simp add: g(2) cost_of_def)
  ultimately show ?case using IH step level_later [OF t(1), of ?rpm "as_buckets s"] r by (auto split: if_splits)
qed

section \<open>Properties\<close>

text \<open>C39: An outage of the quota service does not open the relay: in every stretch of a run of local decisions, in the order of
  their times, the requests and connections admitted are at most the burst of the service bucket plus its rate times
  the length of the stretch, whoever asks, although buckets are refunded and idle ones are dropped.\<close>

theorem fallback_rate_bounded:
  assumes "as_buckets s0 = []" "2 \<le> po_serviceRpm (as_policy s0)" "fallback_run tag earlier s0 = (ds0, s)" "fallback_run tag rs s = (ds, s')"
    and "sorted (map fst (earlier @ rs))" "rs \<noteq> []"
  shows "of_nat (cost_of ds) \<le> bucket_cap (po_serviceRpm (as_policy s0)) + gain (po_serviceRpm (as_policy s0)) (fst (last rs) - fst (hd rs))"
proof -
  let ?first = "fst (hd (earlier @ rs))"
  have "sorted (?first # map fst earlier)" using assms(5,6) by (cases earlier) (auto simp: sorted_append)
  moreover have "buckets_ok ?first (as_buckets s0)" using assms(1) by (simp add: buckets_ok_def)
  ultimately have e: "as_policy s = as_policy s0" "buckets_ok (last (?first # map fst earlier)) (as_buckets s)"
    using run_level [OF _ _ assms(2,3)] by blast+
  have "last (?first # map fst earlier) \<le> fst (hd rs)"
    using assms(5,6) by (cases earlier) (auto simp: sorted_append last_map)
  then have ok: "buckets_ok (fst (hd rs)) (as_buckets s)" by (rule ok_later [OF e(2)])
  have "sorted (fst (hd rs) # map fst rs)" using assms(5,6) by (cases rs) (auto simp: sorted_append)
  moreover have "last (fst (hd rs) # map fst rs) = fst (last rs)" using assms(6) by (simp add: last_map)
  ultimately have "buckets_ok (fst (last rs)) (as_buckets s')"
    "of_nat (cost_of ds) + service_level (po_serviceRpm (as_policy s0)) (fst (last rs)) (as_buckets s')
      \<le> service_level (po_serviceRpm (as_policy s0)) (fst (hd rs)) (as_buckets s) + gain (po_serviceRpm (as_policy s0)) (fst (last rs) - fst (hd rs))"
    using run_level [OF _ ok _ assms(4)] assms(2) e(1) by simp_all
  then show ?thesis
    using level_nonneg [of "fst (last rs)" "as_buckets s'" "po_serviceRpm (as_policy s0)"]
      level_top [of "po_serviceRpm (as_policy s0)" "fst (hd rs)" "as_buckets s"] by linarith
qed

text \<open>C40: A lease that is granted locally keeps every ceiling of the policy: after it, the leases of the process are at most those of
  the service, and those of its account, of its device or, without an account, of its network at most theirs.\<close>

theorem fallback_leases_bounded:
  assumes f: "boundedFallback tag fresh now a s = (d, s')" and "dc_allowed d"
    and op: "ad_operation a = Connect_op \<or> ad_operation a = Renew_op \<and> jm_get (live_leases now (as_leases s)) (case ad_leaseId a of None \<Rightarrow> [] | Some l \<Rightarrow> l) = None"
  shows "length (as_leases s') \<le> po_serviceConnections (as_policy s)
    \<and> (if ad_account a = None then count_leases (same_network a) (as_leases s') \<le> po_anonymousConnections (as_policy s)
       else count_leases (same_account a) (as_leases s') \<le> ti_accountConnections (tier_of (as_policy s) a)
         \<and> (ad_device a \<noteq> None \<longrightarrow> count_leases (same_device a) (as_leases s') \<le> ti_deviceConnections (tier_of (as_policy s) a)))"
proof -
  obtain refusal bs1 where r: "spend_rates tag (as_policy s) a now (as_buckets s) = (refusal, bs1)" by fastforce
  have n: "ad_operation a \<noteq> Release_op" "ad_operation a \<in> {Connect_op, Renew_op}"
    "\<not> (ad_operation a = Renew_op \<and> jm_get (live_leases now (as_leases s)) (case ad_leaseId a of None \<Rightarrow> [] | Some l \<Rightarrow> l) \<noteq> None)"
    using op by auto
  from f n(1,3) r show ?thesis
  proof (cases rule: fallback_decided)
    case (denied bs2)
    then show ?thesis using assms(2) by simp
  next
    case allowed
    have "connection_refusal (as_policy s) a (live_leases now (as_leases s)) = None" using allowed(2) n(2) by (auto split: if_splits)
    then show ?thesis using within_ceilings [of "as_policy s" a "live_leases now (as_leases s)" "lease_id fresh a"] allowed(4) [OF n(2)] by simp
  qed
qed

section \<open>Witnesses\<close>

definition sample_visitor :: admission where
  "sample_visitor = \<lparr>ad_operation = Connect_op, ad_category = ''anonymous'', ad_clientIp = Some ''10.0.0.1'', ad_identityKind = None,
     ad_account = None, ad_device = None, ad_expiresAt = 31000, ad_leaseId = None\<rparr>"

definition sample_access :: access_state where
  "sample_access = \<lparr>as_buckets = [], as_leases = [], as_policy = defaultPolicy\<rparr>"

lemmas access_eval = sample_visitor_def sample_access_def defaultPolicy_def boundedFallback_def live_leases_def spend_rates_def spend_def
  sweep_buckets_def bucket_cap_def refilled_def gain_def connection_refusal_def count_leases_def same_network_def lease_id_def
  local_decision_def network_key_def FALLBACK_LIMIT_def Let_def

lemma sample_admitted:
  "\<exists>d s'. boundedFallback (\<lambda>_ x. x) ''lease'' 1000 sample_visitor sample_access = (d, s') \<and> dc_allowed d \<and> as_leases s' = [(''lease'', sample_visitor)]"
  by (simp add: access_eval jm_get_def)

theorem fallback_leases_bounded_witness:
  "\<exists>d s'. boundedFallback (\<lambda>_ x. x) ''lease'' 1000 sample_visitor sample_access = (d, s') \<and> length (as_leases s') = 1
     \<and> count_leases (same_network sample_visitor) (as_leases s') \<le> 32"
proof -
  obtain d s' where f: "boundedFallback (\<lambda>_ x. x) ''lease'' 1000 sample_visitor sample_access = (d, s')" "dc_allowed d"
    "as_leases s' = [(''lease'', sample_visitor)]" using sample_admitted by blast
  have "count_leases (same_network sample_visitor) (as_leases s') \<le> 32"
    using fallback_leases_bounded [OF f(1,2)] by (simp add: sample_visitor_def sample_access_def defaultPolicy_def Let_def)
  then show ?thesis using f by (intro exI [of _ d] exI [of _ s']) simp
qed

theorem fallback_rate_bounded_witness:
  "\<exists>ds s'. fallback_run (\<lambda>_ x. x) [(1000, ''lease'', sample_visitor)] sample_access = (ds, s') \<and> cost_of ds = 1 \<and> of_nat (cost_of ds) \<le> (200 :: rat)"
proof -
  obtain d s' where f: "boundedFallback (\<lambda>_ x. x) ''lease'' 1000 sample_visitor sample_access = (d, s')" "dc_allowed d"
    using sample_admitted by blast
  have run: "fallback_run (\<lambda>_ x. x) [(1000, ''lease'', sample_visitor)] sample_access = ([(sample_visitor, d)], s')" using f(1) by simp
  have one: "cost_of [(sample_visitor, d)] = 1" using f(2) by (simp add: cost_of_def costs_def sample_visitor_def)
  have "of_nat (cost_of [(sample_visitor, d)]) \<le> (200 :: rat)"
    using fallback_rate_bounded [of sample_access "\<lambda>_ x. x" "[]" "[]" sample_access, OF _ _ _ run]
    by (simp add: sample_access_def defaultPolicy_def Let_def bucket_cap_def)
  then show ?thesis using run one by blast
qed

end
