(* ===== verification/Spec2Isabelle.thy ===== *)
theory Spec2Isabelle
  imports Delivery_Queue Connection_Policy Pairing_Mailbox Task_Store Wake_Delivery Retained_State Push_Devices Endpoint_Directory Task_Dispatch Node_Session Relay_Log Activity_Delivery Task_Records Room_Session Relay_Upgrade Relay_Routing Client_Access
begin

text \<open>
  A verification development of the GrantTap relay, the service that carries end-to-end encrypted frames
  between phones and computers. The program has two runtimes with the same promises: the Cloudflare worker
  (\<open>src/worker.js\<close>, \<open>src/relay/\<close>), in which a Durable Object keeps each room and each pairing mailbox, and the Node
  relay (\<open>src/node/\<close>) over one SQLite store; \<open>src/taskDispatch/\<close>, \<open>src/taskActivities/\<close>, \<open>src/retainedState/\<close>,
  \<open>src/roomPresence/\<close> and \<open>src/ingressFlow/\<close> serve both.

  \<^bold>\<open>How the parts interact.\<close> A request is routed (\<open>requestRouter.js\<close>, \<open>routeHttp\<close>) to a handler, which asks the room
  gate whether the credential owns the room. A WebSocket is opened by an upgrade that passes the gate, the
  cool-down and, on a managed relay, the admission ticket and the quota service. A text frame of a socket passes
  the frame window and the validation; the first one gives the socket its role and brings it the retained
  state and the stored frames; every one may be retained, stored in the mailbox of its addressee, forwarded to
  the connected ones, and may ask for a wake push. Task jobs are submitted over HTTP, offered to connected
  computers and claimed by one of them. One alarm (worker) or timers (Node) drive expiry, retries and offers.

  \<^bold>\<open>Theories and sources.\<close>

  \<^item> \<open>Relay_Prelude\<close>: JSON values and the JavaScript operators the code uses on them, insertion-ordered
    maps (\<open>jmap\<close>, for \<open>Map\<close> and SQL tables), string classes, shared lemmas and fact collections.
  \<^item> \<open>Relay_Support\<close>: requests, responses, bounded body readers and the constant-time comparison
    (\<open>relaySupport.js\<close>, \<open>http-payloads.js\<close>).
  \<^item> \<open>Relay_Validation\<close>: \<open>envelopeProblem\<close> and the field checks (\<open>relayValidation.js\<close>, \<open>recipientRouting.js\<close>). Canonical
    base64 is what an encoder produces; a deliverable envelope only becomes undeliverable by expiring.
  \<^item> \<open>Submission_Receipts\<close>, \<open>Delivery_Queue\<close>: retention of frames (\<open>submissionReceipts.js\<close>) and the mailboxes of both
    runtimes (\<open>node/store.js\<close>, \<open>queue\<close>, \<open>acknowledge\<close> and \<open>flushTo\<close> of \<open>room.js\<close>). A stored submission survives every
    sequence of operations until it is acknowledged or expires; mailboxes stay within their bounds. The contract
    of a mailbox is a locale that both runtimes interpret.
  \<^item> \<open>Cool_Down\<close>, \<open>Connection_Policy\<close>: strikes and delays (\<open>coolDown.js\<close>), the frame window, policy closes and drop notices
    (\<open>connectionPolicy.js\<close>, \<open>roomSockets.js\<close>, \<open>socket-policy.js\<close>, \<open>ingressFlow\<close>). An announced delay is enforced.
  \<^item> \<open>Pairing_Mailbox\<close>: the single-use mailboxes (\<open>pairingMailbox.js\<close>, \<open>handlePairing\<close>), which refine an abstract one.
  \<^item> \<open>Task_Policy\<close>, \<open>Task_Store\<close>, \<open>Task_Records\<close>, \<open>Task_Writers\<close>, \<open>Task_Dispatch\<close>: the life of a job (\<open>policy.js\<close>), the stores of both
    runtimes (\<open>node.js\<close>, \<open>worker.js\<close>, \<open>worker-ciphertext.js\<close>), the listing of stored pages (\<open>worker-records.js\<close>), scoped writers and
    configurations, and the HTTP interface (\<open>index.js\<close>). One receiver runs a job; an accepted job is held; no
    ciphertext outlives its job; a writer reaches its own jobs only; the listing ends.
  \<^item> \<open>Wake_Delivery\<close>, \<open>Push_Devices\<close>: coalesced wakes (\<open>wakeDelivery.js\<close>), device registration and the push itself. Pushes are
    spaced and bounded, and the pump clears what is due.
  \<^item> \<open>Retained_State\<close>: the retained frames of both runtimes (\<open>retainedState/\<close>), which evict alike and answer alike.
  \<^item> \<open>Room_Access\<close>, \<open>Endpoint_Directory\<close>: the pinned credential of a room, as one abstract gate for both runtimes, and the
    endpoint directory (\<open>endpointDirectory.js\<close>, \<open>endpointRetention.js\<close>).
  \<^item> \<open>Socket_Delivery\<close>, \<open>Managed_Admission\<close>: backpressure, acknowledgements, replay and heartbeat of the Node sockets
    (\<open>socketDelivery\<close>, \<open>responseAcknowledgements\<close>, \<open>heartbeat.js\<close>); tickets, renewal, upgrade gate and quota identity.
  \<^item> \<open>Node_Session\<close>, \<open>Room_Session\<close>: the handler of a text frame with all it calls, of the Node relay (\<open>handleSocketMessage\<close>) and of
    the Durable Object (\<open>webSocketMessage\<close>), with presence, offers and the alarm. A frame reaches only the sockets it
    is for, a reliable one only once it is stored; the alarm is the earliest deadline.
  \<^item> \<open>Relay_Upgrade\<close>, \<open>Relay_Routing\<close>: how sockets are opened and requests routed (\<open>server.js\<close>, \<open>requestRouter.js\<close>, \<open>legacyProxy.js\<close>,
    \<open>acceptWebSocket\<close>), the job pump. The Node relay as a step relation: whatever interleaves, a room has at most 32
    sockets and only its owner has sockets in it; both routers agree; offers are spaced.
  \<^item> \<open>Client_Access\<close>: the client of the quota service and its local decisions during an outage (\<open>hostwatch-client.mjs\<close>), which
    keep the ceilings on leases and the rate of the service.
  \<^item> \<open>Task_Activities\<close>, \<open>Activity_Delivery\<close>, \<open>Relay_Log\<close>: live-activity registries and their pushes, and the log with its
    suppression of repeated lines.

  \<^bold>\<open>Conventions.\<close> Definitions keep the names of the functions they model, with \<open>node_\<close> or \<open>worker_\<close> where both runtimes
  have one. State is passed explicitly; an exception is \<open>None\<close>, the error side of a sum, or a run that did not come to its end.
  Times are milliseconds as \<open>int\<close>; JavaScript integers stay below the safe bound where the code checks it, and
  the constant-time comparison is on 32-bit words. A handler reads the clock once. A Durable Object lets no other
  event in while it waits for its storage, so its handlers are single steps; waits that let events in (Apple, the quota
  service, SQLite calls are synchronous) are split into steps that interleave freely. Loops are structural recursion
  or have a termination proof; the listing of stored pages, which a storage that never stops paging would keep
  going, is a partial function, with a proof that it returns. No definition takes fuel.

  \<^bold>\<open>Parameters.\<close> \<open>JSON.parse\<close> and \<open>JSON.stringify\<close>, SHA-256, HMAC and base64url, the answers of Apple and of the quota
  service, the URL parser, string collation, the pages of the object storage, and whether sends and writes
  succeed. What a theorem needs of them is a hypothesis of its own, such as \<open>hex_digest\<close>.

  \<^bold>\<open>Not modelled.\<close> The capacity metrics (\<open>node/capacity\<close>), which only observe; the HTTP/2 transport and the JWT of the push
  (\<open>pushDelivery/http2.js\<close>, signing in \<open>apnsWake.js\<close>), the socket transport to the quota service, the reading of environment variables
  and key files, the SQL schema and its migration, and process start and shutdown: they are calls of Node, of
  Cloudflare or of Apple without logic of the relay in them.
\<close>

end
